(* ===== verification/Prelude.thy ===== *)
theory Prelude
  imports Main "HOL-Library.Word" "HOL-Library.AList" "HOL-Library.Multiset"
begin

text \<open>
  What the components share: Go's fixed-width integer arithmetic, Go strings as byte
  strings (with the UTF-8 decoding that \<open>range\<close> over a string, \<open>strings.Fields\<close> and
  \<open>strings.TrimSpace\<close> perform), the string and scanner functions of the standard library
  that the plugin calls, Go maps as association lists without duplicate keys, and the
  generic lemmas about them. Errors are values of a sum type, \<open>Inl\<close> for the error.
\<close>

named_theorems go_string \<open>definitions of the Go string functions, for evaluation\<close>
named_theorems gomap_simps \<open>lookup and well-formedness of Go maps\<close>

section \<open>Machine integers and durations\<close>

type_synonym u8 = "8 word"
type_synonym u16 = "16 word"
type_synonym u32 = "32 word"
type_synonym u64 = "64 word"
type_synonym bytes = "u8 list"

text \<open>
  An \<open>int\<close>, \<open>int64\<close> or \<open>time.Duration\<close> of the program is a HOL \<open>int\<close> that is brought back
  into the range of a signed 64-bit integer wherever the code's arithmetic can leave it.
\<close>

definition wrap64 :: "int \<Rightarrow> int" where
  "wrap64 i = (i + 2 ^ 63) mod 2 ^ 64 - 2 ^ 63"

definition int64 :: "int \<Rightarrow> bool" where
  "int64 i \<longleftrightarrow> - (2 ^ 63) \<le> i \<and> i < 2 ^ 63"

lemma wrap64_id [simp]: "int64 i \<Longrightarrow> wrap64 i = i"
  by (simp add: wrap64_def int64_def)

lemma int64_wrap64: "int64 (wrap64 i)"
proof -
  have "0 \<le> (i + 2 ^ 63) mod 2 ^ 64" and "(i + 2 ^ 63) mod 2 ^ 64 < (2::int) ^ 64"
    by simp_all
  then show ?thesis by (simp add: wrap64_def int64_def)
qed

lemma wrap64_wrap64_diff [simp]: "wrap64 (wrap64 a - b) = wrap64 (a - b)"
proof -
  have "((a + 2 ^ 63) mod 2 ^ 64 - 2 ^ 63 - b + 2 ^ 63) mod 2 ^ 64 = (a - b + 2 ^ 63) mod (2::int) ^ 64"
    by (simp add: mod_diff_left_eq algebra_simps)
  then show ?thesis by (simp add: wrap64_def)
qed

lemma wrap64_high: "2 ^ 63 \<le> a \<Longrightarrow> a < 2 ^ 64 \<Longrightarrow> wrap64 a = a - 2 ^ 64"
  unfolding wrap64_def by (subst mod_pos_geq) (simp_all add: mod_pos_pos_trivial)

text \<open>Go's integer division truncates towards zero.\<close>

definition go_div :: "int \<Rightarrow> int \<Rightarrow> int" where
  "go_div a b = sgn a * sgn b * (\<bar>a\<bar> div \<bar>b\<bar>)"

lemma go_div_pos [simp]: "0 \<le> a \<Longrightarrow> 0 < b \<Longrightarrow> go_div a b = a div b"
  by (cases "a = 0") (simp_all add: go_div_def)

lemma go_div_neg: "a < 0 \<Longrightarrow> 0 < b \<Longrightarrow> go_div a b \<le> 0"
  by (simp add: go_div_def pos_imp_zdiv_nonneg_iff)

text \<open>
  A \<open>time.Time\<close> is the number of nanoseconds since the Unix epoch, a \<open>time.Duration\<close> a
  number of nanoseconds; the zero \<open>time.Time\<close> is the first of January of year 1.
  \<open>Time.Sub\<close> saturates at the bounds of a \<open>Duration\<close>.
\<close>

type_synonym time = int
type_synonym duration = int

abbreviation second :: duration where
  "second \<equiv> 1000000000"

abbreviation minute :: duration where
  "minute \<equiv> 60 * second"

abbreviation millisecond :: duration where
  "millisecond \<equiv> 1000000"

definition zero_time :: time where
  "zero_time = - 62135596800 * second"

definition time_sub :: "time \<Rightarrow> time \<Rightarrow> duration" where
  "time_sub t u = max (- (2 ^ 63)) (min (2 ^ 63 - 1) (t - u))"

lemma time_sub_exact: "int64 (t - u) \<Longrightarrow> time_sub t u = t - u"
  by (simp add: time_sub_def int64_def)

section \<open>Bytes, characters and UTF-8\<close>

text \<open>A Go string is a sequence of bytes; \<open>char\<close> has exactly the 256 byte values.\<close>

abbreviation ord :: "char \<Rightarrow> int" where
  "ord c \<equiv> of_char c"

definition byte_of :: "char \<Rightarrow> u8" where
  "byte_of c = word_of_int (ord c)"

definition bytes_of :: "string \<Rightarrow> bytes" where
  "bytes_of s = map byte_of s"

lemma ord_range: "0 \<le> ord c" "ord c < 256"
  by (cases c; auto simp: of_char_def horner_sum_simps)+

lemma ord_inject [simp]: "ord c = ord d \<longleftrightarrow> c = d"
  by simp

lemma byte_of_inject [simp]: "byte_of c = byte_of d \<longleftrightarrow> c = d"
  using ord_range [of c] ord_range [of d]
  by (simp add: byte_of_def word_of_int_eq_iff take_bit_int_eq_self)

lemma bytes_of_append [simp]: "bytes_of (s @ t) = bytes_of s @ bytes_of t"
  by (simp add: bytes_of_def)

lemma bytes_of_inject [simp]: "bytes_of s = bytes_of t \<longleftrightarrow> s = t"
  by (simp add: bytes_of_def inj_map_eq_map inj_def)

lemma length_bytes_of [simp]: "length (bytes_of s) = length s"
  by (simp add: bytes_of_def)

definition is_digit :: "char \<Rightarrow> bool" where
  "is_digit c \<longleftrightarrow> 48 \<le> ord c \<and> ord c \<le> 57"

definition is_lower :: "char \<Rightarrow> bool" where
  "is_lower c \<longleftrightarrow> 97 \<le> ord c \<and> ord c \<le> 122"

definition is_upper :: "char \<Rightarrow> bool" where
  "is_upper c \<longleftrightarrow> 65 \<le> ord c \<and> ord c \<le> 90"

definition is_alnum :: "char \<Rightarrow> bool" where
  "is_alnum c \<longleftrightarrow> is_lower c \<or> is_upper c \<or> is_digit c"

text \<open>
  The decoding of one rune, as Go's \<open>range\<close> over a string does it: an invalid or
  truncated sequence is the replacement character, one byte wide.
\<close>

definition rune_error :: int where
  "rune_error = 65533"

definition between :: "int \<Rightarrow> int \<Rightarrow> char \<Rightarrow> bool" where
  "between lo hi c \<longleftrightarrow> lo \<le> ord c \<and> ord c \<le> hi"

definition decode2 :: "int \<Rightarrow> string \<Rightarrow> int \<times> nat" where
  "decode2 b0 r =
     (case r of
        c1 # _ \<Rightarrow>
          if between 128 191 c1 then ((b0 - 192) * 64 + (ord c1 - 128), 2) else (rune_error, 1)
      | [] \<Rightarrow> (rune_error, 1))"

definition decode3 :: "int \<Rightarrow> int \<Rightarrow> int \<Rightarrow> string \<Rightarrow> int \<times> nat" where
  "decode3 lo hi b0 r =
     (case r of
        c1 # c2 # _ \<Rightarrow>
          if between lo hi c1 \<and> between 128 191 c2
          then ((b0 - 224) * 4096 + (ord c1 - 128) * 64 + (ord c2 - 128), 3)
          else (rune_error, 1)
      | _ \<Rightarrow> (rune_error, 1))"

definition decode4 :: "int \<Rightarrow> int \<Rightarrow> int \<Rightarrow> string \<Rightarrow> int \<times> nat" where
  "decode4 lo hi b0 r =
     (case r of
        c1 # c2 # c3 # _ \<Rightarrow>
          if between lo hi c1 \<and> between 128 191 c2 \<and> between 128 191 c3
          then ((b0 - 240) * 262144 + (ord c1 - 128) * 4096 + (ord c2 - 128) * 64 + (ord c3 - 128), 4)
          else (rune_error, 1)
      | _ \<Rightarrow> (rune_error, 1))"

fun decode_rune :: "string \<Rightarrow> int \<times> nat" where
  "decode_rune [] = (rune_error, 0)"
| "decode_rune (c # r) =
     (let b0 = ord c in
      if b0 < 128 then (b0, 1)
      else if b0 < 194 then (rune_error, 1)
      else if b0 \<le> 223 then decode2 b0 r
      else if b0 = 224 then decode3 160 191 b0 r
      else if b0 = 237 then decode3 128 159 b0 r
      else if b0 \<le> 239 then decode3 128 191 b0 r
      else if b0 = 240 then decode4 144 191 b0 r
      else if b0 \<le> 243 then decode4 128 191 b0 r
      else if b0 = 244 then decode4 128 143 b0 r
      else (rune_error, 1))"

lemmas decode_defs = decode2_def decode3_def decode4_def

lemma decode_rune_width:
  assumes "s \<noteq> []"
  shows "1 \<le> snd (decode_rune s)" and "snd (decode_rune s) \<le> length s"
  using assms by (cases s; auto simp: decode_rune.simps decode_defs Let_def split: list.splits)+

text \<open>The runes of a string in order, each with the bytes it was decoded from.\<close>

function chunks :: "string \<Rightarrow> (int \<times> string) list" where
  "chunks [] = []"
| "chunks (c # s) =
     (let (r, w) = decode_rune (c # s) in (r, take w (c # s)) # chunks (drop w (c # s)))"
  by pat_completeness auto
termination
proof (relation "measure length", goal_cases)
  case (2 c s x r w)
  then have "1 \<le> w" using decode_rune_width(1) [of "c # s"] by (metis list.distinct(1) snd_conv)
  then show ?case by simp
qed simp

declare decode_rune.simps(2) [simp del]

lemma concat_chunks [simp]: "concat (map snd (chunks s)) = s"
  by (induction s rule: chunks.induct) (auto split: prod.splits)

lemma chunks_ascii_Cons:
  "ord c < 128 \<Longrightarrow> chunks (c # s) = (ord c, [c]) # chunks s"
  by (simp add: decode_rune.simps)

text \<open>\<open>unicode.IsSpace\<close>.\<close>

definition is_space :: "int \<Rightarrow> bool" where
  "is_space r \<longleftrightarrow> (9 \<le> r \<and> r \<le> 13) \<or> r = 32 \<or> r = 133 \<or> r = 160 \<or> r = 5760
     \<or> (8192 \<le> r \<and> r \<le> 8202) \<or> r = 8232 \<or> r = 8233 \<or> r = 8239 \<or> r = 8287 \<or> r = 12288"

section \<open>String functions\<close>

definition IndexByte :: "string \<Rightarrow> char \<Rightarrow> int" where
  "IndexByte s c = (if c \<in> set s then int (length (takeWhile (\<lambda>x. x \<noteq> c) s)) else - 1)"

definition HasPrefix :: "string \<Rightarrow> string \<Rightarrow> bool" where
  "HasPrefix s p \<longleftrightarrow> take (length p) s = p"

definition HasSuffix :: "string \<Rightarrow> string \<Rightarrow> bool" where
  "HasSuffix s p \<longleftrightarrow> length p \<le> length s \<and> drop (length s - length p) s = p"

definition TrimPrefix :: "string \<Rightarrow> string \<Rightarrow> string" where
  "TrimPrefix s p = (if HasPrefix s p then drop (length p) s else s)"

definition TrimSuffix :: "string \<Rightarrow> string \<Rightarrow> string" where
  "TrimSuffix s p = (if HasSuffix s p then take (length s - length p) s else s)"

definition TrimRight :: "string \<Rightarrow> char \<Rightarrow> string" where
  "TrimRight s c = rev (dropWhile (\<lambda>x. x = c) (rev s))"

definition TrimSpace :: "string \<Rightarrow> string" where
  "TrimSpace s = concat (map snd
     (rev (dropWhile (is_space \<circ> fst) (rev (dropWhile (is_space \<circ> fst) (chunks s))))))"

fun fields_from :: "string \<Rightarrow> (int \<times> string) list \<Rightarrow> string list" where
  "fields_from cur [] = (if cur = [] then [] else [cur])"
| "fields_from cur ((r, b) # cs) =
     (if is_space r then (if cur = [] then fields_from [] cs else cur # fields_from [] cs)
      else fields_from (cur @ b) cs)"

definition Fields :: "string \<Rightarrow> string list" where
  "Fields s = fields_from [] (chunks s)"

fun Split :: "char \<Rightarrow> string \<Rightarrow> string list" where
  "Split c [] = [[]]"
| "Split c (x # xs) = (if x = c then [] # Split c xs
     else (case Split c xs of [] \<Rightarrow> [[x]] | y # ys \<Rightarrow> (x # y) # ys))"

fun Join :: "string list \<Rightarrow> string \<Rightarrow> string" where
  "Join [] sep = []"
| "Join [x] sep = x"
| "Join (x # y # xs) sep = x @ sep @ Join (y # xs) sep"

lemmas [go_string] = IndexByte_def HasPrefix_def HasSuffix_def TrimPrefix_def TrimSuffix_def
  TrimRight_def TrimSpace_def Fields_def is_space_def rune_error_def between_def decode_defs
  decode_rune.simps is_digit_def is_lower_def is_upper_def is_alnum_def

lemma Split_not_Nil [simp]: "Split c s \<noteq> []"
  by (induction s) (auto split: list.splits)

lemma Split_no_sep: "c \<notin> set s \<Longrightarrow> Split c s = [s]"
  by (induction s) auto

lemma Split_append_sep: "c \<notin> set s \<Longrightarrow> Split c (s @ c # t) = s # Split c t"
  by (induction s) auto

lemma IndexByte_ge0_iff: "0 \<le> IndexByte s c \<longleftrightarrow> c \<in> set s"
  by (simp add: IndexByte_def)

lemma take_IndexByte: "c \<in> set s \<Longrightarrow> take (nat (IndexByte s c)) s = takeWhile (\<lambda>x. x \<noteq> c) s"
  by (simp add: IndexByte_def) (rule takeWhile_eq_take [symmetric])

lemma set_TrimRight: "set (TrimRight s c) \<subseteq> set s"
  by (auto simp: TrimRight_def dest: set_dropWhileD)

lemma length_TrimRight: "length (TrimRight s c) \<le> length s"
  by (metis TrimRight_def length_dropWhile_le length_rev)

lemma TrimRight_last: "TrimRight s c \<noteq> [] \<Longrightarrow> last (TrimRight s c) \<noteq> c"
  by (metis (mono_tags, lifting) TrimRight_def hd_dropWhile last_rev rev_is_Nil_conv)

lemma TrimRight_Nil [simp]: "TrimRight [] c = []"
  by (simp add: TrimRight_def)

lemma append_sep_inject:
  "x \<notin> set xs \<Longrightarrow> x \<notin> set xs' \<Longrightarrow> xs @ x # ys = xs' @ x # ys' \<longleftrightarrow> xs = xs' \<and> ys = ys'"
proof (induction xs arbitrary: xs')
  case Nil
  then show ?case by (cases xs') auto
next
  case (Cons a xs)
  then show ?case by (cases xs') auto
qed

section \<open>Reading lines\<close>

text \<open>
  A \<open>bufio.Scanner\<close> over a reader: the bytes the reader delivers and the error, if any,
  that it fails with after them. Lines end at a newline, one trailing carriage return is
  dropped, and a line that does not fit the 64 KiB buffer stops the scan with an error.
\<close>

type_synonym reader = "string \<times> string option"

definition newline :: char where
  "newline = CHR 0x0A"

definition dropCR :: "string \<Rightarrow> string" where
  "dropCR l = (if l \<noteq> [] \<and> last l = CHR 0x0D then butlast l else l)"

definition raw_lines :: "string \<Rightarrow> string list" where
  "raw_lines s = (let ls = Split newline s in if last ls = [] then butlast ls else ls)"

definition max_token :: int where
  "max_token = 65536"

definition scan :: "reader \<Rightarrow> string list \<times> string option" where
  "scan rd =
     (let ls = raw_lines (fst rd); good = takeWhile (\<lambda>l. int (length l) < max_token) ls
      in (map dropCR good,
          if length good < length ls then Some ''bufio.Scanner: token too long'' else snd rd))"

lemmas [go_string] = dropCR_def raw_lines_def scan_def newline_def max_token_def

section \<open>Go maps\<close>

text \<open>
  A Go map is an association list without duplicate keys; its iteration order is
  unspecified, so whatever depends on the order takes a parameter that chooses it.
  \<open>evict v m\<close> is the code's \<open>for k := range m { delete(m, k); break }\<close>: the entry that
  the iteration meets first is dropped, and \<open>v\<close> says which one that is.
\<close>

type_synonym ('k, 'v) gomap = "('k \<times> 'v) list"

definition wf_map :: "('k, 'v) gomap \<Rightarrow> bool" where
  "wf_map m \<longleftrightarrow> distinct (map fst m)"

definition evict :: "nat \<Rightarrow> ('k, 'v) gomap \<Rightarrow> ('k, 'v) gomap" where
  "evict v m = (if m = [] then m else AList.delete (fst (m ! (v mod length m))) m)"

lemma wf_map_Nil [simp]: "wf_map []"
  by (simp add: wf_map_def)

lemma wf_map_update [simp]: "wf_map m \<Longrightarrow> wf_map (AList.update k x m)"
  by (simp add: wf_map_def distinct_update)

lemma wf_map_delete [simp]: "wf_map m \<Longrightarrow> wf_map (AList.delete k m)"
  by (simp add: wf_map_def distinct_delete)

lemma wf_map_evict [simp]: "wf_map m \<Longrightarrow> wf_map (evict v m)"
  by (simp add: evict_def)

lemma length_update_new:
  "map_of m k = None \<Longrightarrow> length (AList.update k x m) = Suc (length m)"
  by (induction m) (auto split: if_splits)

lemma length_update_old:
  "map_of m k \<noteq> None \<Longrightarrow> length (AList.update k x m) = length m"
  by (induction m) (auto split: if_splits)

lemma delete_not_in: "k \<notin> fst ` set m \<Longrightarrow> AList.delete k m = m"
  by (induction m) auto

lemma length_delete:
  "wf_map m \<Longrightarrow> k \<in> fst ` set m \<Longrightarrow> Suc (length (AList.delete k m)) = length m"
proof (induction m)
  case Nil
  then show ?case by simp
next
  case (Cons p m)
  show ?case
  proof (cases "fst p = k")
    case True
    with Cons.prems have "k \<notin> fst ` set m" by (auto simp: wf_map_def)
    with True show ?thesis by (cases p) (simp add: delete_not_in)
  next
    case False
    with Cons show ?thesis by (cases p) (auto simp: wf_map_def)
  qed
qed

lemma length_evict: "wf_map m \<Longrightarrow> m \<noteq> [] \<Longrightarrow> Suc (length (evict v m)) = length m"
  unfolding evict_def by (simp, rule length_delete) simp_all

lemma length_evict_le: "length (evict v m) \<le> length m"
  by (simp add: evict_def length_delete_le)

lemma map_of_delete [simp]: "map_of (AList.delete k m) = (map_of m)(k := None)"
  by (rule delete_conv')

lemma map_of_update [simp]: "map_of (AList.update k x m) = (map_of m)(k \<mapsto> x)"
  by (rule update_conv')

lemma map_of_evict: "map_of (evict v m) k \<in> {None, map_of m k}"
  by (simp add: evict_def)

lemma set_update_subset: "set (AList.update k x m) \<subseteq> insert (k, x) (set m)"
  by (induction m) auto

lemma in_set_delete_D: "p \<in> set (AList.delete k m) \<Longrightarrow> p \<in> set m"
  by (induction m) (auto split: if_splits)

lemma set_evict: "set (evict v m) \<subseteq> set m"
  by (auto simp: evict_def dest: in_set_delete_D)

lemma fst_evict_subset: "fst ` set (evict v m) \<subseteq> fst ` set m"
  using set_evict [of v m] by blast

lemmas [gomap_simps] = length_update_new length_update_old delete_not_in

section \<open>Errors as sums\<close>

definition is_ok :: "'e + 'a \<Rightarrow> bool" where
  "is_ok r = (case r of Inl _ \<Rightarrow> False | Inr _ \<Rightarrow> True)"

lemma is_ok_simps [simp]: "is_ok (Inr x)" "\<not> is_ok (Inl e)"
  by (simp_all add: is_ok_def)

lemma is_ok_iff: "is_ok r \<longleftrightarrow> (\<exists>x. r = Inr x)"
  by (cases r) simp_all

text \<open>
  Failing over: the servers are asked in turn until one answers; \<open>prev\<close> is the failure so far
  and \<open>none\<close> the error when there was nobody to ask.
\<close>

definition first_answer :: "('s \<Rightarrow> 'e + 'a) \<Rightarrow> 's list \<Rightarrow> 'e option \<Rightarrow> 'e \<Rightarrow> 'e + 'a" where
  "first_answer ask ss prev none =
     (case dropWhile (\<lambda>s. \<not> is_ok (ask s)) ss of
        s # _ \<Rightarrow> ask s
      | [] \<Rightarrow> if ss = [] then (case prev of None \<Rightarrow> Inl none | Some e \<Rightarrow> Inl e) else ask (last ss))"

lemma first_answer_Cons_fail:
  "ask s = Inl e \<Longrightarrow> first_answer ask (s # ss) prev none = first_answer ask ss (Some e) none"
  by (cases "dropWhile (\<lambda>s. \<not> is_ok (ask s)) ss") (auto simp: first_answer_def simp del: dropWhile_eq_Nil_conv)

lemma first_answer_Cons_ok: "ask s = Inr x \<Longrightarrow> first_answer ask (s # ss) prev none = Inr x"
  by (simp add: first_answer_def)

end
