(* ===== verification/Netip.thy ===== *)
theory Netip
  imports Prelude
begin

unbundle bit_operations_syntax

text \<open>
  The standard library's addresses as the plugin uses them: \<open>net/netip\<close> addresses and
  prefixes (parsing, printing, \<open>Unmap\<close>, \<open>WithZone\<close>, \<open>AsSlice\<close>, \<open>Masked\<close>,
  \<open>Contains\<close>), \<open>net.ParseIP\<close>, hardware addresses (\<open>net.ParseMAC\<close> and their
  \<open>String\<close>), and the number parsing and printing of \<open>strconv\<close>. Only the outcome of a
  failed parse is kept, not its message: the plugin never looks at it.
\<close>

section \<open>Numbers\<close>

definition digit_char :: "int \<Rightarrow> char" where
  "digit_char d = char_of (if d < 10 then 48 + d else 87 + d)"

function to_base :: "int \<Rightarrow> int \<Rightarrow> string" where
  "to_base b n = (if n < b \<or> b < 2 then [digit_char n] else to_base b (n div b) @ [digit_char (n mod b)])"
  by pat_completeness auto
termination
proof (relation "measure (\<lambda>(b, n). nat n)", goal_cases)
  case (2 b n)
  then have "0 < n" and "n div b < n" by (auto intro: int_div_less_self)
  then show ?case by simp
qed simp

declare to_base.simps [simp del]

definition hex_val :: "char \<Rightarrow> int option" where
  "hex_val c =
     (if is_digit c then Some (ord c - 48)
      else if 97 \<le> ord c \<and> ord c \<le> 102 then Some (ord c - 87)
      else if 65 \<le> ord c \<and> ord c \<le> 70 then Some (ord c - 55)
      else None)"

definition is_hex :: "char \<Rightarrow> bool" where
  "is_hex c \<longleftrightarrow> hex_val c \<noteq> None"

definition hex_value :: "string \<Rightarrow> int" where
  "hex_value s = foldl (\<lambda>a c. a * 16 + the (hex_val c)) 0 s"

definition dec_value :: "string \<Rightarrow> int" where
  "dec_value s = foldl (\<lambda>a c. a * 10 + (ord c - 48)) 0 s"

text \<open>\<open>strconv.ParseUint(s, 16, 32)\<close> and \<open>strconv.Atoi\<close>.\<close>

definition ParseUint16_32 :: "string \<Rightarrow> int option" where
  "ParseUint16_32 s =
     (if s \<noteq> [] \<and> list_all is_hex s \<and> hex_value s < 2 ^ 32 then Some (hex_value s) else None)"

definition Atoi :: "string \<Rightarrow> int option" where
  "Atoi s =
     (let neg = (s \<noteq> [] \<and> hd s = CHR ''-'');
          ds = (if s \<noteq> [] \<and> (hd s = CHR ''-'' \<or> hd s = CHR ''+'') then tl s else s);
          v = (if neg then - dec_value ds else dec_value ds)
      in if ds \<noteq> [] \<and> list_all is_digit ds \<and> int64 v then Some v else None)"

definition ParseBool :: "string \<Rightarrow> bool option" where
  "ParseBool s =
     (if s \<in> {''1'', ''t'', ''T'', ''TRUE'', ''true'', ''True''} then Some True
      else if s \<in> {''0'', ''f'', ''F'', ''FALSE'', ''false'', ''False''} then Some False
      else None)"

section \<open>Addresses\<close>

text \<open>The zero \<open>netip.Addr\<close>, an IPv4 address, an IPv6 address with its zone.\<close>

datatype addr = NoAddr | V4 u32 | V6 "128 word" string

definition Is4In6 :: "addr \<Rightarrow> bool" where
  "Is4In6 a = (case a of V6 w z \<Rightarrow> drop_bit 32 w = 65535 | _ \<Rightarrow> False)"

definition Unmap :: "addr \<Rightarrow> addr" where
  "Unmap a = (case a of V6 w z \<Rightarrow> if Is4In6 a then V4 (ucast w) else a | _ \<Rightarrow> a)"

definition WithZone :: "string \<Rightarrow> addr \<Rightarrow> addr" where
  "WithZone z a = (case a of V6 w _ \<Rightarrow> V6 w z | _ \<Rightarrow> a)"

definition BitLen :: "addr \<Rightarrow> int" where
  "BitLen a = (case a of NoAddr \<Rightarrow> 0 | V4 _ \<Rightarrow> 32 | V6 _ _ \<Rightarrow> 128)"

definition has_zone :: "addr \<Rightarrow> bool" where
  "has_zone a = (case a of V6 w z \<Rightarrow> z \<noteq> [] | _ \<Rightarrow> False)"

fun be_bytes :: "nat \<Rightarrow> int \<Rightarrow> int list" where
  "be_bytes 0 n = []"
| "be_bytes (Suc k) n = be_bytes k (n div 256) @ [n mod 256]"

definition be_value :: "int list \<Rightarrow> int" where
  "be_value bs = foldl (\<lambda>a b. a * 256 + b) 0 bs"

definition AsSlice :: "addr \<Rightarrow> bytes" where
  "AsSlice a = (case a of
     NoAddr \<Rightarrow> [] | V4 w \<Rightarrow> map word_of_int (be_bytes 4 (uint w))
   | V6 w z \<Rightarrow> map word_of_int (be_bytes 16 (uint w)))"

subsection \<open>Printing\<close>

definition string4 :: "u32 \<Rightarrow> string" where
  "string4 w = Join (map (to_base 10) (be_bytes 4 (uint w))) ''.''"

fun groups :: "int list \<Rightarrow> int list" where
  "groups (a # b # bs) = (a * 256 + b) # groups bs"
| "groups bs = bs"

definition zero_run :: "int list \<Rightarrow> nat \<times> nat" where
  "zero_run gs =
     foldl (\<lambda>(s, e) i.
         let l = length (takeWhile (\<lambda>g. g = 0) (drop i gs))
         in if 2 \<le> l \<and> e - s < l then (i, i + l) else (s, e))
       (255, 255) [0..<8]"

definition string6 :: "128 word \<Rightarrow> string" where
  "string6 w =
     (let gs = groups (be_bytes 16 (uint w)); (s, e) = zero_run gs; hex = map (to_base 16)
      in if s = 255 then Join (hex gs) '':''
         else Join (hex (take s gs)) '':'' @ ''::'' @ Join (hex (drop e gs)) '':'')"

definition zone_suffix :: "string \<Rightarrow> string" where
  "zone_suffix z = (if z = [] then [] else CHR ''%'' # z)"

definition addr_String :: "addr \<Rightarrow> string" where
  "addr_String a = (case a of
     NoAddr \<Rightarrow> ''invalid IP''
   | V4 w \<Rightarrow> string4 w
   | V6 w z \<Rightarrow> (if Is4In6 a then ''::ffff:'' @ string4 (ucast w) else string6 w) @ zone_suffix z)"

subsection \<open>Parsing\<close>

text \<open>One decimal field: digits only, no leading zero, at most 255.\<close>

definition octet :: "string \<Rightarrow> int option" where
  "octet s =
     (if s \<noteq> [] \<and> list_all is_digit s \<and> (hd s \<noteq> CHR ''0'' \<or> length s = 1) \<and> dec_value s \<le> 255
      then Some (dec_value s) else None)"

definition ipv4_fields :: "string \<Rightarrow> int list option" where
  "ipv4_fields s =
     (let fs = map octet (Split CHR ''.'' s)
      in if length fs = 4 \<and> list_all (\<lambda>f. f \<noteq> None) fs then Some (map the fs) else None)"

definition parseIPv4 :: "string \<Rightarrow> addr option" where
  "parseIPv4 s = map_option (\<lambda>fs. V4 (word_of_int (be_value fs))) (ipv4_fields s)"

text \<open>
  The loop over the colon-separated groups: the bytes so far, where the ellipsis was, and
  what is left of the string.
\<close>

function ipv6_loop :: "nat option \<Rightarrow> int list \<Rightarrow> string \<Rightarrow> (string \<times> int list \<times> nat option) option" where
  "ipv6_loop el ip s =
     (if 16 \<le> length ip then Some (s, ip, el)
      else
        let ds = takeWhile is_hex s; r = dropWhile is_hex s in
        if 4 < length ds \<or> ds = [] then None
        else if r \<noteq> [] \<and> hd r = CHR ''.'' then
          (if el = None \<and> length ip \<noteq> 12 then None
           else if 16 < length ip + 4 then None
           else map_option (\<lambda>fs. ([], ip @ fs, el)) (ipv4_fields s))
        else
          let ip' = ip @ [hex_value ds div 256, hex_value ds mod 256] in
          if r = [] then Some ([], ip', el)
          else if hd r \<noteq> CHR '':'' then None
          else if tl r = [] then None
          else if hd (tl r) = CHR '':'' then
            (if el \<noteq> None then None
             else if tl (tl r) = [] then Some ([], ip', Some (length ip'))
             else ipv6_loop (Some (length ip')) ip' (tl (tl r)))
          else ipv6_loop el ip' (tl r))"
  by pat_completeness auto
termination
  by (relation "measure (\<lambda>(el, ip, s). 16 - length ip)") auto

declare ipv6_loop.simps [simp del]

definition ipv6_finish :: "string \<Rightarrow> int list \<Rightarrow> nat option \<Rightarrow> int list option" where
  "ipv6_finish s ip el =
     (if s \<noteq> [] then None
      else if length ip < 16 then
        (case el of None \<Rightarrow> None
         | Some e \<Rightarrow> Some (take e ip @ replicate (16 - length ip) 0 @ drop e ip))
      else if el \<noteq> None then None
      else Some ip)"

definition parseIPv6 :: "string \<Rightarrow> addr option" where
  "parseIPv6 s =
     (let pos = IndexByte s CHR ''%'';
          zone = (if 0 \<le> pos then drop (nat pos + 1) s else []);
          t = (if 0 \<le> pos then take (nat pos) s else s)
      in if 0 \<le> pos \<and> zone = [] then None
         else
           let lead = HasPrefix t ''::''; rest = (if lead then drop 2 t else t)
           in if lead \<and> rest = [] then Some (V6 0 zone)
              else (case ipv6_loop (if lead then Some 0 else None) [] rest of
                  None \<Rightarrow> None
                | Some (left, ip, el) \<Rightarrow>
                    map_option (\<lambda>bs. V6 (word_of_int (be_value bs)) zone) (ipv6_finish left ip el)))"

definition ParseAddr :: "string \<Rightarrow> addr option" where
  "ParseAddr s =
     (case dropWhile (\<lambda>c. c \<notin> {CHR ''.'', CHR '':'', CHR ''%''}) s of
        [] \<Rightarrow> None
      | c # _ \<Rightarrow>
          if c = CHR ''.'' then parseIPv4 s
          else if c = CHR '':'' then parseIPv6 s
          else None)"

text \<open>\<open>net.ParseIP\<close> refuses a zone; \<open>To4\<close> is non-nil for IPv4 and v4-mapped addresses.\<close>

definition ParseIP :: "string \<Rightarrow> addr option" where
  "ParseIP s = (case ParseAddr s of Some a \<Rightarrow> if has_zone a then None else Some a | None \<Rightarrow> None)"

definition To4_some :: "addr option \<Rightarrow> bool" where
  "To4_some a = (case a of Some (V4 _) \<Rightarrow> True | Some (V6 w z) \<Rightarrow> Is4In6 (V6 w z) | _ \<Rightarrow> False)"

section \<open>Prefixes\<close>

text \<open>\<open>pfx_bits\<close> is what \<open>Bits\<close> returns: \<open>- 1\<close> for an invalid prefix.\<close>

record prefix =
  pfx_addr :: addr
  pfx_bits :: int

definition no_prefix :: prefix where
  "no_prefix = \<lparr>pfx_addr = NoAddr, pfx_bits = - 1\<rparr>"

definition PrefixFrom :: "addr \<Rightarrow> int \<Rightarrow> prefix" where
  "PrefixFrom a bits =
     \<lparr>pfx_addr = WithZone [] a,
      pfx_bits = (if a \<noteq> NoAddr \<and> 0 \<le> bits \<and> bits \<le> BitLen a then bits else - 1)\<rparr>"

definition high_mask :: "nat \<Rightarrow> nat \<Rightarrow> 'a::len word" where
  "high_mask len bits = NOT (mask (len - bits))"

definition Masked :: "prefix \<Rightarrow> prefix" where
  "Masked p =
     (if pfx_bits p < 0 then no_prefix
      else case pfx_addr p of
        NoAddr \<Rightarrow> no_prefix
      | V4 w \<Rightarrow> if 32 < pfx_bits p then no_prefix
                else PrefixFrom (V4 (w AND high_mask 32 (nat (pfx_bits p)))) (pfx_bits p)
      | V6 w z \<Rightarrow> if 128 < pfx_bits p then no_prefix
                  else PrefixFrom (V6 (w AND high_mask 128 (nat (pfx_bits p))) z) (pfx_bits p))"

definition Contains :: "prefix \<Rightarrow> addr \<Rightarrow> bool" where
  "Contains p a =
     (if pfx_bits p < 0 \<or> has_zone a then False
      else case (pfx_addr p, a) of
        (V4 v, V4 w) \<Rightarrow> drop_bit (32 - nat (pfx_bits p)) (w XOR v) = 0
      | (V6 v _, V6 w _) \<Rightarrow> (w XOR v) AND high_mask 128 (nat (pfx_bits p)) = 0
      | _ \<Rightarrow> False)"

definition ParsePrefix :: "string \<Rightarrow> prefix option" where
  "ParsePrefix s =
     (if CHR ''/'' \<notin> set s then None
      else
        let bs = rev (takeWhile (\<lambda>c. c \<noteq> CHR ''/'') (rev s));
            as = take (length s - length bs - 1) s
        in case ParseAddr as of
             None \<Rightarrow> None
           | Some a \<Rightarrow>
               if has_zone a then None
               else if 1 < length bs \<and> (ord (hd bs) < 49 \<or> 57 < ord (hd bs)) then None
               else (case Atoi bs of
                   None \<Rightarrow> None
                 | Some n \<Rightarrow> if n < 0 \<or> BitLen a < n then None else Some (PrefixFrom a n)))"

section \<open>Hardware addresses\<close>

text \<open>
  \<open>xtoi2 s e\<close>: two hexadecimal digits; a third byte, if there is one, must be \<open>e\<close>.
\<close>

definition xtoi2 :: "string \<Rightarrow> char \<Rightarrow> int option" where
  "xtoi2 s e =
     (if 2 < length s \<and> s ! 2 \<noteq> e then None
      else if 2 \<le> length s \<and> is_hex (s ! 0) \<and> is_hex (s ! 1) then Some (hex_value (take 2 s))
      else None)"

definition all_some :: "'a option list \<Rightarrow> 'a list option" where
  "all_some xs = (if list_all (\<lambda>x. x \<noteq> None) xs then Some (map the xs) else None)"

definition ParseMAC :: "string \<Rightarrow> bytes option" where
  "ParseMAC s =
     (if length s < 14 then None
      else if s ! 2 = CHR '':'' \<or> s ! 2 = CHR ''-'' then
        (let n = (length s + 1) div 3
         in if (length s + 1) mod 3 \<noteq> 0 \<or> n \<notin> {6, 8, 20} then None
            else map_option (map word_of_int)
              (all_some (map (\<lambda>i. xtoi2 (drop (3 * i) s) (s ! 2)) [0..<n])))
      else if s ! 4 = CHR ''.'' then
        (let n = 2 * (length s + 1) div 5
         in if (length s + 1) mod 5 \<noteq> 0 \<or> n \<notin> {6, 8, 20} then None
            else map_option (map word_of_int)
              (all_some (concat (map (\<lambda>i. [xtoi2 (take 2 (drop (5 * i) s)) CHR 0x00,
                                          xtoi2 (drop (5 * i + 2) s) (s ! 4)]) [0..<n div 2]))))
      else None)"

definition hex2 :: "u8 \<Rightarrow> string" where
  "hex2 b = [digit_char (uint b div 16), digit_char (uint b mod 16)]"

definition mac_String :: "bytes \<Rightarrow> string" where
  "mac_String m = Join (map hex2 m) '':''"

section \<open>Facts about numbers\<close>

lemma ord_char_of_int:
  "0 \<le> i \<Longrightarrow> i < 256 \<Longrightarrow> ord (char_of i) = i"
  by simp

lemma ord_digit_char:
  "0 \<le> d \<Longrightarrow> d < 36 \<Longrightarrow> ord (digit_char d) = (if d < 10 then 48 + d else 87 + d)"
  unfolding digit_char_def by (rule ord_char_of_int) (auto split: if_splits)

lemma to_base_chars:
  assumes "0 \<le> n" and "2 \<le> b" and "c \<in> set (to_base b n)"
  shows "\<exists>d. 0 \<le> d \<and> d < b \<and> c = digit_char d"
  using assms
proof (induction b n rule: to_base.induct)
  case (1 b n)
  show ?case
  proof (cases "n < b")
    case True
    with 1 show ?thesis by (auto simp: to_base.simps [of b n])
  next
    case False
    with "1.prems" consider "c \<in> set (to_base b (n div b))" | "c = digit_char (n mod b)"
      by (auto simp: to_base.simps [of b n])
    then show ?thesis
    proof cases
      case 1
      with False "1.IH" "1.prems" show ?thesis by (simp add: pos_imp_zdiv_nonneg_iff)
    next
      case 2
      with "1.prems" show ?thesis by (intro exI [of _ "n mod b"]) simp
    qed
  qed
qed

lemma to_base_Nil [simp]: "to_base b n \<noteq> []"
  by (subst to_base.simps) simp

lemma hd_to_base: "0 \<le> n \<Longrightarrow> 2 \<le> b \<Longrightarrow> hd (to_base b n) = digit_char 0 \<Longrightarrow> b \<le> 36 \<Longrightarrow> n = 0"
proof (induction b n rule: to_base.induct)
  case (1 b n)
  show ?case
  proof (cases "n < b")
    case True
    with 1 have "digit_char n = digit_char 0" by (simp add: to_base.simps [of b n])
    then have "ord (digit_char n) = ord (digit_char 0)" by simp
    with True 1 show ?thesis by (simp add: ord_digit_char split: if_splits)
  next
    case False
    with 1 have "n div b = 0" by (simp add: to_base.simps [of b n] pos_imp_zdiv_nonneg_iff)
    moreover have "0 < n div b" using False 1 by (simp add: pos_imp_zdiv_pos_iff)
    ultimately show ?thesis by simp
  qed
qed

lemma dec_value_append: "dec_value (s @ [c]) = dec_value s * 10 + (ord c - 48)"
  by (simp add: dec_value_def)

lemma dec_value_to_base: "0 \<le> n \<Longrightarrow> dec_value (to_base 10 n) = n"
proof (induction "10::int" n rule: to_base.induct)
  case (1 n)
  show ?case
  proof (cases "n < 10")
    case True
    with 1 show ?thesis by (simp add: to_base.simps [of 10 n] dec_value_def ord_digit_char)
  next
    case False
    have "dec_value (to_base 10 n) = dec_value (to_base 10 (n div 10)) * 10 + n mod 10"
      using False by (simp add: to_base.simps [of 10 n] dec_value_append ord_digit_char)
    with False 1 show ?thesis by simp
  qed
qed

lemma decimal_digits: "0 \<le> n \<Longrightarrow> c \<in> set (to_base 10 n) \<Longrightarrow> is_digit c"
  using to_base_chars [of n 10 c] ord_digit_char
  by (fastforce simp: is_digit_def)

lemma octet_to_base:
  assumes "0 \<le> n" and "n < 256"
  shows "octet (to_base 10 n) = Some n"
proof -
  have zero: "digit_char 0 = CHR ''0''" by (simp add: digit_char_def char_of_def)
  have "hd (to_base 10 n) \<noteq> CHR ''0'' \<or> length (to_base 10 n) = 1"
    using assms hd_to_base [of n 10] by (cases "n = 0") (auto simp: zero to_base.simps [of 10 0])
  with assms show ?thesis
    by (simp add: octet_def dec_value_to_base list_all_iff decimal_digits)
qed

lemma Split_Join:
  assumes "xs \<noteq> []" and "\<And>x. x \<in> set xs \<Longrightarrow> c \<notin> set x"
  shows "Split c (Join xs [c]) = xs"
  using assms
proof (induction xs "[c]" rule: Join.induct)
  case 1
  then show ?case by simp
next
  case (2 x)
  then show ?case by (simp add: Split_no_sep)
next
  case (3 x y xs)
  then show ?case by (simp add: Split_append_sep)
qed

lemma be_bytes_range: "b \<in> set (be_bytes k n) \<Longrightarrow> 0 \<le> b \<and> b < 256"
  by (induction k arbitrary: n) auto

lemma length_be_bytes [simp]: "length (be_bytes k n) = k"
  by (induction k arbitrary: n) auto

lemma be_value_append: "be_value (bs @ [b]) = be_value bs * 256 + b"
  by (simp add: be_value_def)

lemma be_value_be_bytes: "be_value (be_bytes k n) = n mod 256 ^ k"
proof (induction k arbitrary: n)
  case 0
  then show ?case by (simp add: be_value_def)
next
  case (Suc k)
  have "n mod 256 ^ Suc k = 256 * (n div 256 mod 256 ^ k) + n mod 256"
    by (simp add: zmod_zmult2_eq)
  with Suc show ?case by (simp add: be_value_append)
qed

section \<open>Facts about addresses\<close>

lemma string4_chars: "c \<in> set (string4 w) \<Longrightarrow> is_digit c \<or> c = CHR ''.''"
proof -
  have "c \<in> set (Join xs ''.'') \<Longrightarrow> c = CHR ''.'' \<or> (\<exists>x \<in> set xs. c \<in> set x)" for xs :: "string list"
    by (induction xs "''.''" rule: Join.induct) auto
  then show "c \<in> set (string4 w) \<Longrightarrow> is_digit c \<or> c = CHR ''.''"
    using decimal_digits be_bytes_range by (fastforce simp: string4_def)
qed

lemma ipv4_fields_string4: "ipv4_fields (string4 w) = Some (be_bytes 4 (uint w))"
proof -
  let ?bs = "be_bytes 4 (uint w)"
  have dot: "\<not> is_digit CHR ''.''" by (simp add: is_digit_def)
  have "CHR ''.'' \<notin> set (to_base 10 b)" if "b \<in> set ?bs" for b
    using be_bytes_range [OF that] decimal_digits dot by blast
  moreover have "?bs \<noteq> []" by (simp add: numeral_eq_Suc)
  ultimately have "Split CHR ''.'' (string4 w) = map (to_base 10) ?bs"
    unfolding string4_def by (intro Split_Join) auto
  moreover have "map octet (map (to_base 10) ?bs) = map Some ?bs"
    using be_bytes_range by (auto simp: octet_to_base)
  ultimately show ?thesis
    by (simp add: ipv4_fields_def list_all_iff comp_def map_idI)
qed

lemma dropWhile_string4:
  "\<exists>r. dropWhile (\<lambda>c. c \<notin> {CHR ''.'', CHR '':'', CHR ''%''}) (string4 w) = CHR ''.'' # r"
proof -
  have "CHR ''.'' \<in> set (string4 w)"
    by (simp add: string4_def numeral_eq_Suc)
  then have "dropWhile (\<lambda>c. c \<notin> {CHR ''.'', CHR '':'', CHR ''%''}) (string4 w) \<noteq> []"
    by (auto simp: dropWhile_eq_Nil_conv)
  then obtain c r where cr: "dropWhile (\<lambda>c. c \<notin> {CHR ''.'', CHR '':'', CHR ''%''}) (string4 w) = c # r"
    by (cases "dropWhile (\<lambda>c. c \<notin> {CHR ''.'', CHR '':'', CHR ''%''}) (string4 w)") auto
  then have "c \<in> {CHR ''.'', CHR '':'', CHR ''%''}"
    by (metis (mono_tags, lifting) dropWhile_eq_Cons_conv)
  moreover have "c \<in> set (string4 w)"
    using cr by (metis list.set_intros(1) set_dropWhileD)
  ultimately have "c = CHR ''.''"
    using string4_chars [of c w] by (auto simp: is_digit_def)
  with cr show ?thesis by simp
qed

lemma ParseAddr_string4: "ParseAddr (string4 w) = Some (V4 w)"
proof -
  have "be_value (be_bytes 4 (uint w)) = uint w"
    using uint_lt2p [of w] by (simp add: be_value_be_bytes)
  moreover obtain r where "dropWhile (\<lambda>c. c \<notin> {CHR ''.'', CHR '':'', CHR ''%''}) (string4 w) = CHR ''.'' # r"
    using dropWhile_string4 by blast
  ultimately show ?thesis
    unfolding ParseAddr_def by (simp add: parseIPv4_def ipv4_fields_string4)
qed

lemma Unmap_V4 [simp]: "Unmap (V4 w) = V4 w"
  by (simp add: Unmap_def)

lemma Unmap_NoAddr [simp]: "Unmap NoAddr = NoAddr"
  by (simp add: Unmap_def)

lemma Is4In6_V4 [simp]: "\<not> Is4In6 (V4 w)" "\<not> Is4In6 NoAddr"
  by (simp_all add: Is4In6_def)

lemma not_4In6_Unmap [simp]: "\<not> Is4In6 (Unmap a)"
  by (cases a) (auto simp: Unmap_def)

lemma Unmap_id: "\<not> Is4In6 a \<Longrightarrow> Unmap a = a"
  by (cases a) (auto simp: Unmap_def)

lemma WithZone_V4 [simp]: "WithZone z (V4 w) = V4 w" "WithZone z (V6 v y) = V6 v z"
  "WithZone z NoAddr = NoAddr"
  by (simp_all add: WithZone_def)

lemma Is4In6_WithZone [simp]: "Is4In6 (WithZone z a) = Is4In6 a"
  by (cases a) (simp_all add: Is4In6_def)

lemma no_zone_WithZone [simp]: "\<not> has_zone (WithZone [] a)"
  by (cases a) (simp_all add: has_zone_def)

lemma WithZone_id: "\<not> has_zone a \<Longrightarrow> WithZone [] a = a"
  by (cases a) (simp_all add: has_zone_def)

lemma length_AsSlice:
  "length (AsSlice a) = (case a of NoAddr \<Rightarrow> 0 | V4 _ \<Rightarrow> 4 | V6 _ _ \<Rightarrow> 16)"
  by (simp add: AsSlice_def split: addr.splits)

lemma be_bytes_inject:
  assumes "map (word_of_int :: int \<Rightarrow> u8) (be_bytes k m) = map word_of_int (be_bytes k n)"
    and "0 \<le> m" "m < 256 ^ k" "0 \<le> n" "n < 256 ^ k"
  shows "m = n"
proof -
  have "be_bytes k m = map uint (map (word_of_int :: int \<Rightarrow> u8) (be_bytes k m))" for m
    using be_bytes_range [of _ k m]
    by (simp add: map_idI uint_word_of_int)
  then have "be_bytes k m = be_bytes k n" using assms(1) by metis
  then have "be_value (be_bytes k m) = be_value (be_bytes k n)" by simp
  with assms show ?thesis by (simp add: be_value_be_bytes)
qed

text \<open>Two addresses without zones are equal when their bytes are.\<close>

lemma AsSlice_inject:
  assumes "AsSlice a = AsSlice b" and "\<not> has_zone a" and "\<not> has_zone b"
  shows "a = b"
proof -
  have len: "length (AsSlice a) = length (AsSlice b)" using assms(1) by simp
  show ?thesis
  proof (cases a)
    case NoAddr
    with len show ?thesis by (cases b) (simp_all add: length_AsSlice)
  next
    case (V4 v)
    with len obtain w where b: "b = V4 w" by (cases b) (simp_all add: length_AsSlice)
    have "uint v = uint w"
      using assms(1) uint_lt2p [of v] uint_lt2p [of w] be_bytes_inject [of 4 "uint v" "uint w"]
      by (simp add: V4 b AsSlice_def)
    then have "v = w" by (rule word_uint_eqI)
    then show ?thesis by (simp add: V4 b)
  next
    case (V6 v z)
    with len obtain w y where b: "b = V6 w y" by (cases b) (simp_all add: length_AsSlice)
    have "uint v = uint w"
      using assms(1) uint_lt2p [of v] uint_lt2p [of w] be_bytes_inject [of 16 "uint v" "uint w"]
      by (simp add: V6 b AsSlice_def)
    then have "v = w" by (rule word_uint_eqI)
    with assms(2,3) show ?thesis by (simp add: V6 b has_zone_def)
  qed
qed

section \<open>What an address is printed with\<close>

lemma alnum_digit_char: "0 \<le> d \<Longrightarrow> d < 36 \<Longrightarrow> is_alnum (digit_char d)"
  using ord_digit_char [of d] by (auto simp: is_alnum_def is_digit_def is_lower_def split: if_splits)

lemma alnum_to_base: "0 \<le> n \<Longrightarrow> 2 \<le> b \<Longrightarrow> b \<le> 36 \<Longrightarrow> c \<in> set (to_base b n) \<Longrightarrow> is_alnum c"
  using to_base_chars [of n b c] alnum_digit_char by fastforce

lemma groups_nonneg: "(\<And>b. b \<in> set bs \<Longrightarrow> (0::int) \<le> b) \<Longrightarrow> g \<in> set (groups bs) \<Longrightarrow> 0 \<le> g"
  by (induction bs rule: groups.induct) auto

lemma Join_chars: "c \<in> set (Join xs sep) \<Longrightarrow> c \<in> set sep \<or> (\<exists>x \<in> set xs. c \<in> set x)"
  by (induction xs sep rule: Join.induct) auto

lemma string6_chars:
  assumes "c \<in> set (string6 w)"
  shows "is_alnum c \<or> c = CHR '':''"
proof -
  let ?gs = "groups (be_bytes 16 (uint w))"
  have g: "is_alnum c" if "x \<in> to_base 16 ` set ?gs" and "c \<in> set x" for x
    using that groups_nonneg [of "be_bytes 16 (uint w)"] be_bytes_range [of _ 16 "uint w"]
      alnum_to_base [of _ 16] by force
  have "c = CHR '':'' \<or> (\<exists>x \<in> to_base 16 ` set ?gs. c \<in> set x)"
    using assms Join_chars [of c _ "'':''"]
    by (fastforce simp: string6_def Let_def split: prod.splits if_splits
      dest: in_set_takeD in_set_dropD)
  with g show ?thesis by blast
qed

lemma addr_String_chars:
  assumes "a \<noteq> NoAddr" and "\<not> has_zone a" and "c \<in> set (addr_String a)"
  shows "is_alnum c \<or> c = CHR '':'' \<or> c = CHR ''.''"
  using assms string4_chars string6_chars
  by (cases a) (auto simp: addr_String_def zone_suffix_def has_zone_def is_alnum_def is_lower_def
    split: if_splits)

lemma mac_String_chars: "c \<in> set (mac_String m) \<Longrightarrow> is_alnum c \<or> c = CHR '':''"
proof -
  have "is_alnum c" if "c \<in> set (hex2 b)" for b
    using that uint_lt2p [of b] by (auto simp: hex2_def pos_imp_zdiv_nonneg_iff intro!: alnum_digit_char)
  then show "c \<in> set (mac_String m) \<Longrightarrow> is_alnum c \<or> c = CHR '':''"
    unfolding mac_String_def by (fastforce dest: Join_chars)
qed

end
