(* ===== verification/Addresses.thy ===== *)
theory Addresses
  imports Netip
begin

text \<open>
  The text of an address read back: \<open>ParseAddr\<close> after \<open>addr_String\<close>, for IPv6 addresses through the
  hexadecimal groups and the ellipsis that stands for the longest run of zeros.
\<close>

section \<open>Hexadecimal groups\<close>

lemma hex_val_digit_char: "0 \<le> d \<Longrightarrow> d < 16 \<Longrightarrow> hex_val (digit_char d) = Some d"
  by (simp add: hex_val_def ord_digit_char is_digit_def)

lemma hex_value_append: "hex_value (s @ [c]) = hex_value s * 16 + the (hex_val c)"
  by (simp add: hex_value_def)

lemma hex_value_to_base: "0 \<le> n \<Longrightarrow> hex_value (to_base 16 n) = n"
proof (induction "16::int" n rule: to_base.induct)
  case (1 n)
  show ?case
  proof (cases "n < 16")
    case True
    with 1 show ?thesis by (simp add: to_base.simps [of 16 n] hex_value_def hex_val_digit_char)
  next
    case False
    have "hex_value (to_base 16 n) = hex_value (to_base 16 (n div 16)) * 16 + n mod 16"
      using False by (simp add: to_base.simps [of 16 n] hex_value_append hex_val_digit_char)
    with False 1 show ?thesis by simp
  qed
qed

lemma is_hex_to_base: "0 \<le> n \<Longrightarrow> c \<in> set (to_base 16 n) \<Longrightarrow> is_hex c"
  using to_base_chars [of n 16 c] hex_val_digit_char by (fastforce simp: is_hex_def)

lemma not_hex [simp]: "\<not> is_hex CHR '':''" "\<not> is_hex CHR ''.''" "\<not> is_hex CHR ''%''"
  by (simp_all add: is_hex_def hex_val_def is_digit_def)

lemma length_to_base: "0 \<le> n \<Longrightarrow> n < 16 ^ Suc k \<Longrightarrow> length (to_base 16 n) \<le> Suc k"
proof (induction k arbitrary: n)
  case 0
  then show ?case by (simp add: to_base.simps [of 16 n])
next
  case (Suc k)
  show ?case
  proof (cases "n < 16")
    case True
    then show ?thesis by (simp add: to_base.simps [of 16 n])
  next
    case False
    then have "length (to_base 16 (n div 16)) \<le> Suc k" using Suc by (intro Suc.IH) (auto simp: pos_imp_zdiv_nonneg_iff)
    with False show ?thesis by (simp add: to_base.simps [of 16 n])
  qed
qed

lemma takeWhile_group:
  assumes "0 \<le> g" and "r = [] \<or> \<not> is_hex (hd r)"
  shows "takeWhile is_hex (to_base 16 g @ r) = to_base 16 g" and "dropWhile is_hex (to_base 16 g @ r) = r"
proof -
  have r: "takeWhile is_hex r = []" "dropWhile is_hex r = r" using assms(2) by (cases r; simp)+
  have h: "\<forall>c \<in> set (to_base 16 g). is_hex c" using is_hex_to_base [OF assms(1)] by blast
  then show "takeWhile is_hex (to_base 16 g @ r) = to_base 16 g" using r by (simp add: takeWhile_append2)
  from h show "dropWhile is_hex (to_base 16 g @ r) = r" using r by (simp add: dropWhile_append2)
qed

definition hex_group :: "int \<Rightarrow> bool" where
  "hex_group g \<longleftrightarrow> 0 \<le> g \<and> g < 65536"

definition ungroup :: "int list \<Rightarrow> int list" where
  "ungroup gs = concat (map (\<lambda>g. [g div 256, g mod 256]) gs)"

lemma ungroup_simps [simp]:
  "ungroup [] = []" "ungroup (g # gs) = g div 256 # g mod 256 # ungroup gs" "ungroup (gs @ hs) = ungroup gs @ ungroup hs"
  by (simp_all add: ungroup_def)

lemma length_ungroup [simp]: "length (ungroup gs) = 2 * length gs"
  by (induction gs) auto

lemma ungroup_zeros: "ungroup (replicate n 0) = replicate (2 * n) 0"
  by (induction n) auto

text \<open>One group of the text, and what follows it.\<close>

lemma loop_group:
  assumes "hex_group g" and "length ip < 16" and "r = [] \<or> hd r = CHR '':''"
  shows "ipv6_loop el ip (to_base 16 g @ r) =
    (let ip' = ip @ ungroup [g] in
     if r = [] then Some ([], ip', el)
     else if tl r = [] then None
     else if hd (tl r) = CHR '':'' then
       (if el \<noteq> None then None
        else if tl (tl r) = [] then Some ([], ip', Some (length ip'))
        else ipv6_loop (Some (length ip')) ip' (tl (tl r)))
     else ipv6_loop el ip' (tl r))"
proof -
  have g: "0 \<le> g" "g < 16 ^ Suc 3" using assms(1) by (simp_all add: hex_group_def)
  have "r = [] \<or> \<not> is_hex (hd r)" using assms(3) by auto
  note tw = takeWhile_group [OF g(1) this]
  have "length (to_base 16 g) \<le> 4" using length_to_base [OF g] by simp
  with tw g assms(2,3) show ?thesis
    by (subst ipv6_loop.simps) (auto simp: Let_def hex_value_to_base)
qed

abbreviation "hex_groups gs \<equiv> Join (map (to_base 16) gs) '':''"

lemma hex_groups_hd:
  assumes "gs \<noteq> []" and "list_all hex_group gs"
  shows "hex_groups gs \<noteq> [] \<and> is_hex (hd (hex_groups gs @ r))"
proof -
  obtain g gs' where gs: "gs = g # gs'" using assms(1) by (cases gs) auto
  have "is_hex (hd (to_base 16 g @ r))" for r
    using assms(2) is_hex_to_base [of g "hd (to_base 16 g)"] by (simp add: gs hex_group_def)
  then show ?thesis by (cases gs') (simp_all add: gs)
qed

lemma loop_groups:
  assumes "gs \<noteq> []" and "list_all hex_group gs" and "length ip + 2 * length gs \<le> 16"
  shows "ipv6_loop el ip (hex_groups gs) = Some ([], ip @ ungroup gs, el)"
  using assms
proof (induction gs arbitrary: ip)
  case Nil
  then show ?case by simp
next
  case (Cons g gs)
  show ?case
  proof (cases "gs = []")
    case True
    with Cons.prems loop_group [of g ip "[]" el] show ?thesis by simp
  next
    case False
    let ?r = "hex_groups gs"
    have h: "?r \<noteq> []" "is_hex (hd ?r)" using hex_groups_hd [OF False, of "[]"] Cons.prems by simp_all
    then have c: "hd ?r \<noteq> CHR '':''" by auto
    have "hex_groups (g # gs) = to_base 16 g @ CHR '':'' # ?r" using False by (cases gs) simp_all
    then have "ipv6_loop el ip (hex_groups (g # gs)) = ipv6_loop el (ip @ ungroup [g]) ?r"
      using loop_group [of g ip "CHR '':'' # ?r" el] Cons.prems h c by (simp add: Let_def)
    with Cons.IH [of "ip @ ungroup [g]"] False Cons.prems show ?thesis by simp
  qed
qed

lemma loop_groups_ellipsis:
  assumes "gs \<noteq> []" and "list_all hex_group gs" and "length ip + 2 * length gs < 16"
  shows "ipv6_loop None ip (hex_groups gs @ ''::'' @ rest) =
    (let ip' = ip @ ungroup gs in
     if rest = [] then Some ([], ip', Some (length ip')) else ipv6_loop (Some (length ip')) ip' rest)"
  using assms
proof (induction gs arbitrary: ip)
  case Nil
  then show ?case by simp
next
  case (Cons g gs)
  show ?case
  proof (cases "gs = []")
    case True
    with Cons.prems loop_group [of g ip "''::'' @ rest" None] show ?thesis by (simp add: Let_def)
  next
    case False
    let ?r = "hex_groups gs @ ''::'' @ rest"
    have h: "?r \<noteq> []" "is_hex (hd ?r)" using hex_groups_hd [OF False, of "[]"] Cons.prems by simp_all
    then have c: "hd ?r \<noteq> CHR '':''" by auto
    have "hex_groups (g # gs) @ ''::'' @ rest = to_base 16 g @ CHR '':'' # ?r" using False by (cases gs) simp_all
    then have "ipv6_loop None ip (hex_groups (g # gs) @ ''::'' @ rest) = ipv6_loop None (ip @ ungroup [g]) ?r"
      using loop_group [of g ip "CHR '':'' # ?r" None] Cons.prems h c by (simp add: Let_def)
    with Cons.IH [of "ip @ ungroup [g]"] False Cons.prems show ?thesis by (simp add: Let_def)
  qed
qed

section \<open>The run of zeros\<close>

definition run_ok :: "int list \<Rightarrow> nat \<times> nat \<Rightarrow> bool" where
  "run_ok gs se \<longleftrightarrow> (case se of (s, e) \<Rightarrow>
     (s = 255 \<and> e = 255) \<or> (s + 2 \<le> e \<and> e \<le> length gs \<and> (\<forall>i. s \<le> i \<and> i < e \<longrightarrow> gs ! i = 0)))"

lemma takeWhile_zeros:
  assumes "k < length (takeWhile (\<lambda>g. g = 0) (drop i gs))"
  shows "i + k < length gs \<and> gs ! (i + k) = (0 :: int)"
proof -
  have k: "k < length (drop i gs)" using assms length_takeWhile_le by (metis order_less_le_trans)
  have "takeWhile (\<lambda>g. g = 0) (drop i gs) ! k = 0" using assms by (metis (mono_tags) nth_mem set_takeWhileD)
  then have "drop i gs ! k = 0" using takeWhile_nth [OF assms] by simp
  with k show ?thesis by (simp add: nth_append)
qed

lemma zero_run_ok: "run_ok gs (zero_run gs)"
proof -
  let ?f = "\<lambda>(s, e) i. let l = length (takeWhile (\<lambda>g. g = 0) (drop i gs)) in if 2 \<le> l \<and> e - s < l then (i, i + l) else (s, e)"
  have step: "run_ok gs (?f se i)" if "run_ok gs se" for se i
  proof (cases "?f se i = se")
    case True
    with that show ?thesis by simp
  next
    case False
    define l where "l = length (takeWhile (\<lambda>g. g = 0) (drop i gs))"
    with False have "?f se i = (i, i + l)" "2 \<le> l" by (auto simp: Let_def split: prod.splits if_splits)
    moreover have "gs ! j = 0" if "i \<le> j" "j < i + l" for j
      using takeWhile_zeros [of "j - i" i gs] that by (simp add: l_def)
    moreover have "i + l \<le> length gs"
    proof -
      have "l - 1 < length (takeWhile (\<lambda>g. g = 0) (drop i gs))" using \<open>2 \<le> l\<close> by (simp add: l_def)
      from takeWhile_zeros [OF this] show ?thesis by linarith
    qed
    ultimately show ?thesis by (simp add: run_ok_def)
  qed
  have "run_ok gs (foldl ?f se is)" if "run_ok gs se" for se "is"
    using that by (induction "is" arbitrary: se) (simp_all only: foldl.simps step)
  then show ?thesis unfolding zero_run_def by (simp add: run_ok_def)
qed

section \<open>Groups and bytes\<close>

lemma groups_bytes:
  assumes "even (length bs)" and "\<forall>b \<in> set bs. 0 \<le> b \<and> b < (256 :: int)"
  shows "ungroup (groups bs) = bs \<and> list_all hex_group (groups bs) \<and> 2 * length (groups bs) = length bs"
  using assms by (induction bs rule: groups.induct) (auto simp: hex_group_def)

definition groups_of :: "128 word \<Rightarrow> int list" where
  "groups_of w = groups (be_bytes 16 (uint w))"

lemma groups_of [simp]:
  "ungroup (groups_of w) = be_bytes 16 (uint w)" "list_all hex_group (groups_of w)" "length (groups_of w) = 8"
  using groups_bytes [of "be_bytes 16 (uint w)"] be_bytes_range [of _ 16 "uint w"] by (auto simp: groups_of_def)

lemma groups_of_Nil [simp]: "groups_of w \<noteq> []"
  using groups_of(3) [of w] by fastforce

lemma word_of_groups [simp]: "word_of_int (be_value (be_bytes 16 (uint w))) = (w :: 128 word)"
  using uint_lt2p [of w] by (simp add: be_value_be_bytes)

lemma split_run:
  assumes "s + 2 \<le> e" and "e \<le> length gs" and "\<forall>i. s \<le> i \<and> i < e \<longrightarrow> gs ! i = 0"
  shows "gs = take s gs @ replicate (e - s) 0 @ drop e gs"
proof -
  have "take (e - s) (drop s gs) = replicate (e - s) 0"
    using assms by (intro nth_equalityI) auto
  then have "drop s gs = replicate (e - s) 0 @ drop e gs"
    using append_take_drop_id [of "e - s" "drop s gs"] assms(1) by simp
  then show ?thesis by (metis append_take_drop_id)
qed

section \<open>The text of an address\<close>

lemma string6_groups:
  "string6 w =
     (let (s, e) = zero_run (groups_of w)
      in if s = 255 then hex_groups (groups_of w)
         else hex_groups (take s (groups_of w)) @ ''::'' @ hex_groups (drop e (groups_of w)))"
  unfolding string6_def groups_of_def Let_def by (rule refl)

lemma finish_groups:
  assumes "s + 2 \<le> e" and "e \<le> 8" and "\<forall>i. s \<le> i \<and> i < e \<longrightarrow> groups_of w ! i = 0"
  shows "ipv6_finish [] (ungroup (take s (groups_of w)) @ ungroup (drop e (groups_of w))) (Some (2 * s))
    = Some (be_bytes 16 (uint w))"
proof -
  let ?gs = "groups_of w"
  have "be_bytes 16 (uint w) = ungroup (take s ?gs @ replicate (e - s) 0 @ drop e ?gs)"
    using split_run [of s e ?gs] assms by simp
  then have eq: "ungroup (take s ?gs) @ replicate (2 * (e - s)) 0 @ ungroup (drop e ?gs) = be_bytes 16 (uint w)"
    by (simp only: ungroup_simps ungroup_zeros append_assoc)
  have l: "length (ungroup (take s ?gs)) = 2 * s" "length (ungroup (drop e ?gs)) = 16 - 2 * e" using assms(1,2) by simp_all
  have n: "16 - (2 * s + (16 - 2 * e)) = 2 * (e - s)" using assms(1,2) by linarith
  have lt: "2 * s + (16 - 2 * e) < 16" using assms(1,2) by linarith
  show ?thesis unfolding ipv6_finish_def by (simp only: length_append l n lt) (use eq assms(1,2) in simp)
qed

lemma be_value_zeros: "be_value (replicate n 0) = 0"
  by (induction n) (simp_all add: be_value_def)

lemma parseIPv6_plain:
  assumes "CHR ''%'' \<notin> set t" and "\<not> HasPrefix t ''::''" and "ipv6_loop None [] t = Some (left, ip, el)"
    and "ipv6_finish left ip el = Some bs"
  shows "parseIPv6 t = Some (V6 (word_of_int (be_value bs)) [])"
  using assms by (simp add: parseIPv6_def IndexByte_def)

lemma parseIPv6_lead:
  assumes "CHR ''%'' \<notin> set r" and "r \<noteq> []" and "ipv6_loop (Some 0) [] r = Some (left, ip, el)"
    and "ipv6_finish left ip el = Some bs"
  shows "parseIPv6 (''::'' @ r) = Some (V6 (word_of_int (be_value bs)) [])"
  using assms by (simp add: parseIPv6_def IndexByte_def HasPrefix_def)

lemma parseIPv6_zero: "parseIPv6 ''::'' = Some (V6 0 [])"
  by (simp add: parseIPv6_def IndexByte_def HasPrefix_def)

lemma not_lead: "gs \<noteq> [] \<Longrightarrow> list_all hex_group gs \<Longrightarrow> \<not> HasPrefix (hex_groups gs @ r) ''::''"
  using hex_groups_hd [of gs r] by (cases "hex_groups gs @ r") (auto simp: HasPrefix_def)

lemma parseIPv6_string6: "parseIPv6 (string6 w) = Some (V6 w [])"
proof -
  let ?gs = "groups_of w"
  obtain s e where se: "zero_run ?gs = (s, e)" by fastforce
  have pos: "CHR ''%'' \<notin> set (string6 w)"
    using string6_chars [of "CHR ''%''" w] by (auto simp: is_alnum_def is_digit_def is_lower_def is_upper_def)
  consider (whole) "s = 255" | (run) "s + 2 \<le> e" "e \<le> 8" "\<forall>i. s \<le> i \<and> i < e \<longrightarrow> ?gs ! i = 0" "s \<noteq> 255"
    using zero_run_ok [of ?gs] by (auto simp: se run_ok_def)
  then show ?thesis
  proof cases
    case whole
    then have t: "string6 w = hex_groups ?gs" by (simp add: string6_groups se)
    have ne: "?gs \<noteq> []" by simp
    have "\<not> HasPrefix (hex_groups ?gs) ''::''" using not_lead [OF ne, of "[]"] by simp
    moreover have "ipv6_loop None [] (hex_groups ?gs) = Some ([], be_bytes 16 (uint w), None)"
      using loop_groups [OF ne, of "[]" None] by simp
    moreover have "ipv6_finish [] (be_bytes 16 (uint w)) None = Some (be_bytes 16 (uint w))"
      unfolding ipv6_finish_def by simp
    ultimately show ?thesis
      using parseIPv6_plain [of "string6 w"] pos unfolding t word_of_groups by (metis word_of_groups)
  next
    case run
    let ?a = "take s ?gs" and ?b = "drop e ?gs"
    have t: "string6 w = hex_groups ?a @ ''::'' @ hex_groups ?b" using run by (simp add: string6_groups se)
    have b: "list_all hex_group ?b" "list_all hex_group ?a"
      using groups_of(2) [of w] by (auto simp: list_all_iff dest: in_set_dropD in_set_takeD)
    have la: "length ?a = s" "length ?b = 8 - e" using run by simp_all
    note fin = finish_groups [OF run(1-3)]
    show ?thesis
    proof (cases "s = 0")
      case True
      then have t0: "string6 w = ''::'' @ hex_groups ?b" by (simp add: t)
      show ?thesis
      proof (cases "?b = []")
        case True
        then have "e = 8" using la run by simp
        then have "?gs = replicate 8 0" using run(3) \<open>s = 0\<close> by (intro nth_equalityI) simp_all
        then have "be_bytes 16 (uint w) = replicate 16 0" using groups_of(1) [of w] by (simp only: ungroup_zeros) simp
        then have "w = 0" using word_of_groups [of w] by (simp only: be_value_zeros of_int_0)
        with t0 True parseIPv6_zero show ?thesis by simp
      next
        case False
        have "ipv6_loop (Some 0) [] (hex_groups ?b) = Some ([], ungroup ?b, Some 0)"
          using loop_groups [OF False b(1), of "[]" "Some 0"] la run by simp
        moreover have "hex_groups ?b \<noteq> []" using hex_groups_hd [OF False b(1)] by simp
        moreover have "ipv6_finish [] (ungroup ?b) (Some 0) = Some (be_bytes 16 (uint w))" using fin \<open>s = 0\<close> by simp
        moreover have "CHR ''%'' \<notin> set (hex_groups ?b)" using pos unfolding t0 by simp
        ultimately show ?thesis using parseIPv6_lead [of "hex_groups ?b"] unfolding t0 by (metis word_of_groups)
      qed
    next
      case False
      then have ne: "?a \<noteq> []" using la by auto
      have lead: "\<not> HasPrefix (string6 w) ''::''" unfolding t by (rule not_lead [OF ne b(2)])
      have "ipv6_loop None [] (string6 w) = Some ([], ungroup ?a @ ungroup ?b, Some (2 * s))"
      proof (cases "?b = []")
        case True
        with loop_groups_ellipsis [OF ne b(2), of "[]" "[]"] la run show ?thesis by (simp add: t Let_def)
      next
        case False
        with loop_groups_ellipsis [OF ne b(2), of "[]" "hex_groups ?b"] la run hex_groups_hd [OF False b(1)]
          loop_groups [OF False b(1), of "ungroup ?a" "Some (2 * s)"]
        show ?thesis by (simp add: t Let_def)
      qed
      from parseIPv6_plain [OF pos lead this fin] show ?thesis by (simp only: word_of_groups)
    qed
  qed
qed

lemma ParseAddr_string6: "ParseAddr (string6 w) = Some (V6 w [])"
proof -
  let ?P = "\<lambda>c. c \<notin> {CHR ''.'', CHR '':'', CHR ''%''}"
  have "CHR '':'' \<in> set (string6 w)"
  proof -
    have "2 \<le> length (groups_of w)" by simp
    then obtain x y xs where "groups_of w = x # y # xs" by (metis Suc_le_length_iff numeral_2_eq_2)
    then have "CHR '':'' \<in> set (hex_groups (groups_of w))" by simp
    then show ?thesis unfolding string6_groups Let_def by (cases "zero_run (groups_of w)") simp
  qed
  then obtain c r where cr: "dropWhile ?P (string6 w) = c # r"
    by (metis (no_types, lifting) dropWhile_eq_Nil_conv insert_iff neq_Nil_conv)
  then have "\<not> ?P c" and "c \<in> set (string6 w)"
    by (metis (mono_tags, lifting) dropWhile_eq_Cons_conv, metis list.set_intros(1) set_dropWhileD)
  then have "c = CHR '':''"
    using string6_chars [of c w] by (auto simp: is_alnum_def is_digit_def is_lower_def is_upper_def)
  with cr show ?thesis unfolding ParseAddr_def by (simp add: parseIPv6_string6)
qed

text \<open>An address that is neither v4-mapped nor zoned is read back from its text.\<close>

lemma ParseAddr_String:
  assumes "a \<noteq> NoAddr" and "\<not> Is4In6 a" and "\<not> has_zone a"
  shows "ParseAddr (addr_String a) = Some a"
  using assms by (cases a) (simp_all add: addr_String_def ParseAddr_string4 ParseAddr_string6 has_zone_def zone_suffix_def)

end
