(* ===== verification/Table.thy ===== *)
theory Table
  imports Prelude
begin

text \<open>
  The interfaces of the keyed stores of the plugin. Three components keep a table that is
  bounded by dropping an arbitrary entry: a shard of the answer cache (\<open>store.go\<close>), the
  discovery table (\<open>discoverer.store\<close>) and the remembered address-to-MAC bindings
  (\<open>deviceDB.refresh\<close>). What their clients rely on is stated once here: a lookup never
  returns anything but the value inserted last under exactly that key, and the table never
  grows past its bound. The first argument of an insertion chooses the entry that is
  dropped, which the code leaves to the iteration order of a Go map.
\<close>

section \<open>Tables\<close>

locale table =
  fixes lookup :: "'t \<Rightarrow> 'k \<Rightarrow> 'v option"
    and insert_at :: "nat \<Rightarrow> 'k \<Rightarrow> 'v \<Rightarrow> 't \<Rightarrow> 't"
    and ok :: "'t \<Rightarrow> bool"
  assumes ok_insert: "ok t \<Longrightarrow> ok (insert_at c k x t)"
    and lookup_insert_same: "ok t \<Longrightarrow> lookup (insert_at c k x t) k = Some x"
    and lookup_insert_other:
      "ok t \<Longrightarrow> k' \<noteq> k \<Longrightarrow> lookup (insert_at c k x t) k' \<in> {None, lookup t k'}"
begin

text \<open>A history of insertions, oldest first.\<close>

fun inserts :: "(nat \<times> 'k \<times> 'v) list \<Rightarrow> 't \<Rightarrow> 't" where
  "inserts [] t = t"
| "inserts ((c, k, x) # h) t = inserts h (insert_at c k x t)"

text \<open>The value inserted last under a key, if any.\<close>

fun last_under :: "'k \<Rightarrow> (nat \<times> 'k \<times> 'v) list \<Rightarrow> 'v option \<Rightarrow> 'v option" where
  "last_under k [] x = x"
| "last_under k ((c, k', y) # h) x = last_under k h (if k' = k then Some y else x)"

lemma ok_inserts: "ok t \<Longrightarrow> ok (inserts h t)"
  by (induction h arbitrary: t) (auto simp: ok_insert)

lemma lookup_insertD:
  assumes "ok t" and "lookup (insert_at c k x t) k' = Some y"
  shows "(k' = k \<and> y = x) \<or> (k' \<noteq> k \<and> lookup t k' = Some y)"
  using assms lookup_insert_same [of t c k x] lookup_insert_other [of t k' k c x]
  by (cases "k' = k") auto

lemma lookup_inserts:
  assumes "ok t" and "lookup t k \<in> {None, x}"
  shows "lookup (inserts h t) k \<in> {None, last_under k h x}"
  using assms
proof (induction h arbitrary: t x)
  case Nil
  then show ?case by simp
next
  case (Cons e h)
  obtain c k' y where e: "e = (c, k', y)" by (cases e)
  have "lookup (insert_at c k' y t) k \<in> {None, if k' = k then Some y else x}"
    using Cons.prems lookup_insert_same [of t c k' y] lookup_insert_other [of t k k' c y] by auto
  with Cons.prems(1) Cons.IH [of "insert_at c k' y t"] show ?case
    by (simp add: e ok_insert)
qed

lemma last_under_in: "last_under k h x = Some y \<Longrightarrow> x = Some y \<or> (\<exists>c. (c, k, y) \<in> set h)"
  by (induction k h x rule: last_under.induct) (auto split: if_splits)

lemma lookup_inserts_from:
  assumes "ok t" and "lookup (inserts h t) k = Some y"
  shows "lookup t k = Some y \<or> (\<exists>c. (c, k, y) \<in> set h)"
  using lookup_inserts [of t k "lookup t k" h] assms last_under_in [of k h "lookup t k" y] by auto

end

section \<open>Bounded tables\<close>

locale bounded_table = table lookup insert_at ok
  for lookup :: "'t \<Rightarrow> 'k \<Rightarrow> 'v option"
    and insert_at :: "nat \<Rightarrow> 'k \<Rightarrow> 'v \<Rightarrow> 't \<Rightarrow> 't"
    and ok :: "'t \<Rightarrow> bool" +
  fixes entries_of :: "'t \<Rightarrow> nat"
    and bound :: "'t \<Rightarrow> nat"
  assumes bound_insert: "bound (insert_at c k x t) = bound t"
    and bound_pos: "ok t \<Longrightarrow> 0 < bound t"
    and size_insert_old:
      "ok t \<Longrightarrow> lookup t k \<noteq> None \<Longrightarrow> entries_of (insert_at c k x t) = entries_of t"
    and size_insert_room:
      "ok t \<Longrightarrow> lookup t k = None \<Longrightarrow> entries_of (insert_at c k x t) \<le> Suc (entries_of t)"
    and size_insert_full:
      "ok t \<Longrightarrow> lookup t k = None \<Longrightarrow> entries_of t = bound t \<Longrightarrow>
        entries_of (insert_at c k x t) \<le> entries_of t"
begin

lemma size_insert: 
  assumes "ok t" and "entries_of t \<le> bound t"
  shows "entries_of (insert_at c k x t) \<le> bound t"
proof (cases "lookup t k = None")
  case True
  with assms size_insert_room [of t k c x] size_insert_full [of t k c x] show ?thesis
    by (cases "entries_of t = bound t") auto
next
  case False
  with assms size_insert_old [of t k c x] show ?thesis by simp
qed

lemma bound_inserts [simp]: "bound (inserts h t) = bound t"
  by (induction h t rule: inserts.induct) (simp_all add: bound_insert)

lemma size_inserts:
  "ok t \<Longrightarrow> entries_of t \<le> bound t \<Longrightarrow> entries_of (inserts h t) \<le> bound t"
proof (induction h t rule: inserts.induct)
  case (1 t)
  then show ?case by simp
next
  case (2 c k x h t)
  then show ?case using size_insert [of t c k x] by (simp add: bound_insert ok_insert)
qed

end

section \<open>Insertion with eviction on a Go map\<close>

text \<open>
  The guard and the eviction loop that the three insertions share: an arbitrary entry goes
  when the key is new and the map has reached its limit.
\<close>

definition make_room :: "nat \<Rightarrow> bool \<Rightarrow> ('k, 'v) gomap \<Rightarrow> ('k, 'v) gomap" where
  "make_room c full m = (if full then evict c m else m)"

lemma wf_make_room [simp]: "wf_map m \<Longrightarrow> wf_map (make_room c b m)"
  by (simp add: make_room_def)

lemma map_of_make_room: "map_of (make_room c b m) k \<in> {None, map_of m k}"
  using map_of_evict [of c m k] by (simp add: make_room_def)

lemma map_of_make_room_None: "map_of m k = None \<Longrightarrow> map_of (make_room c b m) k = None"
  using map_of_make_room [of c b m k] by auto

lemma set_make_room: "set (make_room c b m) \<subseteq> set m"
  using set_evict [of c m] by (simp add: make_room_def)

lemma length_make_room_le: "length (make_room c b m) \<le> length m"
  by (simp add: make_room_def length_evict_le)

lemma length_make_room_full:
  "wf_map m \<Longrightarrow> m \<noteq> [] \<Longrightarrow> Suc (length (make_room c True m)) = length m"
  by (simp add: make_room_def length_evict)

lemma update_make_room_other:
  "k' \<noteq> k \<Longrightarrow> map_of (AList.update k x (make_room c b m)) k' \<in> {None, map_of m k'}"
  using map_of_make_room [of c b m k'] by simp

lemma length_update_make_room_new:
  assumes "wf_map m" and "map_of m k = None" and "b \<longleftrightarrow> n \<le> length m" and "0 < n"
  shows "length (AList.update k x (make_room c b m)) = (if b then length m else Suc (length m))"
proof (cases b)
  case True
  with assms have "m \<noteq> []" by auto
  with True assms show ?thesis
    by (simp add: length_update_new map_of_make_room_None length_make_room_full)
next
  case False
  with assms show ?thesis by (simp add: make_room_def length_update_new)
qed

end
