(* ===== verification/Store.thy ===== *)
theory Store
  imports Table
begin

unbundle bit_operations_syntax

text \<open>
  \<open>store.go\<close>: the bounded store of 256 independently locked shards that holds the cache
  entries. The entry type is a parameter. The sequential operations come first, then the
  two atomic steps that \<open>Add\<close> really takes (the locked update of the shard, and the
  increment of the counter after the lock is released) as a step relation, for the
  relation between the counter and the entries that are really held.
\<close>

section \<open>Data and operations\<close>

definition shards :: int where
  "shards = 256"

record 'e storeShard =
  sh_items :: "(u64, 'e) gomap"
  sh_size :: int

record 'e store =
  st_shards :: "'e storeShard list"
  st_n :: int

definition newStore :: "int \<Rightarrow> 'e store" where
  "newStore capacity =
     (let size = go_div (wrap64 (wrap64 (capacity + shards) - 1)) shards;
          size = (if size < 1 then 1 else size)
      in \<lparr>st_shards = replicate (nat shards) \<lparr>sh_items = [], sh_size = size\<rparr>, st_n = 0\<rparr>)"

definition capacity :: "'e store \<Rightarrow> int" where
  "capacity s = wrap64 (sh_size (st_shards s ! 0) * shards)"

definition shard_index :: "u64 \<Rightarrow> nat" where
  "shard_index key = unat (key AND word_of_int (shards - 1))"

definition shard :: "'e store \<Rightarrow> u64 \<Rightarrow> 'e storeShard" where
  "shard s key = st_shards s ! shard_index key"

definition Get :: "'e store \<Rightarrow> u64 \<Rightarrow> 'e option" where
  "Get s key = map_of (sh_items (shard s key)) key"

text \<open>The section of \<open>Add\<close> under the shard's lock; the flag is the code's \<open>replacing\<close>.\<close>

definition shard_add :: "nat \<Rightarrow> u64 \<Rightarrow> 'e \<Rightarrow> 'e storeShard \<Rightarrow> 'e storeShard \<times> bool" where
  "shard_add c key e sh =
     (let replacing = (map_of (sh_items sh) key \<noteq> None);
          full = (\<not> replacing \<and> sh_size sh \<le> int (length (sh_items sh)));
          dropped = (full \<and> sh_items sh \<noteq> [])
      in (sh\<lparr>sh_items := AList.update key e (make_room c full (sh_items sh))\<rparr>,
          replacing \<or> dropped))"

definition Add_locked :: "nat \<Rightarrow> u64 \<Rightarrow> 'e \<Rightarrow> 'e store \<Rightarrow> 'e store \<times> bool" where
  "Add_locked c key e s =
     (let (sh, replacing) = shard_add c key e (shard s key)
      in (s\<lparr>st_shards := (st_shards s)[shard_index key := sh]\<rparr>, replacing))"

text \<open>The atomic increment after the unlock.\<close>

definition Add_count :: "bool \<Rightarrow> 'e store \<Rightarrow> 'e store" where
  "Add_count replacing s = (if \<not> replacing then s\<lparr>st_n := wrap64 (st_n s + 1)\<rparr> else s)"

definition Add :: "nat \<Rightarrow> u64 \<Rightarrow> 'e \<Rightarrow> 'e store \<Rightarrow> 'e store" where
  "Add c key e s = (let (s', replacing) = Add_locked c key e s in Add_count replacing s')"

definition Len :: "'e store \<Rightarrow> int" where
  "Len s = st_n s"

section \<open>Shards\<close>

definition shard_ok :: "'e storeShard \<Rightarrow> bool" where
  "shard_ok sh \<longleftrightarrow> wf_map (sh_items sh) \<and> 0 < sh_size sh
     \<and> int (length (sh_items sh)) \<le> sh_size sh"

definition shard_insert :: "nat \<Rightarrow> u64 \<Rightarrow> 'e \<Rightarrow> 'e storeShard \<Rightarrow> 'e storeShard" where
  "shard_insert c key e sh = fst (shard_add c key e sh)"

lemma shard_add_size [simp]: "sh_size (fst (shard_add c key e sh)) = sh_size sh"
  by (simp add: shard_add_def Let_def)

lemma shard_add_items:
  "sh_items (fst (shard_add c key e sh)) =
     AList.update key e (make_room c (map_of (sh_items sh) key = None
       \<and> sh_size sh \<le> int (length (sh_items sh))) (sh_items sh))"
  by (simp add: shard_add_def Let_def)

text \<open>
  The number of entries grows by one exactly when the operation reports that it neither
  replaced nor dropped one.
\<close>

lemma shard_add_length:
  assumes "shard_ok sh"
  shows "int (length (sh_items (fst (shard_add c key e sh)))) =
    int (length (sh_items sh)) + (if snd (shard_add c key e sh) then 0 else 1)"
proof (cases "map_of (sh_items sh) key = None")
  case True
  with assms have "length (AList.update key e (make_room c (sh_size sh \<le> int (length (sh_items sh)))
      (sh_items sh))) =
    (if sh_size sh \<le> int (length (sh_items sh)) then length (sh_items sh)
     else Suc (length (sh_items sh)))"
    by (intro length_update_make_room_new [where n = "nat (sh_size sh)"])
      (auto simp: shard_ok_def nat_le_iff)
  moreover have "sh_size sh \<le> int (length (sh_items sh)) \<Longrightarrow> sh_items sh \<noteq> []"
    using assms by (auto simp: shard_ok_def)
  ultimately show ?thesis using True by (auto simp: shard_add_def Let_def)
next
  case False
  then show ?thesis by (simp add: shard_add_def Let_def length_update_old make_room_def)
qed

lemma shard_add_full_replacing:
  "shard_ok sh \<Longrightarrow> int (length (sh_items sh)) = sh_size sh \<Longrightarrow> snd (shard_add c key e sh)"
  by (auto simp: shard_add_def Let_def shard_ok_def)

lemma shard_add_ok:
  assumes "shard_ok sh"
  shows "shard_ok (fst (shard_add c key e sh))"
proof -
  have "int (length (sh_items (fst (shard_add c key e sh)))) \<le> sh_size sh"
  proof (cases "int (length (sh_items sh)) = sh_size sh")
    case True
    with assms show ?thesis
      using shard_add_length [of sh c key e] shard_add_full_replacing [of sh c key e] by simp
  next
    case False
    with assms have "int (length (sh_items sh)) < sh_size sh" by (simp add: shard_ok_def)
    with assms show ?thesis using shard_add_length [of sh c key e] by (simp split: if_splits)
  qed
  with assms show ?thesis by (simp add: shard_ok_def) (simp add: shard_add_items)
qed

interpretation shard_table: bounded_table
  "\<lambda>sh key. map_of (sh_items sh) key" shard_insert shard_ok
  "\<lambda>sh. length (sh_items sh)" "\<lambda>sh. nat (sh_size sh)"
proof (unfold_locales, goal_cases)
  case (1 t c k x)
  then show ?case by (simp add: shard_insert_def shard_add_ok)
next
  case (2 t c k x)
  then show ?case by (simp add: shard_insert_def shard_add_items)
next
  case (3 t k' k c x)
  then show ?case using update_make_room_other [of k' k x c] by (simp add: shard_insert_def shard_add_items)
next
  case (4 c k x t)
  then show ?case by (simp add: shard_insert_def)
next
  case (5 t)
  then show ?case by (simp add: shard_ok_def)
next
  case (6 t k c x)
  then show ?case by (auto simp: shard_insert_def shard_add_items length_update_old make_room_def)
next
  case (7 t k c x)
  then show ?case using shard_add_length [of t c k x] by (auto simp: shard_insert_def split: if_splits)
next
  case (8 t k c x)
  then show ?case
    using shard_add_length [of t c k x] shard_add_full_replacing [of t c k x]
    by (auto simp: shard_insert_def shard_ok_def split: if_splits)
qed

section \<open>The whole store\<close>

lemma shard_index_less: "shard_index key < 256"
proof -
  have "unat (key AND 255) \<le> unat (255 :: u64)"
    by (rule word_and_le1 [THEN word_le_nat_alt [THEN iffD1]])
  then show ?thesis by (simp add: shard_index_def shards_def)
qed

definition total :: "'e store \<Rightarrow> int" where
  "total s = (\<Sum>sh\<leftarrow>st_shards s. int (length (sh_items sh)))"

definition uniform :: "'e store \<Rightarrow> bool" where
  "uniform s \<longleftrightarrow> (\<exists>z. int64 (z * shards) \<and> (\<forall>sh \<in> set (st_shards s). sh_size sh = z))"

text \<open>The shape every store has: 256 shards of one size, none over it, keys in their shard.\<close>

definition store_ok :: "'e store \<Rightarrow> bool" where
  "store_ok s \<longleftrightarrow> length (st_shards s) = 256 \<and> uniform s
     \<and> (\<forall>i < 256. shard_ok (st_shards s ! i)
          \<and> (\<forall>k \<in> fst ` set (sh_items (st_shards s ! i)). shard_index k = i))"

definition counted :: "'e store \<Rightarrow> bool" where
  "counted s \<longleftrightarrow> st_n s = total s"

lemma store_ok_shard: "store_ok s \<Longrightarrow> shard_ok (shard s key)"
  using shard_index_less by (simp add: store_ok_def shard_def)

lemma Add_locked_simps [simp]:
  "st_shards (fst (Add_locked c key e s)) =
     (st_shards s)[shard_index key := shard_insert c key e (shard s key)]"
  "st_n (fst (Add_locked c key e s)) = st_n s"
  "snd (Add_locked c key e s) = snd (shard_add c key e (shard s key))"
  by (simp_all add: Add_locked_def shard_insert_def split: prod.splits)

lemma Add_count_shards [simp]: "st_shards (Add_count r s) = st_shards s"
  by (simp add: Add_count_def)

lemma Add_eq: "Add c key e s = Add_count (snd (Add_locked c key e s)) (fst (Add_locked c key e s))"
  unfolding Add_def by (cases "Add_locked c key e s") simp

lemma Add_shards:
  "st_shards (Add c key e s) = (st_shards s)[shard_index key := shard_insert c key e (shard s key)]"
  by (simp add: Add_eq)

lemma Add_n:
  "st_n (Add c key e s) =
     (if snd (shard_add c key e (shard s key)) then st_n s else wrap64 (st_n s + 1))"
  by (simp add: Add_eq Add_count_def)

lemma shard_Add:
  assumes "store_ok s"
  shows "shard (Add c key e s) k =
    (if shard_index k = shard_index key then shard_insert c key e (shard s key) else shard s k)"
  using assms shard_index_less by (simp add: shard_def Add_shards store_ok_def)

lemma items_shard_insert_keys:
  "fst ` set (sh_items (shard_insert c key e sh)) \<subseteq> insert key (fst ` set (sh_items sh))"
  using set_update_subset [of key e "make_room c b (sh_items sh)" for b] set_make_room
  by (fastforce simp: shard_insert_def shard_add_items)

lemma uniform_Add:
  assumes "store_ok s"
  shows "uniform (Add c key e s)"
proof -
  from assms obtain z where z: "int64 (z * shards)" "\<forall>sh \<in> set (st_shards s). sh_size sh = z"
    by (auto simp: store_ok_def uniform_def)
  have "shard s key \<in> set (st_shards s)"
    using assms shard_index_less [of key] by (simp add: shard_def store_ok_def)
  with z(2) have "sh_size (shard_insert c key e (shard s key)) = z"
    by (simp add: shard_insert_def)
  with z show ?thesis
    unfolding uniform_def Add_shards
    by (intro exI [of _ z]) (auto dest!: set_update_subset_insert [THEN subsetD])
qed

lemma store_ok_Add:
  assumes "store_ok s"
  shows "store_ok (Add c key e s)"
proof -
  have "shard_ok (st_shards (Add c key e s) ! i)
      \<and> (\<forall>k \<in> fst ` set (sh_items (st_shards (Add c key e s) ! i)). shard_index k = i)"
    if "i < 256" for i
  proof (cases "i = shard_index key")
    case True
    have old: "\<forall>k \<in> fst ` set (sh_items (shard s key)). shard_index k = shard_index key"
      using assms shard_index_less [of key] by (auto simp: store_ok_def shard_def)
    have "\<forall>k \<in> fst ` set (sh_items (shard_insert c key e (shard s key))). shard_index k = i"
      using items_shard_insert_keys [of c key e "shard s key"] old True by blast
    with True assms shard_index_less [of key] store_ok_shard [OF assms, of key]
    show ?thesis by (auto simp: Add_shards store_ok_def shard_table.ok_insert)
  next
    case False
    with assms that show ?thesis by (simp add: Add_shards store_ok_def)
  qed
  moreover have "length (st_shards (Add c key e s)) = 256"
    using assms by (simp add: Add_shards store_ok_def)
  ultimately show ?thesis using uniform_Add [OF assms] by (simp add: store_ok_def)
qed

lemma sum_list_update_int:
  fixes f :: "'a \<Rightarrow> int"
  shows "i < length xs \<Longrightarrow> sum_list (map f (xs[i := y])) = sum_list (map f xs) + f y - f (xs ! i)"
proof (induction xs arbitrary: i)
  case Nil
  then show ?case by simp
next
  case (Cons x xs)
  then show ?case by (cases i) simp_all
qed

lemma total_Add:
  assumes "store_ok s"
  shows "total (Add c key e s) =
    total s + (if snd (shard_add c key e (shard s key)) then 0 else 1)"
proof -
  have "shard_index key < length (st_shards s)"
    using assms shard_index_less by (simp add: store_ok_def)
  then have "total (Add c key e s) = total s
      + int (length (sh_items (shard_insert c key e (shard s key))))
      - int (length (sh_items (shard s key)))"
    by (simp add: total_def Add_shards sum_list_update_int shard_def)
  then show ?thesis
    using shard_add_length [OF store_ok_shard [OF assms], of c key e] by (simp add: shard_insert_def)
qed

lemma sum_list_le_const:
  fixes f :: "'a \<Rightarrow> int"
  shows "(\<And>x. x \<in> set xs \<Longrightarrow> f x \<le> z) \<Longrightarrow> sum_list (map f xs) \<le> int (length xs) * z"
  by (induction xs) (force simp: algebra_simps)+

lemma total_nonneg: "0 \<le> total s"
  unfolding total_def by (rule sum_list_nonneg) auto

lemma capacity_eq:
  assumes "store_ok s" and "sh \<in> set (st_shards s)"
  shows "capacity s = sh_size sh * 256"
proof -
  obtain z where z: "int64 (z * shards)" "\<forall>sh \<in> set (st_shards s). sh_size sh = z"
    using assms(1) by (auto simp: store_ok_def uniform_def)
  have "st_shards s ! 0 \<in> set (st_shards s)" using assms(1) by (simp add: store_ok_def)
  with z assms(2) show ?thesis by (simp add: capacity_def shards_def)
qed

lemma total_le_capacity:
  assumes "store_ok s"
  shows "total s \<le> capacity s"
proof -
  have "int (length (sh_items sh)) \<le> capacity s div 256" if "sh \<in> set (st_shards s)" for sh
  proof -
    from that obtain i where "i < 256" "sh = st_shards s ! i"
      using assms by (metis in_set_conv_nth store_ok_def)
    with assms have "int (length (sh_items sh)) \<le> sh_size sh" by (simp add: store_ok_def shard_ok_def)
    with capacity_eq [OF assms that] show ?thesis by simp
  qed
  then have "total s \<le> int (length (st_shards s)) * (capacity s div 256)"
    unfolding total_def by (intro sum_list_le_const) auto
  moreover have "int (length (st_shards s)) = 256" using assms by (simp add: store_ok_def)
  moreover have "256 * (capacity s div 256) \<le> capacity s" by (simp add: mult.commute)
  ultimately show ?thesis by simp
qed

lemma capacity_Add: "capacity (Add c key e s) = capacity s"
proof -
  have "sh_size (st_shards (Add c key e s) ! 0) = sh_size (st_shards s ! 0)"
    by (cases "shard_index key = 0"; cases "st_shards s")
      (auto simp: Add_shards shard_def shard_insert_def split: nat.splits)
  then show ?thesis by (simp add: capacity_def)
qed

lemma Get_Add_same: "store_ok s \<Longrightarrow> Get (Add c key e s) key = Some e"
  by (simp add: Get_def shard_Add shard_table.lookup_insert_same store_ok_shard)

lemma Get_Add_other:
  assumes "store_ok s" and "k \<noteq> key"
  shows "Get (Add c key e s) k \<in> {None, Get s k}"
  using assms shard_table.lookup_insert_other [OF store_ok_shard [OF assms(1), of key] assms(2)]
  by (auto simp: Get_def shard_Add) (metis shard_def)

lemma size_Add:
  assumes "store_ok s"
  shows "total (Add c key e s) \<le> total s + 1"
    and "Get s key \<noteq> None \<Longrightarrow> total (Add c key e s) = total s"
    and "total s = capacity s \<Longrightarrow> total (Add c key e s) \<le> total s"
proof -
  show "total (Add c key e s) \<le> total s + 1" by (simp add: total_Add [OF assms])
  show "total (Add c key e s) = total s" if "Get s key \<noteq> None"
    using that by (simp add: total_Add [OF assms] Get_def shard_add_def Let_def)
  show "total (Add c key e s) \<le> total s" if "total s = capacity s"
    using total_le_capacity [OF store_ok_Add [OF assms, of c key e]] that
    by (simp add: capacity_Add)
qed

lemma capacity_pos:
  assumes "store_ok s"
  shows "0 < capacity s"
proof -
  have "st_shards s ! 0 \<in> set (st_shards s)" and "shard_ok (st_shards s ! 0)"
    using assms by (simp_all add: store_ok_def)
  with capacity_eq [OF assms] show ?thesis by (simp add: shard_ok_def)
qed

interpretation store_table: bounded_table
  Get Add store_ok "\<lambda>s. nat (total s)" "\<lambda>s. nat (capacity s)"
proof (unfold_locales, goal_cases)
  case (1 t c k x)
  then show ?case by (rule store_ok_Add)
next
  case (2 t c k x)
  then show ?case by (rule Get_Add_same)
next
  case (3 t k' k c x)
  then show ?case by (rule Get_Add_other)
next
  case (4 c k x t)
  then show ?case by (simp add: capacity_Add)
next
  case (5 t)
  then show ?case using capacity_pos by auto
next
  case (6 t k c x)
  then show ?case using size_Add(2) by metis
next
  case (7 t k c x)
  then show ?case using size_Add(1) [of t c k x] total_nonneg [of t] by linarith
next
  case (8 t k c x)
  then have "total t = capacity t" using total_nonneg [of t] capacity_pos [of t] by linarith
  with 8 size_Add(3) [of t c k x] show ?case by simp
qed

section \<open>Creation\<close>

definition rounded :: "int \<Rightarrow> int" where
  "rounded c = (let size = go_div (wrap64 (wrap64 (c + shards) - 1)) shards
     in if size < 1 then 1 else size)"

lemma newStore_alt:
  "newStore c = \<lparr>st_shards = replicate 256 \<lparr>sh_items = [], sh_size = rounded c\<rparr>, st_n = 0\<rparr>"
  by (simp add: newStore_def rounded_def Let_def shards_def)

lemma rounded_pos: "0 < rounded c"
  by (auto simp: rounded_def Let_def)

lemma rounded_int64: "int64 (rounded c * shards)"
proof -
  let ?x = "wrap64 (wrap64 (c + shards) - 1)"
  have x: "int64 ?x" by (rule int64_wrap64)
  have "go_div ?x shards * 256 \<le> 2 ^ 63 - 1"
  proof (cases "0 \<le> ?x")
    case True
    then have "go_div ?x shards * 256 \<le> ?x" by (simp add: shards_def)
    with x show ?thesis by (simp add: int64_def)
  next
    case False
    then have "go_div ?x shards \<le> 0" by (simp add: go_div_neg shards_def)
    then show ?thesis by simp
  qed
  with rounded_pos [of c] show ?thesis
    by (auto simp: rounded_def Let_def int64_def shards_def)
qed

lemma store_ok_newStore: "store_ok (newStore c)"
  using rounded_int64 [of c] rounded_pos [of c]
  by (auto simp: newStore_alt store_ok_def uniform_def shard_ok_def)

lemma counted_newStore: "counted (newStore c)"
  by (simp add: counted_def newStore_alt total_def sum_list_replicate)

lemma capacity_newStore: "capacity (newStore c) = rounded c * 256"
  using rounded_int64 [of c] by (simp add: capacity_def newStore_alt shards_def)

lemma Len_newStore: "Len (newStore c) = 0"
  by (simp add: Len_def newStore_alt)

lemma Get_newStore: "Get (newStore c) k = None"
  using shard_index_less [of k] by (simp add: Get_def shard_def newStore_alt)

section \<open>Concurrent additions\<close>

text \<open>
  Any number of goroutines call \<open>Add\<close>. The state is the store and the number of
  increments that are still owed: calls that have released their shard's lock without
  having dropped or replaced an entry, and have not yet reached the counter.
\<close>

inductive add_step :: "'e store \<times> nat \<Rightarrow> 'e store \<times> nat \<Rightarrow> bool" where
  locked: "Add_locked c key e s = (s', replacing) \<Longrightarrow>
    add_step (s, owed) (s', if replacing then owed else Suc owed)"
| count: "add_step (s, Suc owed) (Add_count False s, owed)"

inductive_cases add_stepE: "add_step st st'"

inductive reachable :: "int \<Rightarrow> 'e store \<times> nat \<Rightarrow> bool" for c where
  start: "reachable c (newStore c, 0)"
| step: "reachable c st \<Longrightarrow> add_step st st' \<Longrightarrow> reachable c st'"

definition add_inv :: "int \<Rightarrow> 'e store \<times> nat \<Rightarrow> bool" where
  "add_inv c st \<longleftrightarrow> store_ok (fst st) \<and> capacity (fst st) = capacity (newStore c :: 'e store)
     \<and> st_n (fst st) + int (snd st) = total (fst st) \<and> 0 \<le> st_n (fst st)"

lemma Add_locked_inv:
  assumes "store_ok s"
  shows "store_ok (fst (Add_locked c key e s))"
    and "capacity (fst (Add_locked c key e s)) = capacity s"
    and "total (fst (Add_locked c key e s)) =
      total s + (if snd (Add_locked c key e s) then 0 else 1)"
proof -
  have sh: "st_shards (fst (Add_locked c key e s)) = st_shards (Add c key e s)"
    by (simp add: Add_shards)
  show "store_ok (fst (Add_locked c key e s))"
    using store_ok_Add [OF assms, of c key e] unfolding store_ok_def uniform_def sh .
  show "capacity (fst (Add_locked c key e s)) = capacity s"
    using capacity_Add [of c key e s] unfolding capacity_def sh .
  show "total (fst (Add_locked c key e s)) =
      total s + (if snd (Add_locked c key e s) then 0 else 1)"
    using total_Add [OF assms, of c key e] unfolding total_def sh Add_locked_simps(3) .
qed

lemma add_inv_start: "add_inv c (newStore c, 0)"
  using counted_newStore [of c] store_ok_newStore [of c]
  by (simp add: add_inv_def counted_def) (simp add: newStore_alt)

lemma total_int64: "store_ok s \<Longrightarrow> int64 (total s)"
  using total_le_capacity [of s] total_nonneg [of s] int64_wrap64 [of "sh_size (st_shards s ! 0) * shards"]
  by (simp add: capacity_def int64_def)

lemma add_inv_step:
  assumes "add_inv c st" and "add_step st st'"
  shows "add_inv c st'"
  using assms(2,1)
proof (induction rule: add_step.induct)
  case (locked k key e s s' replacing owed)
  then have eq: "s' = fst (Add_locked k key e s)" "replacing = snd (Add_locked k key e s)"
    by (metis fst_conv, metis snd_conv)
  from locked.prems have "store_ok s" by (simp add: add_inv_def)
  note [simp] = Add_locked_inv [OF this, of k key e]
  show ?case using locked.prems unfolding add_inv_def eq by simp
next
  case (count s owed)
  then have "store_ok s" and n: "st_n s + 1 \<le> total s" and "0 \<le> st_n s"
    by (simp_all add: add_inv_def)
  then have "wrap64 (st_n s + 1) = st_n s + 1"
    using total_int64 [of s] by (intro wrap64_id) (simp add: int64_def)
  with count show ?case
    by (simp add: add_inv_def Add_count_def store_ok_def uniform_def capacity_def total_def)
qed

lemma reachable_inv: "reachable c st \<Longrightarrow> add_inv c st"
proof (induction rule: reachable.induct)
  case start
  show ?case by (rule add_inv_start)
next
  case (step st st')
  then show ?case by (blast intro: add_inv_step)
qed

section \<open>Properties\<close>

text \<open>
  A store asked for a capacity holds at least that many entries and less than
  one entry per shard more, and never fewer than 256, as long as the capacity rounded up
  stays in the range of a Go \<open>int\<close>.
\<close>

theorem newStore_rounds_up:
  assumes "0 < c" and "c \<le> 2 ^ 63 - 256"
  shows "c \<le> capacity (newStore c :: 'e store) \<and> capacity (newStore c :: 'e store) < c + 256
    \<and> 256 \<le> capacity (newStore c :: 'e store) \<and> Len (newStore c :: 'e store) = 0"
proof -
  have "wrap64 (wrap64 (c + shards) - 1) = c + 255"
    using assms by (simp add: shards_def int64_def)
  with assms have "rounded c = (c + 255) div 256"
    by (simp add: rounded_def Let_def shards_def)
  moreover have "c \<le> (c + 255) div 256 * 256" and "(c + 255) div 256 * 256 < c + 256"
    by linarith+
  moreover have "1 \<le> (c + 255) div 256" using assms(1) by simp
  ultimately show ?thesis by (simp add: capacity_newStore Len_newStore)
qed

theorem newStore_rounds_up_witness:
  "1000 \<le> capacity (newStore 1000 :: nat store) \<and> capacity (newStore 1000 :: nat store) < 1256"
  using newStore_rounds_up [of 1000, where ?'e = nat] by simp

text \<open>
  Property C30. The 255 largest capacities that fit a Go \<open>int\<close> overflow in the rounding:
  the store comes out as the smallest one there is.
\<close>

theorem newStore_overflow:
  assumes "2 ^ 63 - 256 < c" and "c < 2 ^ 63"
  shows "capacity (newStore c) = 256"
proof -
  have "wrap64 (c + 255) = c + 255 - 2 ^ 64"
    using assms by (intro wrap64_high) simp_all
  then have "wrap64 (wrap64 (c + shards) - 1) = c + 255 - 2 ^ 64"
    by (simp add: shards_def add.commute)
  then have "go_div (wrap64 (wrap64 (c + shards) - 1)) shards \<le> 0"
    using assms by (simp add: go_div_neg shards_def)
  then show ?thesis by (simp add: capacity_newStore rounded_def Let_def)
qed

theorem newStore_overflow_witness: "capacity (newStore 9223372036854775807) = 256"
  by (rule newStore_overflow) simp_all

text \<open>
  After any history of additions to a new store, whatever the evictions, a
  lookup finds nothing or the value added last under exactly that key.
\<close>

theorem Get_last_added:
  "Get (store_table.inserts h (newStore c)) k \<in> {None, store_table.last_under k h None}"
  by (rule store_table.lookup_inserts) (simp_all add: store_ok_newStore Get_newStore)

text \<open>
  However the two halves of concurrent additions interleave, the entries held
  never exceed the capacity, the counter never runs ahead of them, it lags by exactly the
  calls that have not reached it yet, and so it is exact once they all have.
\<close>

theorem concurrent_Len:
  assumes "reachable c (s :: 'e store, owed)"
  shows "0 \<le> Len s \<and> Len s \<le> total s \<and> total s \<le> capacity (newStore c :: 'e store)
    \<and> Len s + int owed = total s"
  using reachable_inv [OF assms] total_le_capacity [of s]
  by (auto simp: add_inv_def Len_def)

theorem concurrent_Len_witness:
  "\<exists>s. reachable 1 (s :: nat store, 0) \<and> Len s = 1 \<and> total s = 1"
proof -
  let ?s = "fst (Add_locked 0 7 (42::nat) (newStore 1))"
  have r: "Add_locked 0 7 (42::nat) (newStore 1) = (?s, False)"
    by (simp add: prod_eq_iff) (simp add: shard_add_def shard_def newStore_alt Let_def
      shard_index_def shards_def rounded_def)
  from reachable.step [OF reachable.start add_step.locked [OF r]]
  have "reachable 1 (?s, Suc 0)" by simp
  from reachable.step [OF this add_step.count]
  have two: "reachable 1 (Add_count False ?s, 0)" .
  have "Len (Add_count False ?s) = 1"
    by (simp add: Len_def Add_count_def newStore_alt int64_def)
  with concurrent_Len [OF two] two show ?thesis by auto
qed

end
