(* ===== verification/Dns.thy ===== *)
theory Dns
  imports Prelude
begin

text \<open>
  The data of the DNS library and of CoreDNS that the plugin reads and writes: messages and
  resource records of \<open>github.com/miekg/dns\<close>, and a query as \<open>request.Request\<close> presents
  it. The accessors of \<open>request.Request\<close> are code outside this repository, so a query is
  the record of what they return; nothing is assumed about how the fields are related.
  The parts of a message the plugin only passes on are kept as opaque bytes.

  The second half is the interface between the handler and the answer cache.
\<close>

section \<open>Messages\<close>

text \<open>
  A resource record: its type and lifetime, the target when the record is a \<open>dns.PTR\<close>,
  and everything else.
\<close>

record rr =
  rr_type :: u16
  rr_ttl :: u32
  rr_ptr :: "string option"
  rr_rest :: bytes

record question =
  q_name :: string
  q_type :: u16
  q_class :: u16

record msg =
  m_id :: u16
  m_rcode :: int
  m_truncated :: bool
  m_cd :: bool
  m_question :: "question list"
  m_answer :: "rr list"
  m_ns :: "rr list"
  m_extra :: "rr list"
  m_flags :: bytes

definition TypePTR :: u16 where "TypePTR = 12"
definition TypeOPT :: u16 where "TypeOPT = 41"
definition RcodeSuccess :: int where "RcodeSuccess = 0"
definition RcodeFormatError :: int where "RcodeFormatError = 1"
definition RcodeServerFailure :: int where "RcodeServerFailure = 2"
definition RcodeNameError :: int where "RcodeNameError = 3"
definition RcodeRefused :: int where "RcodeRefused = 5"

lemmas dns_consts = TypePTR_def TypeOPT_def RcodeSuccess_def RcodeFormatError_def
  RcodeServerFailure_def RcodeNameError_def RcodeRefused_def

section \<open>Queries\<close>

record request =
  rq_req :: msg
  rq_ip :: string
  rq_local :: string
  rq_name :: string
  rq_qtype :: u16
  rq_qclass :: u16
  rq_do :: bool

text \<open>What must agree for one answer to serve two queries, beside the profile.\<close>

type_synonym identity = "string \<times> u16 \<times> u16 \<times> bool \<times> bool"

definition identity :: "request \<Rightarrow> identity" where
  "identity st = (rq_name st, rq_qtype st, rq_qclass st, rq_do st, m_cd (rq_req st))"

section \<open>What the handler expects of an answer cache\<close>

text \<open>
  \<open>lookup c now changed p st\<close> is the answer the cache has for a query under a profile, when
  the configuration of the profile last changed at \<open>changed\<close>; \<open>store_at v now p st m\<close>
  offers an answer to it, \<open>v\<close> choosing what is evicted; \<open>holds c p i m t\<close> says that an
  answer \<open>m\<close> for identity \<open>i\<close> under profile \<open>p\<close> was accepted at time \<open>t\<close> and is still
  there; \<open>served m m'\<close> says that \<open>m'\<close> is the stored answer \<open>m\<close> as it is handed out.
\<close>

locale answer_cache =
  fixes lookup :: "'c \<Rightarrow> time \<Rightarrow> time \<Rightarrow> string \<Rightarrow> request \<Rightarrow> msg option"
    and store_at :: "nat \<Rightarrow> time \<Rightarrow> string \<Rightarrow> request \<Rightarrow> msg \<Rightarrow> 'c \<Rightarrow> 'c"
    and ok :: "'c \<Rightarrow> bool"
    and holds :: "'c \<Rightarrow> string \<Rightarrow> identity \<Rightarrow> msg \<Rightarrow> time \<Rightarrow> bool"
    and served :: "request \<Rightarrow> msg \<Rightarrow> msg \<Rightarrow> bool"
  assumes ok_store: "ok c \<Longrightarrow> ok (store_at v now p st m c)"
    and lookup_holds: "ok c \<Longrightarrow> lookup c now changed p st = Some m' \<Longrightarrow>
      \<exists>m t. holds c p (identity st) m t \<and> \<not> t < changed \<and> served st m m'"
    and store_holds: "ok c \<Longrightarrow> holds (store_at v now p st m c) p' i m' t \<Longrightarrow>
      holds c p' i m' t \<or> (p' = p \<and> i = identity st \<and> m' = m \<and> t = now)"
begin

text \<open>A history of offered answers, oldest first.\<close>

fun offers :: "(nat \<times> time \<times> string \<times> request \<times> msg) list \<Rightarrow> 'c \<Rightarrow> 'c" where
  "offers [] c = c"
| "offers ((v, now, p, st, m) # h) c = offers h (store_at v now p st m c)"

definition offered :: "(nat \<times> time \<times> string \<times> request \<times> msg) list \<Rightarrow> string \<Rightarrow> identity \<Rightarrow> msg \<Rightarrow> time \<Rightarrow> bool" where
  "offered h p i m t \<longleftrightarrow> (\<exists>v st. (v, t, p, st, m) \<in> set h \<and> identity st = i)"

lemma ok_offers: "ok c \<Longrightarrow> ok (offers h c)"
  by (induction h c rule: offers.induct) (simp_all add: ok_store)

lemma holds_offers:
  "ok c \<Longrightarrow> holds (offers h c) p i m t \<Longrightarrow> holds c p i m t \<or> offered h p i m t"
proof (induction h c rule: offers.induct)
  case (1 c)
  then show ?case by simp
next
  case (2 v now q st m' h c)
  then have "holds (store_at v now q st m' c) p i m t \<or> offered h p i m t"
    by (simp add: ok_store)
  with 2 store_holds [of c v now q st m' p i m t] show ?case by (auto simp: offered_def)
qed

text \<open>
  Whatever is handed out was offered before for the same profile and identity, and not
  before the profile's configuration last changed.
\<close>

lemma lookup_offers:
  assumes "ok c" and "\<And>p i m t. \<not> holds c p i m t"
    and "lookup (offers h c) now changed p st = Some m'"
  shows "\<exists>m t. offered h p (identity st) m t \<and> \<not> t < changed \<and> served st m m'"
  using lookup_holds [OF ok_offers [OF assms(1)] assms(3)] holds_offers [OF assms(1)] assms(2)
  by blast

end

end
