(* ===== verification/MsgCache.thy ===== *)
theory MsgCache
  imports Store Dns
begin

text \<open>
  \<open>cache.go\<close>: the profile-aware answer cache over the sharded store. Three things come from
  outside the repository and are arguments: \<open>sum64\<close> (\<open>xxhash.Sum64\<close>), \<open>minimalTTL\<close>
  (\<open>dnsutil.MinimalTTL\<close> of \<open>response.Typify\<close>, at the current time) and the clock. The time
  at which a profile's configuration last changed comes from the DoH client and is the
  argument \<open>changed\<close>. Messages are values here, so the copies that \<open>put\<close> and \<open>get\<close> take
  are the values themselves.
\<close>

section \<open>Entries\<close>

record cacheEntry =
  ce_stored :: time
  ce_ttl :: duration
  ce_msg :: msg
  ce_profile :: string
  ce_qname :: string
  ce_qtype :: u16
  ce_qclass :: u16
  ce_do :: bool
  ce_cd :: bool

definition matches :: "cacheEntry \<Rightarrow> string \<Rightarrow> request \<Rightarrow> bool" where
  "matches e profile st \<longleftrightarrow>
     ce_profile e = profile \<and>
     ce_qname e = rq_name st \<and>
     ce_qtype e = rq_qtype st \<and>
     ce_qclass e = rq_qclass st \<and>
     ce_do e = rq_do st \<and>
     ce_cd e = m_cd (rq_req st)"

record msgCache =
  mc_c :: "cacheEntry store"
  mc_minTTL :: duration
  mc_maxTTL :: duration

definition defaultCacheCapacity :: int where
  "defaultCacheCapacity = 10000"

definition defaultCacheMinTTL :: duration where
  "defaultCacheMinTTL = 5 * second"

definition defaultCacheMaxTTL :: duration where
  "defaultCacheMaxTTL = 60 * minute"

definition newMsgCache :: "int \<Rightarrow> msgCache" where
  "newMsgCache cap =
     (let cap = (if cap \<le> 0 then defaultCacheCapacity else cap)
      in \<lparr>mc_c = newStore cap, mc_minTTL = defaultCacheMinTTL, mc_maxTTL = defaultCacheMaxTTL\<rparr>)"

section \<open>The key\<close>

definition AppendUint16 :: "bytes \<Rightarrow> u16 \<Rightarrow> bytes" where
  "AppendUint16 buf v = buf @ [ucast (drop_bit 8 v), ucast v]"

definition cacheKey_buf :: "string \<Rightarrow> request \<Rightarrow> bytes" where
  "cacheKey_buf profile st =
     (let buf = bytes_of profile @ [0] @ bytes_of (rq_name st);
          buf = AppendUint16 buf (rq_qtype st);
          buf = AppendUint16 buf (rq_qclass st);
          flags = (if rq_do st then 1 else 0) OR (if m_cd (rq_req st) then 2 else 0)
      in buf @ [flags])"

definition cacheKey :: "(bytes \<Rightarrow> u64) \<Rightarrow> string \<Rightarrow> request \<Rightarrow> u64" where
  "cacheKey sum64 profile st = sum64 (cacheKey_buf profile st)"

section \<open>Lookup and insertion\<close>

definition set_rr_ttl :: "u32 \<Rightarrow> rr \<Rightarrow> rr" where
  "set_rr_ttl ttl r = (if rr_type r = TypeOPT then r else r\<lparr>rr_ttl := ttl\<rparr>)"

definition setTTL :: "msg \<Rightarrow> u32 \<Rightarrow> msg" where
  "setTTL m ttl =
     m\<lparr>m_answer := map (set_rr_ttl ttl) (m_answer m),
       m_ns := map (set_rr_ttl ttl) (m_ns m),
       m_extra := map (set_rr_ttl ttl) (m_extra m)\<rparr>"

text \<open>
  The three ways \<open>get\<close> ends: nothing usable, an entry of another question under the same
  key (counted in \<open>cache_collisions_total\<close>), an answer.
\<close>

datatype cache_result = Miss | Collision | Hit msg

definition echo_question :: "request \<Rightarrow> msg \<Rightarrow> msg" where
  "echo_question st m =
     (case m_question (rq_req st) of [] \<Rightarrow> m | q # _ \<Rightarrow> m\<lparr>m_question := [q]\<rparr>)"

definition remaining_ttl :: "time \<Rightarrow> cacheEntry \<Rightarrow> duration" where
  "remaining_ttl now e = wrap64 (ce_ttl e - time_sub now (ce_stored e))"

definition seconds_up :: "duration \<Rightarrow> u32" where
  "seconds_up remaining = word_of_int (go_div (wrap64 (wrap64 (remaining + second) - 1)) second)"

definition cache_get ::
  "(bytes \<Rightarrow> u64) \<Rightarrow> time \<Rightarrow> time \<Rightarrow> string \<Rightarrow> request \<Rightarrow> msgCache \<Rightarrow> cache_result" where
  "cache_get sum64 now changed profile st mc =
     (if rq_qtype st = TypePTR then Miss
      else case Get (mc_c mc) (cacheKey sum64 profile st) of
        None \<Rightarrow> Miss
      | Some e \<Rightarrow>
          if \<not> matches e profile st then Collision
          else if ce_stored e < changed then Miss
          else
            let remaining = remaining_ttl now e in
            if remaining \<le> 0 then Miss
            else Hit (echo_question st (setTTL (ce_msg e) (seconds_up remaining))))"

definition cacheable :: "request \<Rightarrow> msg \<Rightarrow> bool" where
  "cacheable st m \<longleftrightarrow> \<not> (rq_qtype st = TypePTR \<or> m_truncated m)
     \<and> m_rcode m \<in> {RcodeSuccess, RcodeNameError}"

definition clamp_ttl :: "duration \<Rightarrow> duration \<Rightarrow> duration \<Rightarrow> duration" where
  "clamp_ttl lo hi ttl =
     (let ttl = (if ttl < lo then lo else ttl); ttl = (if hi < ttl then hi else ttl) in ttl)"

definition new_entry ::
  "(msg \<Rightarrow> time \<Rightarrow> duration) \<Rightarrow> time \<Rightarrow> string \<Rightarrow> request \<Rightarrow> msg \<Rightarrow> msgCache \<Rightarrow> cacheEntry" where
  "new_entry minimalTTL now profile st m mc =
     \<lparr>ce_stored = now,
      ce_ttl = clamp_ttl (mc_minTTL mc) (mc_maxTTL mc) (minimalTTL m now),
      ce_msg = m,
      ce_profile = profile,
      ce_qname = rq_name st,
      ce_qtype = rq_qtype st,
      ce_qclass = rq_qclass st,
      ce_do = rq_do st,
      ce_cd = m_cd (rq_req st)\<rparr>"

text \<open>\<open>v\<close> chooses the entry that a full shard drops.\<close>

definition cache_put ::
  "(bytes \<Rightarrow> u64) \<Rightarrow> (msg \<Rightarrow> time \<Rightarrow> duration) \<Rightarrow> nat \<Rightarrow> time \<Rightarrow> string \<Rightarrow> request \<Rightarrow> msg
     \<Rightarrow> msgCache \<Rightarrow> msgCache" where
  "cache_put sum64 minimalTTL v now profile st m mc =
     (if \<not> cacheable st m then mc
      else mc\<lparr>mc_c := Add v (cacheKey sum64 profile st)
                        (new_entry minimalTTL now profile st m mc) (mc_c mc)\<rparr>)"

section \<open>Well-formed caches\<close>

definition entry_ok :: "msgCache \<Rightarrow> cacheEntry \<Rightarrow> bool" where
  "entry_ok mc e \<longleftrightarrow> mc_minTTL mc \<le> ce_ttl e \<and> ce_ttl e \<le> mc_maxTTL mc
     \<and> ce_qtype e \<noteq> TypePTR \<and> \<not> m_truncated (ce_msg e)
     \<and> m_rcode (ce_msg e) \<in> {RcodeSuccess, RcodeNameError}"

text \<open>The configuration parser guarantees the bounds on the two lifetimes.\<close>

definition cache_ok :: "msgCache \<Rightarrow> bool" where
  "cache_ok mc \<longleftrightarrow> store_ok (mc_c mc) \<and> 0 \<le> mc_minTTL mc \<and> mc_minTTL mc \<le> mc_maxTTL mc
     \<and> int64 (mc_maxTTL mc) \<and> (\<forall>k e. Get (mc_c mc) k = Some e \<longrightarrow> entry_ok mc e)"

definition entry_identity :: "cacheEntry \<Rightarrow> identity" where
  "entry_identity e = (ce_qname e, ce_qtype e, ce_qclass e, ce_do e, ce_cd e)"

definition held :: "msgCache \<Rightarrow> string \<Rightarrow> identity \<Rightarrow> msg \<Rightarrow> time \<Rightarrow> bool" where
  "held mc p i m t \<longleftrightarrow> (\<exists>k e. Get (mc_c mc) k = Some e \<and> ce_profile e = p
     \<and> entry_identity e = i \<and> ce_msg e = m \<and> ce_stored e = t)"

lemma matches_iff: "matches e p st \<longleftrightarrow> ce_profile e = p \<and> entry_identity e = identity st"
  by (auto simp: matches_def entry_identity_def identity_def)

lemma clamp_ttl_bounds: "lo \<le> hi \<Longrightarrow> lo \<le> clamp_ttl lo hi x \<and> clamp_ttl lo hi x \<le> hi"
  by (simp add: clamp_ttl_def Let_def)

lemma new_entry_simps [simp]:
  "ce_stored (new_entry f now p st m mc) = now"
  "ce_ttl (new_entry f now p st m mc) = clamp_ttl (mc_minTTL mc) (mc_maxTTL mc) (f m now)"
  "ce_msg (new_entry f now p st m mc) = m"
  "ce_profile (new_entry f now p st m mc) = p"
  "entry_identity (new_entry f now p st m mc) = identity st"
  "ce_qtype (new_entry f now p st m mc) = rq_qtype st"
  by (simp_all add: new_entry_def entry_identity_def identity_def)

lemma matches_new_entry [simp]: "matches (new_entry f now p st m mc) p st"
  by (simp add: matches_iff)

lemma entry_ok_cong:
  "mc_minTTL mc' = mc_minTTL mc \<Longrightarrow> mc_maxTTL mc' = mc_maxTTL mc \<Longrightarrow> entry_ok mc' e = entry_ok mc e"
  by (simp add: entry_ok_def)

lemma cache_put_bounds [simp]:
  "mc_minTTL (cache_put h f v now p st m mc) = mc_minTTL mc"
  "mc_maxTTL (cache_put h f v now p st m mc) = mc_maxTTL mc"
  by (simp_all add: cache_put_def)

lemma Get_cache_put:
  assumes "cache_ok mc" and "Get (mc_c (cache_put h f v now p st m mc)) k = Some e"
  shows "Get (mc_c mc) k = Some e \<or> (cacheable st m \<and> e = new_entry f now p st m mc)"
proof (cases "cacheable st m")
  case True
  have "store_ok (mc_c mc)" using assms(1) by (simp add: cache_ok_def)
  from store_table.lookup_insertD [OF this] assms(2) True show ?thesis
    by (fastforce simp: cache_put_def)
next
  case False
  with assms(2) show ?thesis by (simp add: cache_put_def)
qed

lemma cache_ok_put:
  assumes "cache_ok mc"
  shows "cache_ok (cache_put h f v now p st m mc)"
proof -
  let ?mc = "cache_put h f v now p st m mc"
  have "entry_ok mc e" if "Get (mc_c ?mc) k = Some e" for k e
    using Get_cache_put [OF assms that] assms clamp_ttl_bounds [of "mc_minTTL mc" "mc_maxTTL mc" "f m now"]
    by (auto simp: cache_ok_def entry_ok_def cacheable_def)
  moreover have "store_ok (mc_c ?mc)"
    using assms by (simp add: cache_put_def cache_ok_def store_ok_Add)
  ultimately show ?thesis
    using assms entry_ok_cong [of ?mc mc] by (simp add: cache_ok_def)
qed

lemma held_put:
  assumes "cache_ok mc" and "held (cache_put h f v now p st m mc) p' i m' t"
  shows "held mc p' i m' t \<or> (p' = p \<and> i = identity st \<and> m' = m \<and> t = now)"
  using assms(2) Get_cache_put [OF assms(1)] unfolding held_def by fastforce

text \<open>What a hit is, in terms of the entry it came from.\<close>

lemma cache_get_Hit_iff:
  "cache_get h now changed p st mc = Hit m \<longleftrightarrow>
     (\<exists>e. rq_qtype st \<noteq> TypePTR \<and> Get (mc_c mc) (cacheKey h p st) = Some e \<and> matches e p st
        \<and> \<not> ce_stored e < changed \<and> 0 < remaining_ttl now e
        \<and> m = echo_question st (setTTL (ce_msg e) (seconds_up (remaining_ttl now e))))"
  by (auto simp: cache_get_def Let_def not_le split: option.splits if_splits)

definition hit_msg :: "cache_result \<Rightarrow> msg option" where
  "hit_msg r = (case r of Hit m \<Rightarrow> Some m | _ \<Rightarrow> None)"

lemma hit_msg_Some [simp]: "hit_msg r = Some m \<longleftrightarrow> r = Hit m"
  by (cases r) (simp_all add: hit_msg_def)

definition served_as :: "request \<Rightarrow> msg \<Rightarrow> msg \<Rightarrow> bool" where
  "served_as st m m' \<longleftrightarrow> (\<exists>ttl. m' = echo_question st (setTTL m ttl))"

interpretation mcache: answer_cache
  "\<lambda>mc now changed p st. hit_msg (cache_get h now changed p st mc)" "cache_put h f"
  cache_ok held served_as
  for h :: "bytes \<Rightarrow> u64" and f :: "msg \<Rightarrow> time \<Rightarrow> duration"
proof (unfold_locales, goal_cases)
  case (1 c v now p st m)
  then show ?case by (rule cache_ok_put)
next
  case (2 c now changed p st m')
  then show ?case
    by (auto simp: cache_get_Hit_iff held_def served_as_def matches_iff)
next
  case (3 c v now p st m p' i m' t)
  then show ?case by (rule held_put)
qed

lemma cache_ok_newMsgCache: "cache_ok (newMsgCache c)"
  by (simp add: cache_ok_def newMsgCache_def Let_def store_ok_newStore Get_newStore int64_def
    defaultCacheMinTTL_def defaultCacheMaxTTL_def)

lemma held_newMsgCache: "\<not> held (newMsgCache c) p i m t"
  by (simp add: held_def newMsgCache_def Let_def Get_newStore)

text \<open>The cache as the configuration parser leaves it.\<close>

definition configured_cache :: "int \<Rightarrow> duration \<Rightarrow> duration \<Rightarrow> msgCache" where
  "configured_cache c lo hi = (newMsgCache c)\<lparr>mc_minTTL := lo, mc_maxTTL := hi\<rparr>"

lemma cache_ok_configured: "0 \<le> lo \<Longrightarrow> lo \<le> hi \<Longrightarrow> int64 hi \<Longrightarrow> cache_ok (configured_cache c lo hi)"
  using cache_ok_newMsgCache [of c]
  by (simp add: cache_ok_def configured_cache_def newMsgCache_def Let_def Get_newStore)

lemma held_configured: "\<not> held (configured_cache c lo hi) p i m t"
  using held_newMsgCache [of c] by (simp add: held_def configured_cache_def)

section \<open>The key determines the question\<close>

lemma u16_bytes_inject:
  fixes v w :: u16
  assumes "(ucast (drop_bit 8 v) :: u8) = ucast (drop_bit 8 w)" and "(ucast v :: u8) = ucast w"
  shows "v = w"
proof (rule bit_eqI)
  fix n
  assume "possible_bit TYPE(u16) n"
  then have n: "n < 16" by simp
  have "bit (ucast v :: u8) n = bit (ucast w :: u8) n"
    using assms(2) by simp
  then have low: "bit v n = bit w n" if "n < 8" using that by (simp add: bit_simps)
  have "bit (ucast (drop_bit 8 v) :: u8) (n - 8) = bit (ucast (drop_bit 8 w) :: u8) (n - 8)"
    using assms(1) by simp
  then have high: "bit v n = bit w n" if "8 \<le> n"
  proof -
    from that n have "n - 8 < 8" and "8 + (n - 8) = n" by simp_all
    then show ?thesis
      using \<open>bit (ucast (drop_bit 8 v) :: u8) (n - 8) = bit (ucast (drop_bit 8 w) :: u8) (n - 8)\<close>
      by (simp add: bit_simps)
  qed
  show "bit v n = bit w n" using low high by (cases "n < 8") auto
qed

lemma flags_inject:
  "((if a then 1 else 0) OR (if b then 2 else 0) :: u8) = (if c then 1 else 0) OR (if d then 2 else 0)
    \<longleftrightarrow> a = c \<and> b = d"
  by (cases a; cases b; cases c; cases d) simp_all

lemma zero_notin_bytes_of [simp]: "0 \<in> set (bytes_of s) \<longleftrightarrow> CHR 0x00 \<in> set s"
  using byte_of_inject [of _ "CHR 0x00"] by (force simp: bytes_of_def byte_of_def)

lemma cacheKey_buf_alt:
  "cacheKey_buf p st = (bytes_of p @ 0 # bytes_of (rq_name st)) @
     [ucast (drop_bit 8 (rq_qtype st)), ucast (rq_qtype st),
      ucast (drop_bit 8 (rq_qclass st)), ucast (rq_qclass st),
      (if rq_do st then 1 else 0) OR (if m_cd (rq_req st) then 2 else 0)]"
  by (simp add: cacheKey_buf_def AppendUint16_def)

lemma cacheKey_identity: "identity st = identity st' \<Longrightarrow> cacheKey h p st = cacheKey h p st'"
  by (simp add: cacheKey_def cacheKey_buf_def identity_def)

section \<open>Lifetimes\<close>

lemma remaining_exact:
  assumes "0 \<le> ce_ttl e" and "int64 (ce_ttl e)" and "ce_stored e \<le> now" and "now - ce_stored e < 2 ^ 63"
  shows "remaining_ttl now e = ce_stored e + ce_ttl e - now"
  using assms by (simp add: remaining_ttl_def time_sub_exact int64_def)

lemma seconds_up_exact:
  assumes "0 < d" and "d \<le> (2 ^ 32 - 1) * second"
  shows "uint (seconds_up d) = (d + second - 1) div second"
    and "1 \<le> (d + second - 1) div second"
proof -
  have "wrap64 (wrap64 (d + second) - 1) = d + second - 1"
    using assms by (simp add: int64_def)
  moreover have "0 \<le> (d + second - 1) div second" and "(d + second - 1) div second < 2 ^ 32"
    and "1 \<le> (d + second - 1) div second"
    using assms by simp_all
  ultimately show "uint (seconds_up d) = (d + second - 1) div second"
    and "1 \<le> (d + second - 1) div second"
    using assms by (simp_all add: seconds_up_def uint_word_of_int take_bit_eq_mod)
qed

text \<open>
  What a cached answer looks like after a while, without reference to how it is rewritten: the
  records of each section keep their number and order; the TTL field of one is the new lifetime,
  or what it was in the pseudo-record, where it is no lifetime but flags.
\<close>

definition aged :: "u32 \<Rightarrow> rr \<Rightarrow> rr \<Rightarrow> bool" where
  "aged t r r' \<longleftrightarrow> rr_type r' = rr_type r \<and> rr_ptr r' = rr_ptr r \<and> rr_rest r' = rr_rest r
     \<and> rr_ttl r' = (if rr_type r = TypeOPT then rr_ttl r else t)"

definition aged_reply :: "u32 \<Rightarrow> request \<Rightarrow> msg \<Rightarrow> msg \<Rightarrow> bool" where
  "aged_reply t st m m' \<longleftrightarrow>
     list_all2 (aged t) (m_answer m) (m_answer m') \<and> list_all2 (aged t) (m_ns m) (m_ns m')
     \<and> list_all2 (aged t) (m_extra m) (m_extra m')
     \<and> m_question m' = (if m_question (rq_req st) = [] then m_question m else [hd (m_question (rq_req st))])
     \<and> m_id m' = m_id m \<and> m_rcode m' = m_rcode m \<and> m_truncated m' = m_truncated m \<and> m_cd m' = m_cd m
     \<and> m_flags m' = m_flags m"

lemma aged_setTTL: "aged_reply t st m (echo_question st (setTTL m t))"
  by (simp add: aged_reply_def aged_def echo_question_def setTTL_def set_rr_ttl_def list_all2_map2 list_all2_same
    split: list.split)

lemma get_after_put:
  assumes "cache_ok mc" and "cacheable st m" and "identity st' = identity st"
    and "changed \<le> now" and "now \<le> now'" and "now' - now < 2 ^ 63"
    and "now' < now + clamp_ttl (mc_minTTL mc) (mc_maxTTL mc) (f m now)"
  shows "cache_get h now' changed p st' (cache_put h f v now p st m mc) =
    Hit (echo_question st' (setTTL m (seconds_up
      (now + clamp_ttl (mc_minTTL mc) (mc_maxTTL mc) (f m now) - now'))))"
proof -
  let ?e = "new_entry f now p st m mc"
  have "store_ok (mc_c mc)" using assms(1) by (simp add: cache_ok_def)
  then have "Get (mc_c (cache_put h f v now p st m mc)) (cacheKey h p st') = Some ?e"
    using assms(2) cacheKey_identity [OF assms(3)] by (simp add: cache_put_def Get_Add_same)
  moreover have "0 \<le> ce_ttl ?e" "int64 (ce_ttl ?e)"
    using assms(1) clamp_ttl_bounds [of "mc_minTTL mc" "mc_maxTTL mc" "f m now"]
    by (auto simp: cache_ok_def int64_def)
  then have "remaining_ttl now' ?e = now + clamp_ttl (mc_minTTL mc) (mc_maxTTL mc) (f m now) - now'"
    using remaining_exact [of ?e now'] assms(5,6) by simp
  moreover have "rq_qtype st' \<noteq> TypePTR"
    using assms(2,3) by (simp add: cacheable_def identity_def)
  ultimately show ?thesis
    using assms by (auto simp: cache_get_Hit_iff matches_iff)
qed

section \<open>An example\<close>

definition example_query :: request where
  "example_query =
     \<lparr>rq_req = \<lparr>m_id = 7, m_rcode = 0, m_truncated = False, m_cd = False,
         m_question = [\<lparr>q_name = ''eXample.org.'', q_type = 1, q_class = 1\<rparr>],
         m_answer = [], m_ns = [], m_extra = [], m_flags = []\<rparr>,
      rq_ip = ''10.0.0.7'', rq_local = ''10.0.0.1'', rq_name = ''example.org.'',
      rq_qtype = 1, rq_qclass = 1, rq_do = False\<rparr>"

definition example_answer :: msg where
  "example_answer =
     \<lparr>m_id = 0, m_rcode = 0, m_truncated = False, m_cd = False,
      m_question = [\<lparr>q_name = ''example.org.'', q_type = 1, q_class = 1\<rparr>],
      m_answer = [\<lparr>rr_type = 1, rr_ttl = 300, rr_ptr = None, rr_rest = [93, 184]\<rparr>],
      m_ns = [], m_extra = [\<lparr>rr_type = 41, rr_ttl = 32768, rr_ptr = None, rr_rest = []\<rparr>],
      m_flags = []\<rparr>"

definition example_cache :: msgCache where
  "example_cache = configured_cache 1000 (5 * second) (60 * minute)"

lemma example_cache_simps [simp]:
  "mc_minTTL example_cache = 5 * second" "mc_maxTTL example_cache = 60 * minute"
  by (simp_all add: example_cache_def configured_cache_def)

lemma example_cache_ok: "cache_ok example_cache"
  unfolding example_cache_def by (rule cache_ok_configured) (simp_all add: int64_def)

lemma example_cacheable: "cacheable example_query example_answer"
  by (simp add: cacheable_def example_query_def example_answer_def dns_consts)

text \<open>The cache after one answer, under a hash that sends everything to one key.\<close>

definition example_hist :: "(nat \<times> time \<times> string \<times> request \<times> msg) list" where
  "example_hist = [(0, 0, ''abc123'', example_query, example_answer)]"

lemma example_hit:
  "\<exists>m. cache_get (\<lambda>_. 0) second 0 ''abc123'' example_query
     (mcache.offers (\<lambda>_. 0) (\<lambda>_ _. 60 * second) example_hist example_cache) = Hit m"
proof -
  have "second < 0 + clamp_ttl (mc_minTTL example_cache) (mc_maxTTL example_cache) (60 * second)"
    by (simp add: clamp_ttl_def Let_def)
  from get_after_put [OF example_cache_ok example_cacheable refl _ _ _ this]
  show ?thesis by (simp add: example_hist_def)
qed

section \<open>Properties\<close>

text \<open>
  Whatever answers were offered to the cache, in whatever order, with any hash
  function and any evictions: an answer it hands out was offered before under the same
  profile, name, type, class and DO and CD flags, was cacheable, was accepted no earlier
  than the last change of the profile's configuration, and comes back with nothing altered
  but its lifetimes and the echoed question.
\<close>

theorem cache_answers_only_its_question:
  assumes "0 \<le> lo" and "lo \<le> hi" and "int64 hi"
    and "cache_get h now changed p st (mcache.offers h f hist (configured_cache c lo hi)) = Hit m'"
  shows "\<exists>v t st0 m ttl. (v, t, p, st0, m) \<in> set hist \<and> identity st0 = identity st
    \<and> rq_qtype st \<noteq> TypePTR \<and> \<not> t < changed \<and> m' = echo_question st (setTTL m ttl)"
proof -
  have "\<exists>m t. mcache.offered hist p (identity st) m t \<and> \<not> t < changed \<and> served_as st m m'"
    using assms cache_ok_configured held_configured
    by (intro mcache.lookup_offers [of "configured_cache c lo hi" h now changed p st f hist]) auto
  moreover have "rq_qtype st \<noteq> TypePTR" using assms(4) by (auto simp: cache_get_def)
  ultimately show ?thesis by (fastforce simp: mcache.offered_def served_as_def)
qed

theorem cache_answers_only_its_question_witness:
  "\<exists>m'. cache_get (\<lambda>_. 0) second 0 ''abc123'' example_query
       (mcache.offers (\<lambda>_. 0) (\<lambda>_ _. 60 * second) example_hist example_cache) = Hit m'
     \<and> (\<exists>ttl. m' = echo_question example_query (setTTL example_answer ttl))"
proof -
  obtain m' where m': "cache_get (\<lambda>_. 0) second 0 ''abc123'' example_query
       (mcache.offers (\<lambda>_. 0) (\<lambda>_ _. 60 * second) example_hist example_cache) = Hit m'"
    using example_hit by blast
  moreover have "(0::int) \<le> 5 * second" "(5::int) * second \<le> 60 * minute" "int64 (60 * minute)"
    by (simp_all add: int64_def)
  ultimately show ?thesis
    using cache_answers_only_its_question [of "5 * second" "60 * minute"]
    unfolding example_cache_def by (fastforce simp: example_hist_def)
qed

text \<open>
  Property C28. Storing an answer makes the next lookup of the same question under the same
  profile succeed for as long as the entry lives. What comes back is that answer, section by
  section and record by record: every record has the remaining lifetime, in whole seconds
  rounded up, except that the EDNS pseudo-record comes back as it was; the question is the
  one of the asker, and everything else is unchanged.
\<close>

theorem put_then_get:
  assumes "cache_ok mc" and "cacheable st m" and "identity st' = identity st"
    and "changed \<le> now" and "now \<le> now'" and "now' - now < 2 ^ 63"
    and "now' < now + clamp_ttl (mc_minTTL mc) (mc_maxTTL mc) (f m now)"
  shows "\<exists>m' t. cache_get h now' changed p st' (cache_put h f v now p st m mc) = Hit m'
    \<and> aged_reply t st' m m'
    \<and> (now + clamp_ttl (mc_minTTL mc) (mc_maxTTL mc) (f m now) - now' \<le> (2 ^ 32 - 1) * second \<longrightarrow>
         uint t = (now + clamp_ttl (mc_minTTL mc) (mc_maxTTL mc) (f m now) - now' + second - 1) div second)"
proof -
  let ?d = "now + clamp_ttl (mc_minTTL mc) (mc_maxTTL mc) (f m now) - now'"
  have "cache_get h now' changed p st' (cache_put h f v now p st m mc) = Hit (echo_question st' (setTTL m (seconds_up ?d)))"
    by (rule get_after_put [where f = f]) (use assms in simp_all)
  moreover have "aged_reply (seconds_up ?d) st' m (echo_question st' (setTTL m (seconds_up ?d)))" by (rule aged_setTTL)
  moreover have "?d \<le> (2 ^ 32 - 1) * second \<Longrightarrow> uint (seconds_up ?d) = (?d + second - 1) div second"
    using assms(7) by (intro seconds_up_exact(1)) simp_all
  ultimately show ?thesis by blast
qed

theorem put_then_get_witness:
  "\<exists>m' t. cache_get (\<lambda>_. 0) (10 * second + 1) 0 ''abc123'' example_query
     (cache_put (\<lambda>_. 0) (\<lambda>_ _. 60 * second) 0 0 ''abc123'' example_query example_answer example_cache) = Hit m'
   \<and> aged_reply t example_query example_answer m' \<and> uint t = 50"
proof -
  have d: "0 + clamp_ttl (mc_minTTL example_cache) (mc_maxTTL example_cache) (60 * second)
      - (10 * second + 1) = 49999999999"
    and lt: "10 * second + 1 < 0 + clamp_ttl (mc_minTTL example_cache) (mc_maxTTL example_cache) (60 * second)"
    by (simp_all add: clamp_ttl_def Let_def example_cache_simps)
  show ?thesis
    using put_then_get [of example_cache example_query example_answer example_query 0 0
        "10 * second + 1" "\<lambda>_ _. 60 * second" "\<lambda>_. 0" "''abc123''" 0, OF example_cache_ok
        example_cacheable refl _ _ _ lt] unfolding d by simp
qed

text \<open>
  Property C29. When lifetimes fit the 32-bit TTL field, an answer is handed out only
  until its entry expires. It is the stored one, section by section and record by record: a
  record has the remaining lifetime in whole seconds, rounded up and so never zero, and an EDNS
  pseudo-record comes back as it was stored, its TTL field, which is no lifetime, included.
\<close>

theorem hit_lifetime:
  assumes "cache_ok mc" and "mc_maxTTL mc \<le> (2 ^ 32 - 1) * second"
    and "Get (mc_c mc) (cacheKey h p st) = Some e"
    and "ce_stored e \<le> now" and "now - ce_stored e < 2 ^ 63"
    and "cache_get h now changed p st mc = Hit m"
  shows "now < ce_stored e + ce_ttl e \<and>
    (\<exists>t. aged_reply t st (ce_msg e) m \<and> uint t = (ce_stored e + ce_ttl e - now + second - 1) div second
      \<and> 1 \<le> uint t)"
proof -
  from assms(1,3) have "entry_ok mc e" by (simp add: cache_ok_def)
  with assms(1,2) have ttl: "0 \<le> ce_ttl e" "int64 (ce_ttl e)" "ce_ttl e \<le> (2 ^ 32 - 1) * second"
    by (auto simp: cache_ok_def entry_ok_def int64_def)
  from assms(3,6) have left: "0 < remaining_ttl now e"
    and m: "m = echo_question st (setTTL (ce_msg e) (seconds_up (remaining_ttl now e)))"
    by (auto simp: cache_get_Hit_iff)
  let ?d = "ce_stored e + ce_ttl e - now"
  have d: "remaining_ttl now e = ?d"
    using remaining_exact [OF ttl(1,2) assms(4,5)] .
  with left ttl(3) assms(4) have "uint (seconds_up ?d) = (?d + second - 1) div second"
    "1 \<le> (?d + second - 1) div second"
    using seconds_up_exact [of ?d] by simp_all
  with left d aged_setTTL show ?thesis unfolding m d by (intro conjI exI [of _ "seconds_up ?d"]) simp_all
qed

theorem hit_lifetime_witness:
  "\<exists>m t. cache_get (\<lambda>_. 0) second 0 ''abc123'' example_query
       (mcache.offers (\<lambda>_. 0) (\<lambda>_ _. 60 * second) example_hist example_cache) = Hit m
     \<and> aged_reply t example_query example_answer m \<and> uint t = 59"
proof -
  let ?mc = "mcache.offers (\<lambda>_. 0) (\<lambda>_ _. 60 * second) example_hist example_cache"
  let ?e = "new_entry (\<lambda>_ _. 60 * second) 0 ''abc123'' example_query example_answer example_cache"
  obtain m where m: "cache_get (\<lambda>_. 0) second 0 ''abc123'' example_query ?mc = Hit m"
    using example_hit by blast
  have ok: "cache_ok ?mc" by (rule mcache.ok_offers [OF example_cache_ok])
  have "store_ok (mc_c example_cache)" using example_cache_ok by (simp add: cache_ok_def)
  then have get: "Get (mc_c ?mc) (cacheKey (\<lambda>_. 0) ''abc123'' example_query) = Some ?e"
    by (simp add: example_hist_def cache_put_def example_cacheable Get_Add_same)
  have max: "mc_maxTTL ?mc \<le> (2 ^ 32 - 1) * second" by (simp add: example_hist_def)
  have e: "ce_ttl ?e = 60 * second" "ce_stored ?e = 0" by (simp_all add: clamp_ttl_def Let_def)
  from hit_lifetime [OF ok max get _ _ m] e m show ?thesis by auto
qed

text \<open>
  The bytes that are hashed determine the profile and every part of the
  question, for profiles without a NUL byte; so only a collision of the 64-bit hash can
  bring two questions to one key.
\<close>

theorem cacheKey_buf_injective:
  assumes "CHR 0x00 \<notin> set p" and "CHR 0x00 \<notin> set p'"
  shows "cacheKey_buf p st = cacheKey_buf p' st' \<longleftrightarrow> p = p' \<and> identity st = identity st'"
proof
  assume eq: "cacheKey_buf p st = cacheKey_buf p' st'"
  then have "bytes_of p @ 0 # bytes_of (rq_name st) = bytes_of p' @ 0 # bytes_of (rq_name st')"
    by (simp add: cacheKey_buf_alt)
  then have "bytes_of p = bytes_of p' \<and> bytes_of (rq_name st) = bytes_of (rq_name st')"
    using assms by (subst (asm) append_sep_inject) simp_all
  moreover have "rq_qtype st = rq_qtype st'" and "rq_qclass st = rq_qclass st'"
    and "rq_do st = rq_do st' \<and> m_cd (rq_req st) = m_cd (rq_req st')"
    using eq by (auto simp: cacheKey_buf_alt flags_inject intro: u16_bytes_inject)
  ultimately show "p = p' \<and> identity st = identity st'" by (simp add: identity_def)
next
  assume "p = p' \<and> identity st = identity st'"
  then show "cacheKey_buf p st = cacheKey_buf p' st'" by (simp add: cacheKey_buf_def identity_def)
qed

theorem cacheKey_buf_injective_witness:
  "cacheKey_buf ''abc123'' example_query = cacheKey_buf ''abc123'' example_query
   \<and> cacheKey_buf ''abc123'' example_query \<noteq> cacheKey_buf ''def456'' example_query"
  using cacheKey_buf_injective [of "''abc123''" "''def456''" example_query example_query] by simp

end
