(* ===== verification/Sources.thy ===== *)
theory Sources
  imports Netip
begin

text \<open>
  \<open>sources.go\<close>: the on-disk sources of device names and MAC addresses. Each parser is the
  fold of its per-line step over the lines the scanner delivers, and returns the table
  built so far together with the scanner's error, as the code does. A file system is a
  function from a path to an error or to what reading the file yields.
\<close>

section \<open>Data\<close>

record deviceInfo =
  di_name :: string
  di_mac :: bytes

definition no_info :: deviceInfo where
  "no_info = \<lparr>di_name = [], di_mac = []\<rparr>"

type_synonym device_table = "(addr, deviceInfo) gomap"

record deviceFile =
  df_path :: string
  df_format :: string
  df_lastErr :: string

datatype source_error = UnknownFormat string

definition supportedFormats :: "string list" where
  "supportedFormats = [''hosts'', ''dnsmasq'', ''dhcpd'']"

definition newDeviceFile :: "string \<Rightarrow> string \<Rightarrow> source_error + deviceFile" where
  "newDeviceFile format path =
     (if format \<notin> set supportedFormats then Inl (UnknownFormat format)
      else Inr \<lparr>df_path = path, df_format = format, df_lastErr = []\<rparr>)"

section \<open>Hosts files\<close>

definition strip_comment :: "string \<Rightarrow> string" where
  "strip_comment line =
     (let i = IndexByte line CHR ''#'' in if 0 \<le> i then take (nat i) line else line)"

definition hosts_line :: "string \<Rightarrow> device_table \<Rightarrow> device_table" where
  "hosts_line line out =
     (let fields = Fields (strip_comment line)
      in if length fields < 2 then out
         else case ParseAddr (fields ! 0) of
             None \<Rightarrow> out
           | Some a \<Rightarrow> AList.update (Unmap a) \<lparr>di_name = fields ! 1, di_mac = []\<rparr> out)"

definition parseHosts :: "reader \<Rightarrow> device_table \<times> string option" where
  "parseHosts r = (let (ls, err) = scan r in (fold hosts_line ls [], err))"

section \<open>dnsmasq leases\<close>

definition dnsmasq_line :: "string \<Rightarrow> device_table \<Rightarrow> device_table" where
  "dnsmasq_line line out =
     (let fields = Fields line
      in if length fields < 4 then out
         else case ParseAddr (fields ! 2) of
             None \<Rightarrow> out
           | Some a \<Rightarrow>
               let info = no_info;
                   info = (if fields ! 3 \<noteq> ''*'' then info\<lparr>di_name := fields ! 3\<rparr> else info);
                   info = (case ParseMAC (fields ! 1) of
                       Some mac \<Rightarrow> info\<lparr>di_mac := mac\<rparr> | None \<Rightarrow> info)
               in AList.update (Unmap a) info out)"

definition parseDnsmasqLeases :: "reader \<Rightarrow> device_table \<times> string option" where
  "parseDnsmasqLeases r = (let (ls, err) = scan r in (fold dnsmasq_line ls [], err))"

section \<open>ISC dhcpd leases\<close>

definition unquote :: "string \<Rightarrow> string" where
  "unquote s =
     (let s = TrimSpace s
      in if 2 \<le> length s \<and> hd s = CHR 0x22 \<and> last s = CHR 0x22
         then take (length s - 2) (drop 1 s) else s)"

record dhcpd_state =
  ds_cur :: addr
  ds_info :: deviceInfo
  ds_inTag :: bool
  ds_out :: device_table

definition clean_line :: "string \<Rightarrow> string" where
  "clean_line raw =
     (let line = TrimSpace raw; i = IndexByte line CHR ''#''
      in if 0 \<le> i then TrimSpace (take (nat i) line) else line)"

definition is_lease_header :: "string \<Rightarrow> bool" where
  "is_lease_header line \<longleftrightarrow> HasPrefix line ''lease '' \<and> HasSuffix line ''{''"

definition field_value :: "string \<Rightarrow> string \<Rightarrow> string" where
  "field_value line key = TrimSuffix (TrimPrefix line key) '';''"

text \<open>The last three cases of the switch: the statements inside a lease block.\<close>

definition dhcpd_field :: "string \<Rightarrow> deviceInfo \<Rightarrow> deviceInfo" where
  "dhcpd_field line info =
     (if HasPrefix line ''client-hostname '' then
        info\<lparr>di_name := unquote (field_value line ''client-hostname '')\<rparr>
      else if HasPrefix line ''hostname '' then
        (if di_name info = [] then info\<lparr>di_name := unquote (field_value line ''hostname '')\<rparr> else info)
      else if HasPrefix line ''hardware ethernet '' then
        (case ParseMAC (TrimSpace (field_value line ''hardware ethernet '')) of
           Some mac \<Rightarrow> info\<lparr>di_mac := mac\<rparr> | None \<Rightarrow> info)
      else info)"

definition dhcpd_line :: "string \<Rightarrow> dhcpd_state \<Rightarrow> dhcpd_state" where
  "dhcpd_line raw s =
     (let line = clean_line raw in
      if is_lease_header line then
        (let fields = Fields line in
         if length fields < 2 then s
         else case ParseAddr (fields ! 1) of
             None \<Rightarrow> s\<lparr>ds_inTag := False\<rparr>
           | Some a \<Rightarrow> s\<lparr>ds_cur := Unmap a, ds_info := no_info, ds_inTag := True\<rparr>)
      else if \<not> ds_inTag s then s
      else if line = ''}'' then
        (let s = (if di_name (ds_info s) \<noteq> [] \<or> 0 < length (di_mac (ds_info s))
                  then s\<lparr>ds_out := AList.update (ds_cur s) (ds_info s) (ds_out s)\<rparr> else s)
         in s\<lparr>ds_inTag := False\<rparr>)
      else s\<lparr>ds_info := dhcpd_field line (ds_info s)\<rparr>)"

definition dhcpd_start :: dhcpd_state where
  "dhcpd_start = \<lparr>ds_cur = NoAddr, ds_info = no_info, ds_inTag = False, ds_out = []\<rparr>"

definition parseDHCPDLeases :: "reader \<Rightarrow> device_table \<times> string option" where
  "parseDHCPDLeases r = (let (ls, err) = scan r in (ds_out (fold dhcpd_line ls dhcpd_start), err))"

section \<open>The ARP table\<close>

definition isZeroMAC :: "bytes \<Rightarrow> bool" where
  "isZeroMAC mac = list_all (\<lambda>b. b = 0) mac"

definition arp_line :: "string \<Rightarrow> device_table \<Rightarrow> device_table" where
  "arp_line line out =
     (let fields = Fields line
      in if length fields < 4 then out
         else case ParseUint16_32 (TrimPrefix (fields ! 2) ''0x'') of
             None \<Rightarrow> out
           | Some flags \<Rightarrow>
               if flags = 0 then out
               else case ParseAddr (fields ! 0) of
                   None \<Rightarrow> out
                 | Some a \<Rightarrow>
                     (case ParseMAC (fields ! 3) of
                        None \<Rightarrow> out
                      | Some mac \<Rightarrow>
                          if isZeroMAC mac then out
                          else AList.update (Unmap a) \<lparr>di_name = [], di_mac = mac\<rparr> out))"

type_synonym file_system = "string \<Rightarrow> string + reader"

definition readARP :: "file_system \<Rightarrow> string \<Rightarrow> device_table \<times> string option" where
  "readARP fs path =
     (case fs path of
        Inl err \<Rightarrow> ([], Some err)
      | Inr fh \<Rightarrow> let (ls, err) = scan fh in (fold arp_line (drop 1 ls) [], err))"

definition file_read :: "file_system \<Rightarrow> deviceFile \<Rightarrow> device_table \<times> string option" where
  "file_read fs f =
     (case fs (df_path f) of
        Inl err \<Rightarrow> ([], Some err)
      | Inr fh \<Rightarrow>
          if df_format f = ''hosts'' then parseHosts fh
          else if df_format f = ''dnsmasq'' then parseDnsmasqLeases fh
          else parseDHCPDLeases fh)"

section \<open>Line-based sources\<close>

text \<open>
  What a line of a source says, if anything: an entry for an address. Three of the four
  parsers do nothing but collect the entries of their lines, a later line for the same
  address replacing an earlier one.
\<close>

locale line_source =
  fixes line_step :: "string \<Rightarrow> device_table \<Rightarrow> device_table"
    and entry :: "string \<Rightarrow> (addr \<times> deviceInfo) option"
  assumes step_entry: "line_step l out =
      (case entry l of None \<Rightarrow> out | Some (a, i) \<Rightarrow> AList.update a i out)"
    and entry_normal: "entry l = Some (a, i) \<Longrightarrow> \<not> Is4In6 a"
begin

lemma fold_lookup:
  "map_of (fold line_step ls out) = map_of out ++ map_of (rev (List.map_filter entry ls))"
proof (induction ls arbitrary: out)
  case Nil
  then show ?case by (simp add: List.map_filter_simps)
next
  case (Cons l ls)
  then show ?case
    by (cases "entry l") (auto simp: List.map_filter_simps step_entry map_add_upd fun_eq_iff map_add_def
      split: option.splits)
qed

lemma fold_wf: "wf_map out \<Longrightarrow> wf_map (fold line_step ls out)"
proof (induction ls arbitrary: out)
  case (Cons l ls)
  then show ?case by (auto simp: step_entry split: option.splits)
qed simp

lemma fold_entries:
  "p \<in> set (fold line_step ls out) \<Longrightarrow> p \<in> set out \<or> (\<exists>l \<in> set ls. entry l = Some p)"
proof (induction ls arbitrary: out)
  case (Cons l ls)
  then consider "p \<in> set (line_step l out)" | "\<exists>l \<in> set ls. entry l = Some p" by auto
  then show ?case
  proof cases
    case 1
    then show ?thesis using set_update_subset by (fastforce simp: step_entry split: option.splits)
  qed auto
qed simp

lemma fold_normal:
  "(\<And>a i. (a, i) \<in> set out \<Longrightarrow> \<not> Is4In6 a) \<Longrightarrow> (a, i) \<in> set (fold line_step ls out) \<Longrightarrow> \<not> Is4In6 a"
  by (metis entry_normal fold_entries)

end

definition hosts_entry :: "string \<Rightarrow> (addr \<times> deviceInfo) option" where
  "hosts_entry line =
     (case Fields (strip_comment line) of
        ip # name # _ \<Rightarrow> map_option (\<lambda>a. (Unmap a, \<lparr>di_name = name, di_mac = []\<rparr>)) (ParseAddr ip)
      | _ \<Rightarrow> None)"

definition dnsmasq_entry :: "string \<Rightarrow> (addr \<times> deviceInfo) option" where
  "dnsmasq_entry line =
     (case Fields line of
        _ # mac # ip # name # _ \<Rightarrow>
          map_option (\<lambda>a. (Unmap a,
              \<lparr>di_name = (if name = ''*'' then [] else name),
               di_mac = (case ParseMAC mac of None \<Rightarrow> [] | Some m \<Rightarrow> m)\<rparr>)) (ParseAddr ip)
      | _ \<Rightarrow> None)"

definition arp_entry :: "string \<Rightarrow> (addr \<times> deviceInfo) option" where
  "arp_entry line =
     (case Fields line of
        ip # _ # fl # hw # _ \<Rightarrow>
          (case (ParseUint16_32 (TrimPrefix fl ''0x''), ParseAddr ip, ParseMAC hw) of
             (Some n, Some a, Some m) \<Rightarrow>
               if n = 0 \<or> isZeroMAC m then None else Some (Unmap a, \<lparr>di_name = [], di_mac = m\<rparr>)
           | _ \<Rightarrow> None)
      | _ \<Rightarrow> None)"

interpretation hosts: line_source hosts_line hosts_entry
  by unfold_locales
    (auto simp: hosts_line_def hosts_entry_def Let_def split: list.splits option.splits)

interpretation dnsmasq: line_source dnsmasq_line dnsmasq_entry
  by unfold_locales
    (auto simp: dnsmasq_line_def dnsmasq_entry_def no_info_def Let_def split: list.splits option.splits)

interpretation arp: line_source arp_line arp_entry
  by unfold_locales
    (auto simp: arp_line_def arp_entry_def Let_def split: list.splits option.splits if_splits)

section \<open>Hardware addresses of the sources\<close>

lemma length_all_some: "all_some xs = Some ys \<Longrightarrow> length ys = length xs"
  by (auto simp: all_some_def split: if_splits)

lemma ParseMAC_length:
  assumes "ParseMAC s = Some m"
  shows "length m \<in> {6, 8, 20}"
proof -
  have pairs: "length (concat (map (\<lambda>i. [f i, g i]) xs)) = 2 * length xs" for f g :: "nat \<Rightarrow> int option" and xs
    by (induction xs) auto
  show ?thesis
    using assms by (auto simp: ParseMAC_def Let_def pairs dest!: length_all_some split: if_splits)
qed

section \<open>Lease blocks\<close>

text \<open>A block of a leases file: its header line and the lines up to its closing brace.\<close>

type_synonym block = "string \<times> string list"

definition block_ok :: "block \<Rightarrow> bool" where
  "block_ok b \<longleftrightarrow> is_lease_header (clean_line (fst b)) \<and> 2 \<le> length (Fields (clean_line (fst b)))
     \<and> list_all (\<lambda>l. \<not> is_lease_header (clean_line l) \<and> clean_line l \<noteq> ''}'') (snd b)"

definition block_lines :: "block \<Rightarrow> string list" where
  "block_lines b = fst b # snd b @ [''}'']"

definition block_info :: "block \<Rightarrow> deviceInfo" where
  "block_info b = fold dhcpd_field (map clean_line (snd b)) no_info"

definition info_empty :: "deviceInfo \<Rightarrow> bool" where
  "info_empty i \<longleftrightarrow> di_name i = [] \<and> di_mac i = []"

definition block_entry :: "block \<Rightarrow> (addr \<times> deviceInfo) option" where
  "block_entry b =
     (case ParseAddr (Fields (clean_line (fst b)) ! 1) of
        None \<Rightarrow> None
      | Some a \<Rightarrow> if info_empty (block_info b) then None else Some (Unmap a, block_info b))"

lemma clean_brace: "clean_line ''}'' = ''}''"
  by (simp add: clean_line_def Let_def go_string)

lemma brace_no_header: "\<not> is_lease_header ''}''"
  by (simp add: is_lease_header_def HasPrefix_def)

lemma dhcpd_body_in:
  assumes "list_all (\<lambda>l. \<not> is_lease_header (clean_line l) \<and> clean_line l \<noteq> ''}'') ls" and "ds_inTag s"
  shows "fold dhcpd_line ls s = s\<lparr>ds_info := fold dhcpd_field (map clean_line ls) (ds_info s)\<rparr>"
  using assms
proof (induction ls arbitrary: s)
  case (Cons l ls)
  then have "dhcpd_line l s = s\<lparr>ds_info := dhcpd_field (clean_line l) (ds_info s)\<rparr>"
    by (simp add: dhcpd_line_def Let_def)
  with Cons show ?case by simp
qed simp

lemma dhcpd_body_out:
  assumes "list_all (\<lambda>l. \<not> is_lease_header (clean_line l) \<and> clean_line l \<noteq> ''}'') ls" and "\<not> ds_inTag s"
  shows "fold dhcpd_line ls s = s"
  using assms
proof (induction ls arbitrary: s)
  case (Cons l ls)
  then have "dhcpd_line l s = s" by (simp add: dhcpd_line_def Let_def)
  with Cons show ?case by simp
qed simp

lemma dhcpd_block:
  assumes "block_ok b"
  shows "ds_out (fold dhcpd_line (block_lines b) s) =
      (case block_entry b of None \<Rightarrow> ds_out s | Some (a, i) \<Rightarrow> AList.update a i (ds_out s))"
    and "\<not> ds_inTag (fold dhcpd_line (block_lines b) s)"
proof -
  have body: "list_all (\<lambda>l. \<not> is_lease_header (clean_line l) \<and> clean_line l \<noteq> ''}'') (snd b)"
    and head: "is_lease_header (clean_line (fst b))" "2 \<le> length (Fields (clean_line (fst b)))"
    using assms by (simp_all add: block_ok_def)
  show "ds_out (fold dhcpd_line (block_lines b) s) =
      (case block_entry b of None \<Rightarrow> ds_out s | Some (a, i) \<Rightarrow> AList.update a i (ds_out s))"
    and "\<not> ds_inTag (fold dhcpd_line (block_lines b) s)"
  proof (atomize (full), cases "ParseAddr (Fields (clean_line (fst b)) ! 1)")
    case None
    with head have "dhcpd_line (fst b) s = s\<lparr>ds_inTag := False\<rparr>"
      by (simp add: dhcpd_line_def Let_def)
    with None body show "ds_out (fold dhcpd_line (block_lines b) s) =
        (case block_entry b of None \<Rightarrow> ds_out s | Some (a, i) \<Rightarrow> AList.update a i (ds_out s))
      \<and> \<not> ds_inTag (fold dhcpd_line (block_lines b) s)"
      by (simp add: block_lines_def block_entry_def dhcpd_body_out)
        (simp add: dhcpd_line_def clean_brace brace_no_header)
  next
    case (Some a)
    with head have "dhcpd_line (fst b) s = s\<lparr>ds_cur := Unmap a, ds_info := no_info, ds_inTag := True\<rparr>"
      by (simp add: dhcpd_line_def Let_def)
    with Some body show "ds_out (fold dhcpd_line (block_lines b) s) =
        (case block_entry b of None \<Rightarrow> ds_out s | Some (a, i) \<Rightarrow> AList.update a i (ds_out s))
      \<and> \<not> ds_inTag (fold dhcpd_line (block_lines b) s)"
      by (simp add: block_lines_def block_entry_def dhcpd_body_in block_info_def info_empty_def)
        (simp add: dhcpd_line_def clean_brace brace_no_header Let_def)
  qed
qed

lemma dhcpd_blocks:
  assumes "list_all block_ok bs"
  shows "map_of (ds_out (fold dhcpd_line (concat (map block_lines bs)) s)) =
    map_of (ds_out s) ++ map_of (rev (List.map_filter block_entry bs))"
  using assms
proof (induction bs arbitrary: s)
  case Nil
  then show ?case by (simp add: List.map_filter_simps)
next
  case (Cons b bs)
  then have "map_of (ds_out (fold dhcpd_line (concat (map block_lines (b # bs))) s)) =
      map_of (case block_entry b of None \<Rightarrow> ds_out s | Some (a, i) \<Rightarrow> AList.update a i (ds_out s))
      ++ map_of (rev (List.map_filter block_entry bs))"
    by (simp add: dhcpd_block(1))
  then show ?case
    by (cases "block_entry b")
      (auto simp: List.map_filter_simps fun_eq_iff map_add_def split: option.splits)
qed

lemma dhcpd_line_normal:
  assumes "wf_map (ds_out s)" and "\<not> Is4In6 (ds_cur s)" and "\<And>a i. (a, i) \<in> set (ds_out s) \<Longrightarrow> \<not> Is4In6 a"
  shows "wf_map (ds_out (dhcpd_line l s)) \<and> \<not> Is4In6 (ds_cur (dhcpd_line l s))
    \<and> (\<forall>(a, i) \<in> set (ds_out (dhcpd_line l s)). \<not> Is4In6 a)"
proof -
  have upd: "\<not> Is4In6 a" if "(a, i) \<in> set (AList.update (ds_cur s) (ds_info s) (ds_out s))" for a i
    using that set_update_subset [of "ds_cur s" "ds_info s" "ds_out s"] assms(2,3) by blast
  show ?thesis
  proof (cases "is_lease_header (clean_line l)")
    case True
    with assms show ?thesis
      by (cases "ParseAddr (Fields (clean_line l) ! 1)") (auto simp: dhcpd_line_def Let_def)
  next
    case False
    with assms upd show ?thesis by (auto simp: dhcpd_line_def Let_def)
  qed
qed

lemma dhcpd_fold_normal:
  assumes "wf_map (ds_out s)" and "\<not> Is4In6 (ds_cur s)" and "\<And>a i. (a, i) \<in> set (ds_out s) \<Longrightarrow> \<not> Is4In6 a"
  shows "wf_map (ds_out (fold dhcpd_line ls s))
    \<and> (\<forall>(a, i) \<in> set (ds_out (fold dhcpd_line ls s)). \<not> Is4In6 a)"
  using assms
proof (induction ls arbitrary: s)
  case Nil
  then show ?case by auto
next
  case (Cons l ls)
  from dhcpd_line_normal [of s l] Cons.prems
  have "wf_map (ds_out (dhcpd_line l s))" "\<not> Is4In6 (ds_cur (dhcpd_line l s))"
    "\<And>a i. (a, i) \<in> set (ds_out (dhcpd_line l s)) \<Longrightarrow> \<not> Is4In6 a" by auto
  from Cons.IH [OF this] show ?case by simp
qed

text \<open>What every source table satisfies: one entry per address, no v4-mapped address.\<close>

definition table_ok :: "device_table \<Rightarrow> bool" where
  "table_ok m \<longleftrightarrow> wf_map m \<and> (\<forall>a \<in> fst ` set m. \<not> Is4In6 a)"

lemma table_ok_readARP: "table_ok (fst (readARP fs path))"
proof (cases "fs path")
  case (Inr r)
  then show ?thesis
    using arp.fold_wf [of "[]"] arp.fold_normal [of "[]"]
    by (auto simp: table_ok_def readARP_def split: prod.splits)
qed (simp add: readARP_def table_ok_def)

lemma table_ok_file_read: "table_ok (fst (file_read fs f))"
proof (cases "fs (df_path f)")
  case (Inr r)
  have "table_ok (fst (parseHosts r))" 
    using hosts.fold_wf [of "[]"] hosts.fold_normal [of "[]"]
    by (auto simp: table_ok_def parseHosts_def split: prod.splits)
  moreover have "table_ok (fst (parseDnsmasqLeases r))"
    using dnsmasq.fold_wf [of "[]"] dnsmasq.fold_normal [of "[]"]
    by (auto simp: table_ok_def parseDnsmasqLeases_def split: prod.splits)
  moreover have "table_ok (fst (parseDHCPDLeases r))"
    using dhcpd_fold_normal [of dhcpd_start]
    by (fastforce simp: table_ok_def parseDHCPDLeases_def dhcpd_start_def split: prod.splits)
  ultimately show ?thesis by (simp add: file_read_def Inr)
qed (simp add: file_read_def table_ok_def)

lemma dhcpd_no_header_out:
  assumes "list_all (\<lambda>l. \<not> is_lease_header (clean_line l)) ls" and "\<not> ds_inTag s"
  shows "fold dhcpd_line ls s = s"
  using assms
proof (induction ls arbitrary: s)
  case (Cons l ls)
  then have "dhcpd_line l s = s" by (simp add: dhcpd_line_def Let_def)
  with Cons show ?case by simp
qed simp

lemma arp_entryD:
  assumes "arp_entry l = Some (a, i)"
  shows "di_name i = [] \<and> length (di_mac i) \<in> {6, 8, 20} \<and> \<not> isZeroMAC (di_mac i)
    \<and> (\<exists>n. ParseUint16_32 (TrimPrefix (Fields l ! 2) ''0x'') = Some n \<and> n \<noteq> 0)
    \<and> (\<exists>b. ParseAddr (Fields l ! 0) = Some b \<and> a = Unmap b)"
  using assms ParseMAC_length [of "Fields l ! 3"]
  by (auto simp: arp_entry_def split: list.splits option.splits if_splits)

section \<open>Properties\<close>

text \<open>
  Property C31. The hosts, dnsmasq and ARP readers return, for every address, what the last
  line naming that address says, and nothing for an address no line names; lines that do
  not parse contribute nothing.
\<close>

theorem line_sources_last_wins:
  "map_of (fst (parseHosts r)) = map_of (rev (List.map_filter hosts_entry (fst (scan r)))) \<and>
   map_of (fst (parseDnsmasqLeases r)) = map_of (rev (List.map_filter dnsmasq_entry (fst (scan r)))) \<and>
   map_of (fst (readARP (\<lambda>_. Inr r) path)) =
     map_of (rev (List.map_filter arp_entry (drop 1 (fst (scan r)))))"
  by (simp add: parseHosts_def parseDnsmasqLeases_def readARP_def hosts.fold_lookup
    dnsmasq.fold_lookup arp.fold_lookup split: prod.splits)

text \<open>
  An address learned from the ARP table comes from a row below the header with
  parsable, non-zero flags, and its MAC is a whole hardware address that is not all zeros.
\<close>

theorem arp_rows_are_trusted:
  assumes "(a, i) \<in> set (fst (readARP fs path))"
  shows "di_name i = [] \<and> length (di_mac i) \<in> {6, 8, 20} \<and> \<not> isZeroMAC (di_mac i) \<and>
    (\<exists>rd l n b. fs path = Inr rd \<and> l \<in> set (drop 1 (fst (scan rd)))
       \<and> ParseUint16_32 (TrimPrefix (Fields l ! 2) ''0x'') = Some n \<and> n \<noteq> 0
       \<and> ParseAddr (Fields l ! 0) = Some b \<and> a = Unmap b)"
proof (cases "fs path")
  case (Inl e)
  with assms show ?thesis by (simp add: readARP_def)
next
  case (Inr rd)
  with assms obtain l where "l \<in> set (drop 1 (fst (scan rd)))" and "arp_entry l = Some (a, i)"
    using arp.fold_entries [of "(a, i)" _ "[]"] by (auto simp: readARP_def split: prod.splits)
  with arp_entryD [of l a i] Inr show ?thesis by blast
qed

definition arp_sample :: reader where
  "arp_sample =
     (''IP address HW type Flags HW address Mask Device'' @ [newline] @
      ''10.0.0.5 0x1 0x2 3c:22:fb:11:22:33 * br0'' @ [newline] @
      ''10.0.0.9 0x1 0x0 00:00:00:00:00:00 * br0'' @ [newline], None)"

theorem arp_rows_are_trusted_witness:
  "\<not> isZeroMAC [60, 34, 251, 17, 34, 51] \<and>
   (V4 167772165, \<lparr>di_name = [], di_mac = [60, 34, 251, 17, 34, 51]\<rparr>)
     \<in> set (fst (readARP (\<lambda>_. Inr arp_sample) ''/proc/net/arp''))"
proof -
  have "(V4 167772165, \<lparr>di_name = [], di_mac = [60, 34, 251, 17, 34, 51]\<rparr>)
     \<in> set (fst (readARP (\<lambda>_. Inr arp_sample) ''/proc/net/arp''))"
    by code_simp
  with arp_rows_are_trusted [OF this] show ?thesis by simp
qed

text \<open>
  Reading a file of lease blocks gives, for every address, the statements of
  the last block for it that says anything: the statements of a block are attributed to the
  address of that very block, and to nobody when the address does not parse.
\<close>

theorem dhcpd_blocks_attributed:
  assumes "list_all block_ok bs" and "fst (scan r) = concat (map block_lines bs)"
  shows "map_of (fst (parseDHCPDLeases r)) = map_of (rev (List.map_filter block_entry bs))"
proof -
  have "fst (parseDHCPDLeases r) = ds_out (fold dhcpd_line (concat (map block_lines bs)) dhcpd_start)"
    using assms(2) by (cases "scan r") (simp add: parseDHCPDLeases_def)
  then show ?thesis
    using dhcpd_blocks [OF assms(1), of dhcpd_start] by (simp add: dhcpd_start_def)
qed

definition lease_sample :: "block list" where
  "lease_sample =
     [(''lease 10.0.0.5 {'', [''  client-hostname laptop;'', ''  hardware ethernet 3c:22:fb:11:22:33;'']),
      (''lease nonsense {'', [''  client-hostname intruder;'']),
      (''lease 10.0.0.5 {'', [])]"

definition lease_text :: reader where
  "lease_text = (concat (map (\<lambda>l. l @ [newline]) (concat (map block_lines lease_sample))), None)"

lemma lease_sample_ok: "list_all block_ok lease_sample"
  by code_simp

lemma lease_sample_scan: "fst (scan lease_text) = concat (map block_lines lease_sample)"
  by code_simp

theorem dhcpd_blocks_attributed_witness:
  "map_of (fst (parseDHCPDLeases lease_text)) (V4 167772165) =
     Some \<lparr>di_name = ''laptop'', di_mac = [60, 34, 251, 17, 34, 51]\<rparr>"
proof -
  have "map_of (rev (List.map_filter block_entry lease_sample)) (V4 167772165) =
     Some \<lparr>di_name = ''laptop'', di_mac = [60, 34, 251, 17, 34, 51]\<rparr>"
    by code_simp
  then show ?thesis by (simp add: dhcpd_blocks_attributed [OF lease_sample_ok lease_sample_scan])
qed

text \<open>
  Once a lease header names an address that does not parse, no line up to the
  next lease header changes anything that was learned: an open block is abandoned rather
  than continued with somebody else's statements.
\<close>

theorem dhcpd_unparsable_header_closes:
  assumes "is_lease_header (clean_line h)" and "2 \<le> length (Fields (clean_line h))"
    and "ParseAddr (Fields (clean_line h) ! 1) = None"
    and "list_all (\<lambda>l. \<not> is_lease_header (clean_line l)) ls"
  shows "fold dhcpd_line (h # ls) s = s\<lparr>ds_inTag := False\<rparr>"
proof -
  have "dhcpd_line h s = s\<lparr>ds_inTag := False\<rparr>"
    using assms by (simp add: dhcpd_line_def Let_def)
  with assms(4) show ?thesis by (simp add: dhcpd_no_header_out)
qed

theorem dhcpd_unparsable_header_closes_witness:
  "fold dhcpd_line [''lease NOT-AN-IP {'', ''  client-hostname attacker;'', ''}'']
     (dhcpd_start\<lparr>ds_cur := V4 5, ds_inTag := True\<rparr>) = dhcpd_start\<lparr>ds_cur := V4 5\<rparr>"
proof -
  have "is_lease_header (clean_line ''lease NOT-AN-IP {'')"
    "2 \<le> length (Fields (clean_line ''lease NOT-AN-IP {''))"
    "ParseAddr (Fields (clean_line ''lease NOT-AN-IP {'') ! 1) = None"
    "list_all (\<lambda>l. \<not> is_lease_header (clean_line l)) [''  client-hostname attacker;'', ''}'']"
    by code_simp+
  from dhcpd_unparsable_header_closes [OF this] show ?thesis by (simp add: dhcpd_start_def)
qed

text \<open>
  A later lease block without a hostname and without a hardware address does
  not replace what an earlier block for the same address said.
\<close>

theorem dhcpd_empty_block_keeps_earlier:
  assumes "list_all block_ok (bs @ [b])" and "info_empty (block_info b)"
  shows "map_of (ds_out (fold dhcpd_line (concat (map block_lines (bs @ [b]))) dhcpd_start)) =
    map_of (ds_out (fold dhcpd_line (concat (map block_lines bs)) dhcpd_start))"
proof -
  have "block_entry b = None" using assms(2) by (simp add: block_entry_def split: option.splits)
  then have "List.map_filter block_entry (bs @ [b]) = List.map_filter block_entry bs"
    by (simp add: List.map_filter_def)
  moreover have "list_all block_ok bs" using assms(1) by simp
  ultimately show ?thesis
    using dhcpd_blocks [OF assms(1), of dhcpd_start] dhcpd_blocks [of bs dhcpd_start] by simp
qed

theorem dhcpd_empty_block_keeps_earlier_witness:
  "map_of (ds_out (fold dhcpd_line (concat (map block_lines lease_sample)) dhcpd_start)) (V4 167772165) =
     Some \<lparr>di_name = ''laptop'', di_mac = [60, 34, 251, 17, 34, 51]\<rparr>"
proof -
  have split: "butlast lease_sample @ [last lease_sample] = lease_sample"
    by (simp add: lease_sample_def)
  have "info_empty (block_info (last lease_sample))" by code_simp
  from dhcpd_empty_block_keeps_earlier [of "butlast lease_sample" "last lease_sample", unfolded split,
      OF lease_sample_ok this]
  have "map_of (ds_out (fold dhcpd_line (concat (map block_lines lease_sample)) dhcpd_start)) =
    map_of (ds_out (fold dhcpd_line (concat (map block_lines (butlast lease_sample))) dhcpd_start))" .
  moreover have "map_of (ds_out (fold dhcpd_line (concat (map block_lines (butlast lease_sample))) dhcpd_start))
      (V4 167772165) = Some \<lparr>di_name = ''laptop'', di_mac = [60, 34, 251, 17, 34, 51]\<rparr>"
    by code_simp
  ultimately show ?thesis by simp
qed

text \<open>
  Whatever a source file or the ARP table contains, its table has one entry
  per address and every address is in unmapped form, the form client addresses are looked
  up in.
\<close>

theorem source_tables_normal:
  "table_ok (fst (file_read fs f)) \<and> table_ok (fst (readARP fs path))"
  by (simp add: table_ok_file_read table_ok_readARP)

end
