(* ===== verification/Device.thy ===== *)
theory Device
  imports Sources Dns Table "HOL-Library.Multiset"
begin

unbundle bit_operations_syntax

text \<open>
  \<open>device.go\<close>: from a client address to the identity NextDNS attaches to a query. The
  static names, the tables learned from files and the ARP table, and the address-to-MAC
  bindings that outlive a refresh are the fields of \<open>deviceDB\<close>; \<open>lookup\<close> reads them and
  asks the discoverer last; \<open>refresh\<close> rebuilds them. The hash is the argument \<open>sum64\<close>
  (\<open>xxhash.Sum64\<close>), the discoverer a state-passing argument. Go iterates over maps in an
  unspecified order: \<open>visit i\<close> is the order of the \<open>i\<close>-th loop of a refresh and
  \<open>victim i\<close> chooses what its \<open>i\<close>-th eviction drops.
\<close>

section \<open>Client addresses and identities\<close>

definition clientAddr :: "string \<Rightarrow> addr option" where
  "clientAddr ip = map_option (\<lambda>a. WithZone [] (Unmap a)) (ParseAddr ip)"

record ClientInfo =
  ci_ID :: string
  ci_IP :: string
  ci_Name :: string
  ci_Model :: string

definition no_client :: ClientInfo where
  "no_client = \<lparr>ci_ID = [], ci_IP = [], ci_Name = [], ci_Model = []\<rparr>"

type_synonym header = "(string, string) gomap"

definition set_header :: "string \<Rightarrow> string \<Rightarrow> header \<Rightarrow> header" where
  "set_header k v h = (if v \<noteq> [] then AList.update k v h else h)"

definition setHeaders :: "ClientInfo \<Rightarrow> header \<Rightarrow> header" where
  "setHeaders ci h =
     (let h = set_header ''X-Device-Id'' (ci_ID ci) h;
          h = set_header ''X-Device-Ip'' (ci_IP ci) h;
          h = set_header ''X-Device-Model'' (ci_Model ci) h
      in set_header ''X-Device-Name'' (ci_Name ci) h)"

datatype idMode = IdAuto | IdIP | IdMAC | IdNone

datatype mode_error = UnknownMode string

definition parseIDMode :: "string \<Rightarrow> mode_error + idMode" where
  "parseIDMode s =
     (if s = ''auto'' then Inr IdAuto
      else if s = ''ip'' then Inr IdIP
      else if s = ''mac'' then Inr IdMAC
      else if s = ''none'' then Inr IdNone
      else Inl (UnknownMode s))"

section \<open>Device IDs\<close>

definition to_upper :: "char \<Rightarrow> char" where
  "to_upper c = (if ord CHR ''a'' \<le> ord c then char_of (ord c XOR 32) else c)"

definition shortID :: "(bytes \<Rightarrow> u64) \<Rightarrow> string \<Rightarrow> bytes \<Rightarrow> string" where
  "shortID sum64 profile key =
     (if key = [] then []
      else
        let sum = sum64 (bytes_of profile @ key);
            buf = to_base 32 (uint sum);
            buf = (if length buf < 5 then replicate (5 - length buf) CHR ''0'' @ buf else take 5 buf)
        in map to_upper buf)"

definition deviceID :: "(bytes \<Rightarrow> u64) \<Rightarrow> idMode \<Rightarrow> string \<Rightarrow> addr \<Rightarrow> bytes \<Rightarrow> string" where
  "deviceID sum64 mode profile a mac =
     (case mode of
        IdNone \<Rightarrow> []
      | IdIP \<Rightarrow> shortID sum64 profile (AsSlice a)
      | IdMAC \<Rightarrow> if length mac = 0 then [] else shortID sum64 profile mac
      | IdAuto \<Rightarrow> if 0 < length mac then shortID sum64 profile mac
                  else shortID sum64 profile (AsSlice a))"

section \<open>Device names\<close>

definition maxNameLen :: nat where
  "maxNameLen = 63"

definition name_rune :: "int \<Rightarrow> bool" where
  "name_rune r \<longleftrightarrow> (97 \<le> r \<and> r \<le> 122) \<or> (65 \<le> r \<and> r \<le> 90) \<or> (48 \<le> r \<and> r \<le> 57)"

text \<open>The loop of \<open>normalizeName\<close>: the runes left, the bytes written, the flag \<open>dash\<close>.\<close>

fun name_loop :: "(int \<times> string) list \<Rightarrow> string \<Rightarrow> bool \<Rightarrow> string" where
  "name_loop [] b dash = b"
| "name_loop ((r, _) # cs) b dash =
     (let (b, dash) =
            (if name_rune r then (b @ [char_of r], False)
             else if \<not> dash \<and> 0 < length b then (b @ [CHR ''-''], True)
             else (b, dash))
      in if maxNameLen \<le> length b then b else name_loop cs b dash)"

definition first_label :: "string \<Rightarrow> string" where
  "first_label name =
     (let i = IndexByte name CHR ''.'' in if 0 < i then take (nat i) name else name)"

definition normalizeName :: "string \<Rightarrow> string" where
  "normalizeName name =
     (if name = [] then []
      else TrimRight (name_loop (chunks (first_label name)) [] False) CHR ''-'')"

section \<open>The device table\<close>

definition defaultReload :: duration where "defaultReload = 30 * second"
definition defaultARPPath :: string where "defaultARPPath = ''/proc/net/arp''"
definition maxBindings :: int where "maxBindings = 8192"

record deviceDB =
  db_mode :: idMode
  db_model :: string
  db_sendIP :: bool
  db_reload :: duration
  db_arpPath :: string
  db_useARP :: bool
  db_arpLastErr :: string
  db_maxBindings :: int
  db_static :: "(addr, string) gomap"
  db_files :: "deviceFile list"
  db_learned :: device_table
  db_bindings :: "(addr, bytes) gomap"

definition newDeviceDB :: deviceDB where
  "newDeviceDB =
     \<lparr>db_mode = IdAuto, db_model = [], db_sendIP = True, db_reload = defaultReload,
      db_arpPath = defaultARPPath, db_useARP = False, db_arpLastErr = [],
      db_maxBindings = maxBindings, db_static = [], db_files = [],
      db_learned = [], db_bindings = []\<rparr>"

text \<open>A map read yields the zero value for an absent key.\<close>

definition learned_at :: "deviceDB \<Rightarrow> addr \<Rightarrow> deviceInfo" where
  "learned_at db a = (case map_of (db_learned db) a of None \<Rightarrow> no_info | Some i \<Rightarrow> i)"

definition binding_at :: "deviceDB \<Rightarrow> addr \<Rightarrow> bytes" where
  "binding_at db a = (case map_of (db_bindings db) a of None \<Rightarrow> [] | Some m \<Rightarrow> m)"

definition known_mac :: "deviceDB \<Rightarrow> addr \<Rightarrow> bytes" where
  "known_mac db a =
     (if length (di_mac (learned_at db a)) = 0 then binding_at db a else di_mac (learned_at db a))"

definition known_name :: "deviceDB \<Rightarrow> addr \<Rightarrow> string" where
  "known_name db a =
     (case map_of (db_static db) a of Some n \<Rightarrow> n | None \<Rightarrow> di_name (learned_at db a))"

definition device_model :: "deviceDB \<Rightarrow> bytes \<Rightarrow> string" where
  "device_model db mac =
     (let model = (if 6 \<le> length mac then ''mac:'' @ take 8 (mac_String mac) else [])
      in if db_model db \<noteq> [] then db_model db else model)"

text \<open>
  \<open>lookup\<close> with the discoverer as a state-passing function: it is asked for the name only
  when neither the configuration nor a source knows one.
\<close>

definition lookup ::
  "(bytes \<Rightarrow> u64) \<Rightarrow> (addr \<Rightarrow> 'd \<Rightarrow> string \<times> 'd) \<Rightarrow> deviceDB \<Rightarrow> request \<Rightarrow> string \<Rightarrow> 'd
     \<Rightarrow> ClientInfo \<times> 'd" where
  "lookup sum64 discover db st profile d =
     (case clientAddr (rq_ip st) of
        None \<Rightarrow> (no_client, d)
      | Some a \<Rightarrow>
          let mac = known_mac db a;
              (name, d) = (if known_name db a = [] then discover a d else (known_name db a, d))
          in (\<lparr>ci_ID = deviceID sum64 (db_mode db) profile a mac,
               ci_IP = (if db_sendIP db then addr_String a else []),
               ci_Name = normalizeName name,
               ci_Model = device_model db mac\<rparr>, d))"

section \<open>Refreshing\<close>

datatype log_line = LogWarning string string | LogInfo string

definition logChanged :: "string \<Rightarrow> string option \<Rightarrow> string \<Rightarrow> bool \<times> string \<times> log_line list" where
  "logChanged prev err source =
     (let cur = (case err of None \<Rightarrow> [] | Some e \<Rightarrow> e) in
      if cur = prev then (err \<noteq> None, prev, [])
      else (err \<noteq> None, cur,
            case err of Some e \<Rightarrow> [LogWarning source e] | None \<Rightarrow> [LogInfo source]))"

definition merge :: "device_table \<Rightarrow> addr \<Rightarrow> deviceInfo \<Rightarrow> device_table" where
  "merge m a info =
     (let cur = (case map_of m a of None \<Rightarrow> no_info | Some i \<Rightarrow> i);
          cur = (if di_name info \<noteq> [] then cur\<lparr>di_name := di_name info\<rparr> else cur);
          cur = (if 0 < length (di_mac info) then cur\<lparr>di_mac := di_mac info\<rparr> else cur)
      in AList.update a cur m)"

definition merge_all :: "device_table \<Rightarrow> device_table \<Rightarrow> device_table" where
  "merge_all entries m = fold (\<lambda>(a, i) m. merge m a i) entries m"

fun read_files ::
  "(nat \<Rightarrow> device_table \<Rightarrow> device_table) \<Rightarrow> file_system \<Rightarrow> nat \<Rightarrow> deviceFile list \<Rightarrow> device_table
     \<Rightarrow> deviceFile list \<times> device_table \<times> log_line list" where
  "read_files visit fs i [] learned = ([], learned, [])"
| "read_files visit fs i (f # files) learned =
     (let (entries, err) = file_read fs f;
          (failed, prev, lg) = logChanged (df_lastErr f) err (''device source '' @ df_path f);
          learned = (if failed then learned else merge_all (visit i entries) learned);
          (files, learned, lgs) = read_files visit fs (Suc i) files learned
      in (f\<lparr>df_lastErr := prev\<rparr> # files, learned, lg @ lgs))"

definition bind_mac ::
  "nat \<Rightarrow> int \<Rightarrow> addr \<Rightarrow> bytes \<Rightarrow> (addr, bytes) gomap \<Rightarrow> (addr, bytes) gomap" where
  "bind_mac c limit a mac b =
     (let known = (map_of b a \<noteq> None)
      in AList.update a mac (make_room c (\<not> known \<and> limit \<le> int (length b)) b))"

fun remember ::
  "(nat \<Rightarrow> nat) \<Rightarrow> int \<Rightarrow> nat \<Rightarrow> device_table \<Rightarrow> (addr, bytes) gomap \<Rightarrow> (addr, bytes) gomap" where
  "remember victim limit i [] b = b"
| "remember victim limit i ((a, info) # es) b =
     (if length (di_mac info) = 0 then remember victim limit i es b
      else remember victim limit (Suc i) es (bind_mac (victim i) limit a (di_mac info) b))"

text \<open>The new state, the log lines, and the value written to the \<open>devices_known\<close> gauge.\<close>

definition refresh ::
  "(nat \<Rightarrow> device_table \<Rightarrow> device_table) \<Rightarrow> (nat \<Rightarrow> nat) \<Rightarrow> file_system \<Rightarrow> deviceDB
     \<Rightarrow> deviceDB \<times> log_line list \<times> int" where
  "refresh visit victim fs db =
     (let (files, learned, lgs) = read_files visit fs 0 (db_files db) [];
          n = length (db_files db);
          (learned, prev, lgs) =
            (if db_useARP db then
               let (entries, err) = readARP fs (db_arpPath db);
                   (_, prev, lg) = logChanged (db_arpLastErr db) err (''ARP table '' @ db_arpPath db)
               in (merge_all (visit n entries) learned, prev, lgs @ lg)
             else (learned, db_arpLastErr db, lgs));
          bindings = remember victim (db_maxBindings db) 0 (visit (Suc n) learned) (db_bindings db)
      in (db\<lparr>db_files := files, db_learned := learned, db_arpLastErr := prev, db_bindings := bindings\<rparr>,
          lgs, int (length learned)))"

text \<open>\<open>start\<close> refreshes once, unless there is nothing to read; each tick refreshes again.\<close>

definition has_source :: "deviceDB \<Rightarrow> bool" where
  "has_source db \<longleftrightarrow> \<not> (length (db_files db) = 0 \<and> \<not> db_useARP db)"

definition start ::
  "(nat \<Rightarrow> device_table \<Rightarrow> device_table) \<Rightarrow> (nat \<Rightarrow> nat) \<Rightarrow> file_system \<Rightarrow> deviceDB \<Rightarrow> deviceDB" where
  "start visit victim fs db = (if has_source db then fst (refresh visit victim fs db) else db)"

section \<open>Names are clean\<close>

definition no_double_dash :: "string \<Rightarrow> bool" where
  "no_double_dash s = successively (\<lambda>a b. \<not> (a = CHR ''-'' \<and> b = CHR ''-'')) s"

definition label_char :: "char \<Rightarrow> bool" where
  "label_char c \<longleftrightarrow> is_alnum c \<or> c = CHR ''-''"

definition clean_name :: "string \<Rightarrow> bool" where
  "clean_name s \<longleftrightarrow> list_all label_char s \<and> length s \<le> maxNameLen \<and> no_double_dash s
     \<and> (s = [] \<or> hd s \<noteq> CHR ''-'' \<and> last s \<noteq> CHR ''-'')"

definition loop_ok :: "string \<Rightarrow> bool \<Rightarrow> bool" where
  "loop_ok b dash \<longleftrightarrow> list_all label_char b \<and> length b \<le> maxNameLen \<and> no_double_dash b
     \<and> (b = [] \<or> hd b \<noteq> CHR ''-'') \<and> (dash \<longleftrightarrow> b \<noteq> [] \<and> last b = CHR ''-'')"

lemma dash_not_rune: "\<not> name_rune (ord CHR ''-'')"
  by (simp add: name_rune_def)

lemma alnum_name_rune: "name_rune r \<Longrightarrow> is_alnum (char_of r) \<and> char_of r \<noteq> CHR ''-''"
proof -
  assume r: "name_rune r"
  then have "ord (char_of r) = r"
    by (intro ord_char_of_int) (auto simp: name_rune_def)
  moreover from this have "char_of r \<noteq> CHR ''-''"
    using r dash_not_rune by metis
  ultimately show ?thesis
    using r by (simp add: is_alnum_def is_lower_def is_upper_def is_digit_def name_rune_def)
qed

lemma no_double_dash_snoc:
  "no_double_dash (b @ [c]) \<longleftrightarrow> no_double_dash b \<and> (b = [] \<or> \<not> (last b = CHR ''-'' \<and> c = CHR ''-''))"
  by (auto simp: no_double_dash_def successively_append_iff)

lemma no_double_dash_single [simp]: "no_double_dash [c]" "no_double_dash []"
  by (simp_all add: no_double_dash_def)

lemma loop_ok_alnum:
  "loop_ok b dash \<Longrightarrow> length b < maxNameLen \<Longrightarrow> is_alnum c \<Longrightarrow> c \<noteq> CHR ''-'' \<Longrightarrow> loop_ok (b @ [c]) False"
  by (auto simp: loop_ok_def label_char_def no_double_dash_snoc hd_append)

lemma loop_ok_dash:
  "loop_ok b False \<Longrightarrow> b \<noteq> [] \<Longrightarrow> length b < maxNameLen \<Longrightarrow> loop_ok (b @ [CHR ''-'']) True"
  by (auto simp: loop_ok_def label_char_def no_double_dash_snoc hd_append)

lemma name_loop_ok:
  "loop_ok b dash \<Longrightarrow> length b < maxNameLen \<Longrightarrow> \<exists>d. loop_ok (name_loop cs b dash) d"
proof (induction cs b dash rule: name_loop.induct)
  case (1 b dash)
  then show ?case by auto
next
  case (2 r x cs b dash)
  consider "name_rune r" | "\<not> name_rune r" "\<not> dash" "b \<noteq> []" | "\<not> name_rune r" "dash \<or> b = []"
    by blast
  then show ?case
  proof cases
    case 1
    with 2 alnum_name_rune [of r] have "loop_ok (b @ [char_of r]) False" by (intro loop_ok_alnum) auto
    with 1 "2.IH" show ?thesis by (auto simp: not_le)
  next
    case 2
    with "2.prems" have "loop_ok (b @ [CHR ''-'']) True" by (intro loop_ok_dash) auto
    with 2 "2.IH" show ?thesis by (auto simp: not_le)
  next
    case 3
    with 2 show ?thesis by (auto simp: not_le)
  qed
qed

lemma TrimRight_prefix: "\<exists>r. s = TrimRight s c @ r \<and> set r \<subseteq> {c}"
proof -
  have "s = rev (dropWhile (\<lambda>x. x = c) (rev s)) @ rev (takeWhile (\<lambda>x. x = c) (rev s))"
    by (metis rev_append rev_rev_ident takeWhile_dropWhile_id)
  then show ?thesis unfolding TrimRight_def
    by (metis (mono_tags, lifting) set_rev set_takeWhileD singleton_iff subsetI)
qed

lemma clean_TrimRight: "loop_ok b d \<Longrightarrow> clean_name (TrimRight b CHR ''-'')"
proof -
  assume ok: "loop_ok b d"
  let ?t = "TrimRight b CHR ''-''"
  obtain r where r: "b = ?t @ r" using TrimRight_prefix by blast
  then have "no_double_dash ?t" and "hd ?t = hd b \<or> ?t = []"
    using ok by (metis loop_ok_def no_double_dash_def successively_append_iff, metis hd_append)
  moreover have "list_all label_char ?t" and "length ?t \<le> maxNameLen"
    using ok r by (metis list_all_append loop_ok_def, metis length_TrimRight le_trans loop_ok_def)
  moreover have "?t \<noteq> [] \<Longrightarrow> b \<noteq> []" using r by auto
  ultimately show ?thesis
    using ok TrimRight_last [of b "CHR ''-''"] by (auto simp: clean_name_def loop_ok_def)
qed

lemma loop_ok_Nil: "loop_ok [] False"
  by (simp add: loop_ok_def no_double_dash_def)

lemma clean_normalizeName: "clean_name (normalizeName name)"
proof (cases "name = []")
  case True
  then show ?thesis by (simp add: normalizeName_def clean_name_def no_double_dash_def)
next
  case False
  obtain d where "loop_ok (name_loop (chunks (first_label name)) [] False) d"
    using name_loop_ok [OF loop_ok_Nil, of "chunks (first_label name)"] by (auto simp: maxNameLen_def)
  with False show ?thesis by (simp add: normalizeName_def clean_TrimRight)
qed

lemma label_char_ascii: "label_char c \<Longrightarrow> ord c < 128"
  by (auto simp: label_char_def is_alnum_def is_lower_def is_upper_def is_digit_def)

lemma name_rune_ord: "label_char c \<Longrightarrow> name_rune (ord c) \<longleftrightarrow> c \<noteq> CHR ''-''"
  by (auto simp: label_char_def is_alnum_def is_lower_def is_upper_def is_digit_def name_rune_def)

lemma name_loop_clean:
  assumes "list_all label_char s" and "length (b @ s) \<le> maxNameLen" and "no_double_dash (b @ s)"
    and "b @ s = [] \<or> hd (b @ s) \<noteq> CHR ''-''" and "dash \<longleftrightarrow> b \<noteq> [] \<and> last b = CHR ''-''"
  shows "name_loop (chunks s) b dash = b @ s"
  using assms
proof (induction s arbitrary: b dash)
  case Nil
  then show ?case by simp
next
  case (Cons c s)
  then have c: "label_char c" by simp
  have "no_double_dash ((b @ [c]) @ s)" using Cons.prems(3) by simp
  then have "b = [] \<or> \<not> (last b = CHR ''-'' \<and> c = CHR ''-'')"
    by (metis no_double_dash_def no_double_dash_snoc successively_append_iff)
  moreover have "b = [] \<Longrightarrow> c \<noteq> CHR ''-''" using Cons.prems(4) by simp
  ultimately have step: "name_loop (chunks (c # s)) b dash =
      (if maxNameLen \<le> length (b @ [c]) then b @ [c]
       else name_loop (chunks s) (b @ [c]) (c = CHR ''-''))"
    using Cons.prems(5) name_rune_ord [OF c] label_char_ascii [OF c]
    by (auto simp: chunks_ascii_Cons Let_def simp del: chunks.simps)
  show ?case
  proof (cases "maxNameLen \<le> length (b @ [c])")
    case True
    with Cons.prems(2) have "length s = 0" by (simp del: length_0_conv)
    then have "s = []" by simp
    with True step show ?thesis by simp
  next
    case False
    have "name_loop (chunks s) (b @ [c]) (c = CHR ''-'') = (b @ [c]) @ s"
      using Cons.prems by (intro Cons.IH) auto
    with False step show ?thesis by simp
  qed
qed

lemma normalizeName_clean:
  assumes "clean_name s"
  shows "normalizeName s = s"
proof (cases "s = []")
  case True
  then show ?thesis by (simp add: normalizeName_def)
next
  case False
  have "CHR ''.'' \<notin> set s"
    using assms by (auto simp: clean_name_def list_all_iff label_char_def is_alnum_def is_lower_def
      is_upper_def is_digit_def)
  then have "first_label s = s" by (simp add: first_label_def IndexByte_def)
  moreover have "name_loop (chunks s) [] False = [] @ s"
    by (rule name_loop_clean) (use assms in \<open>auto simp: clean_name_def\<close>)
  moreover have "TrimRight s CHR ''-'' = s"
    using assms False by (cases s rule: rev_cases) (auto simp: TrimRight_def clean_name_def)
  ultimately show ?thesis using False by (simp add: normalizeName_def)
qed

section \<open>IDs\<close>

definition id_char :: "char \<Rightarrow> bool" where
  "id_char c \<longleftrightarrow> is_digit c \<or> 65 \<le> ord c \<and> ord c \<le> 86"

lemma id_char_digit: "0 \<le> d \<Longrightarrow> d < 32 \<Longrightarrow> id_char (to_upper (digit_char d))"
proof -
  have "list_all (\<lambda>d. id_char (to_upper (digit_char d))) [0..31]" by code_simp
  then show "0 \<le> d \<Longrightarrow> d < 32 \<Longrightarrow> id_char (to_upper (digit_char d))"
    by (simp add: list_all_iff)
qed

lemma shortID_shape:
  assumes "key \<noteq> []"
  shows "length (shortID h p key) = 5 \<and> list_all id_char (shortID h p key)"
proof -
  let ?n = "uint (h (bytes_of p @ key))"
  have dig: "id_char (to_upper c)" if "c \<in> set (to_base 32 ?n)" for c
    using to_base_chars [OF _ _ that] id_char_digit by auto
  have zero: "id_char (to_upper CHR ''0'')"
    by (simp add: to_upper_def id_char_def is_digit_def)
  show ?thesis
    using assms dig zero by (auto simp: shortID_def Let_def list_all_iff dest: in_set_takeD)
qed

lemma id_char_alnum: "id_char c \<Longrightarrow> is_alnum c"
  by (auto simp: id_char_def is_alnum_def is_upper_def)

lemma deviceID_chars: "c \<in> set (deviceID h mode p a mac) \<Longrightarrow> is_alnum c"
proof -
  have "c \<in> set (shortID h p key) \<Longrightarrow> is_alnum c" for key
    using shortID_shape [of key h p] id_char_alnum
    by (cases "key = []") (auto simp: shortID_def list_all_iff)
  then show "c \<in> set (deviceID h mode p a mac) \<Longrightarrow> is_alnum c"
    by (auto simp: deviceID_def split: idMode.splits if_splits)
qed

section \<open>Merging the sources\<close>

text \<open>
  The tables a refresh merges, in the order of the code: the files that could be read, then
  the ARP table, whose rows count even when its scan ended in an error.
\<close>

definition source_tables :: "file_system \<Rightarrow> deviceDB \<Rightarrow> device_table list" where
  "source_tables fs db =
     map (\<lambda>f. fst (file_read fs f)) (filter (\<lambda>f. snd (file_read fs f) = None) (db_files db))
     @ (if db_useARP db then [fst (readARP fs (db_arpPath db))] else [])"

definition info_at :: "device_table \<Rightarrow> addr \<Rightarrow> deviceInfo" where
  "info_at t a = (case map_of t a of None \<Rightarrow> no_info | Some i \<Rightarrow> i)"

definition last_known :: "'a list list \<Rightarrow> 'a list" where
  "last_known xs = (case filter (\<lambda>x. x \<noteq> []) xs of [] \<Rightarrow> [] | ys \<Rightarrow> last ys)"

text \<open>What the sources say about an address: the last name and the last MAC address given.\<close>

definition sources_say :: "device_table list \<Rightarrow> addr \<Rightarrow> deviceInfo" where
  "sources_say ts a =
     \<lparr>di_name = last_known (map (\<lambda>t. di_name (info_at t a)) ts),
      di_mac = last_known (map (\<lambda>t. di_mac (info_at t a)) ts)\<rparr>"

definition visits :: "(nat \<Rightarrow> device_table \<Rightarrow> device_table) \<Rightarrow> bool" where
  "visits visit \<longleftrightarrow> (\<forall>i m. mset (visit i m) = mset m)"

lemma last_known_snoc: "last_known (xs @ [x]) = (if x = [] then last_known xs else x)"
proof -
  have alt: "last_known ys = (if filter (\<lambda>x. x \<noteq> []) ys = [] then [] else last (filter (\<lambda>x. x \<noteq> []) ys))"
    for ys :: "'a list list"
    by (simp add: last_known_def split: list.splits)
  show ?thesis by (simp add: alt)
qed

lemma sources_say_snoc:
  "sources_say (ts @ [t]) a =
     \<lparr>di_name = (if di_name (info_at t a) = [] then di_name (sources_say ts a) else di_name (info_at t a)),
      di_mac = (if di_mac (info_at t a) = [] then di_mac (sources_say ts a) else di_mac (info_at t a))\<rparr>"
  by (simp add: sources_say_def last_known_snoc)

lemma sources_say_Nil [simp]: "sources_say [] a = no_info"
  by (simp add: sources_say_def last_known_def no_info_def)

lemma info_at_merge:
  "info_at (merge m a i) b =
     (if b = a then \<lparr>di_name = (if di_name i = [] then di_name (info_at m a) else di_name i),
                     di_mac = (if di_mac i = [] then di_mac (info_at m a) else di_mac i)\<rparr>
      else info_at m b)"
  by (auto simp: info_at_def merge_def Let_def split: option.splits)

lemma wf_merge_all: "wf_map m \<Longrightarrow> wf_map (merge_all es m)"
  by (induction es arbitrary: m) (auto simp: merge_all_def merge_def Let_def)

lemma keys_merge_all: "fst ` set (merge_all es m) = fst ` set es \<union> fst ` set m"
proof (induction es arbitrary: m)
  case Nil
  then show ?case by (simp add: merge_all_def)
next
  case (Cons e es)
  obtain a i where e: "e = (a, i)" by (cases e)
  have "fst ` set (merge m a i) = insert a (fst ` set m)"
    by (simp add: merge_def Let_def dom_update)
  moreover have "merge_all (e # es) m = merge_all es (merge m a i)"
    by (simp add: merge_all_def e)
  ultimately show ?case using Cons.IH [of "merge m a i"] by (simp add: e)
qed

lemma info_at_absent: "a \<notin> fst ` set t \<Longrightarrow> info_at t a = no_info"
  by (simp add: info_at_def map_of_eq_None_iff [THEN iffD2])

lemma info_at_Cons: "info_at ((b, i) # es) a = (if a = b then i else info_at es a)"
  by (simp add: info_at_def)

lemma info_at_merge_all:
  assumes "wf_map es"
  shows "info_at (merge_all es m) b =
     \<lparr>di_name = (if di_name (info_at es b) = [] then di_name (info_at m b) else di_name (info_at es b)),
      di_mac = (if di_mac (info_at es b) = [] then di_mac (info_at m b) else di_mac (info_at es b))\<rparr>"
  using assms
proof (induction es arbitrary: m)
  case Nil
  then show ?case by (simp add: merge_all_def info_at_def no_info_def)
next
  case (Cons e es)
  obtain a i where e: "e = (a, i)" by (cases e)
  with Cons.prems have wf: "wf_map es" and a: "info_at es a = no_info"
    by (auto simp: wf_map_def info_at_absent)
  have "merge_all (e # es) m = merge_all es (merge m a i)" by (simp add: merge_all_def e)
  moreover have "info_at (e # es) b = (if b = a then i else info_at es b)"
    by (simp add: e info_at_Cons)
  ultimately show ?case
    using Cons.IH [OF wf] a by (auto simp: info_at_merge no_info_def)
qed

lemma visits_set: "visits visit \<Longrightarrow> set (visit i m) = set m"
  by (metis set_mset_mset visits_def)

lemma visits_wf: "visits visit \<Longrightarrow> wf_map m \<Longrightarrow> wf_map (visit i m)"
  unfolding wf_map_def visits_def by (metis mset_eq_imp_distinct_iff mset_map)

lemma visits_map_of: "visits visit \<Longrightarrow> wf_map m \<Longrightarrow> map_of (visit i m) = map_of m"
  using visits_set visits_wf unfolding wf_map_def by (metis map_of_inject_set)

lemma visits_info_at: "visits visit \<Longrightarrow> wf_map m \<Longrightarrow> info_at (visit i m) = info_at m"
  by (simp add: info_at_def visits_map_of fun_eq_iff)

text \<open>The table a refresh has merged so far: what the sources read so far say.\<close>

definition merged :: "device_table list \<Rightarrow> device_table \<Rightarrow> bool" where
  "merged ts m \<longleftrightarrow> wf_map m \<and> (\<forall>a. info_at m a = sources_say ts a)
     \<and> fst ` set m = (\<Union>t\<in>set ts. fst ` set t)"

lemma merged_step:
  assumes "merged ts m" and "wf_map t" and "visits visit"
  shows "merged (ts @ [t]) (merge_all (visit i t) m)"
  using assms info_at_merge_all [of "visit i t" m] visits_wf [of visit t i]
  by (auto simp: merged_def wf_merge_all sources_say_snoc visits_info_at keys_merge_all visits_set)

lemma logChanged_failed: "fst (logChanged prev err src) \<longleftrightarrow> err \<noteq> None"
  by (simp add: logChanged_def Let_def)

lemma table_ok_wf: "table_ok t \<Longrightarrow> wf_map t"
  by (simp add: table_ok_def)

lemma merged_read_files:
  assumes "merged ts m" and "visits visit"
  shows "merged (ts @ map (\<lambda>f. fst (file_read fs f)) (filter (\<lambda>f. snd (file_read fs f) = None) files))
    (fst (snd (read_files visit fs i files m)))"
  using assms
proof (induction files arbitrary: i m ts)
  case Nil
  then show ?case by simp
next
  case (Cons f files)
  obtain es err where r: "file_read fs f = (es, err)" by (cases "file_read fs f")
  obtain failed prev lg where l: "logChanged (df_lastErr f) err (''device source '' @ df_path f) = (failed, prev, lg)"
    by (metis surj_pair)
  then have failed: "failed \<longleftrightarrow> err \<noteq> None" using logChanged_failed by (metis fst_conv)
  have wf: "wf_map es" using table_ok_file_read [of fs f] r by (simp add: table_ok_wf)
  show ?case
  proof (cases "err = None")
    case True
    with failed r l have "fst (snd (read_files visit fs i (f # files) m))
        = fst (snd (read_files visit fs (Suc i) files (merge_all (visit i es) m)))"
      by (simp split: prod.splits)
    with True r Cons.IH [OF merged_step [OF Cons.prems(1) wf Cons.prems(2)] Cons.prems(2)]
    show ?thesis by simp
  next
    case False
    then obtain e where e: "err = Some e" by blast
    from False failed r l have "fst (snd (read_files visit fs i (f # files) m))
        = fst (snd (read_files visit fs (Suc i) files m))"
      by (simp split: prod.splits)
    with e r Cons.IH [OF Cons.prems] show ?thesis by simp
  qed
qed

lemma merged_refresh:
  assumes "visits visit"
  shows "merged (source_tables fs db) (db_learned (fst (refresh visit victim fs db)))"
proof -
  have "merged [] []" by (simp add: merged_def info_at_def)
  from merged_read_files [OF this assms, of fs "db_files db" 0]
  have files: "merged (map (\<lambda>f. fst (file_read fs f)) (filter (\<lambda>f. snd (file_read fs f) = None) (db_files db)))
      (fst (snd (read_files visit fs 0 (db_files db) [])))" by simp
  show ?thesis
    using files merged_step [OF files table_ok_wf [OF table_ok_readARP [of fs "db_arpPath db"]] assms]
    by (auto simp: refresh_def source_tables_def Let_def split: prod.splits)
qed

section \<open>Remembered bindings\<close>

text \<open>A binding table with its limit, as an instance of the bounded tables.\<close>

definition bind_insert ::
  "nat \<Rightarrow> addr \<Rightarrow> bytes \<Rightarrow> int \<times> (addr, bytes) gomap \<Rightarrow> int \<times> (addr, bytes) gomap" where
  "bind_insert c a mac t = (fst t, bind_mac c (fst t) a mac (snd t))"

definition bind_ok :: "int \<times> (addr, bytes) gomap \<Rightarrow> bool" where
  "bind_ok t \<longleftrightarrow> wf_map (snd t) \<and> 0 < fst t"

lemma length_bind_mac_new:
  assumes "wf_map b" and "0 < limit" and "map_of b a = None"
  shows "length (bind_mac c limit a mac b) = (if limit \<le> int (length b) then length b else Suc (length b))"
  using length_update_make_room_new [OF assms(1,3), of "limit \<le> int (length b)" "nat limit"] assms
  by (simp add: bind_mac_def nat_le_iff)

lemma length_bind_mac_old:
  "map_of b a \<noteq> None \<Longrightarrow> length (bind_mac c limit a mac b) = length b"
  by (simp add: bind_mac_def make_room_def length_update_old)

interpretation bind_table: bounded_table
  "\<lambda>t. map_of (snd t)" bind_insert bind_ok "\<lambda>t. length (snd t)" "\<lambda>t. nat (fst t)"
proof (unfold_locales, goal_cases)
  case (1 t c k x)
  then show ?case by (simp add: bind_ok_def bind_insert_def bind_mac_def)
next
  case (2 t c k x)
  then show ?case by (simp add: bind_insert_def bind_mac_def)
next
  case (3 t k' k c x)
  then show ?case using update_make_room_other [of k' k x c] by (simp add: bind_insert_def bind_mac_def)
next
  case (4 c k x t)
  then show ?case by (simp add: bind_insert_def)
next
  case (5 t)
  then show ?case by (simp add: bind_ok_def)
next
  case (6 t k c x)
  then show ?case by (simp add: bind_insert_def length_bind_mac_old)
next
  case (7 t k c x)
  then show ?case by (simp add: bind_insert_def bind_ok_def length_bind_mac_new)
next
  case (8 t k c x)
  then show ?case by (simp add: bind_insert_def bind_ok_def length_bind_mac_new)
qed

lemma bind_insert_pair [simp]: "bind_insert c a m (l, b) = (l, bind_mac c l a m b)"
  by (simp add: bind_insert_def)

text \<open>The insertions the loop of a refresh makes.\<close>

fun mac_history :: "(nat \<Rightarrow> nat) \<Rightarrow> nat \<Rightarrow> device_table \<Rightarrow> (nat \<times> addr \<times> bytes) list" where
  "mac_history victim i [] = []"
| "mac_history victim i ((a, info) # es) =
     (if di_mac info = [] then mac_history victim i es
      else (victim i, a, di_mac info) # mac_history victim (Suc i) es)"

lemma remember_inserts:
  "(limit, remember victim limit i es b) = bind_table.inserts (mac_history victim i es) (limit, b)"
  by (induction victim limit i es b rule: remember.induct) (simp_all add: bind_insert_pair)

lemma last_under_absent:
  "a \<notin> fst ` set es \<Longrightarrow> bind_table.last_under a (mac_history victim i es) x = x"
  by (induction victim i es rule: mac_history.induct) auto

lemma last_under_mac_history:
  "wf_map es \<Longrightarrow> bind_table.last_under a (mac_history victim i es) x =
     (if di_mac (info_at es a) = [] then x else Some (di_mac (info_at es a)))"
proof (induction victim i es arbitrary: x rule: mac_history.induct)
  case (1 victim i)
  then show ?case by (simp add: info_at_def no_info_def)
next
  case (2 victim i b info es)
  then have wf: "wf_map es" and b: "b \<notin> fst ` set es" by (auto simp: wf_map_def)
  show ?case
    using 2(1) [OF _ wf] 2(2) [OF _ wf] last_under_absent [OF b] info_at_absent [OF b]
    by (cases "a = b") (simp_all add: info_at_Cons no_info_def)
qed

lemma remember_lookup:
  assumes "wf_map b" and "0 < limit" and "wf_map es"
  shows "map_of (remember victim limit i es b) a \<in>
    {None, if di_mac (info_at es a) = [] then map_of b a else Some (di_mac (info_at es a))}"
proof -
  have "bind_ok (limit, b)" using assms by (simp add: bind_ok_def)
  then have "map_of (snd (bind_table.inserts (mac_history victim i es) (limit, b))) a
      \<in> {None, bind_table.last_under a (mac_history victim i es) (map_of b a)}"
    by (intro bind_table.lookup_inserts) simp_all
  then show ?thesis
    using assms(3) by (simp add: remember_inserts [symmetric] last_under_mac_history)
qed

lemma remember_ok:
  assumes "wf_map b" and "0 < limit"
  shows "wf_map (remember victim limit i es b)"
    and "int (length b) \<le> limit \<Longrightarrow> int (length (remember victim limit i es b)) \<le> limit"
proof -
  have ok: "bind_ok (limit, b)" using assms by (simp add: bind_ok_def)
  from bind_table.ok_inserts [OF ok, of "mac_history victim i es"]
  show "wf_map (remember victim limit i es b)"
    by (simp add: remember_inserts [symmetric] bind_ok_def)
  show "int (length b) \<le> limit \<Longrightarrow> int (length (remember victim limit i es b)) \<le> limit"
    using bind_table.size_inserts [OF ok, of "mac_history victim i es"] assms(2)
    by (simp add: remember_inserts [symmetric] le_nat_iff)
qed

lemma remember_keys: "fst ` set (remember victim limit i es b) \<subseteq> fst ` set b \<union> fst ` set es"
proof (induction victim limit i es b rule: remember.induct)
  case (2 victim limit i a info es b)
  have one: "fst ` set (bind_mac c limit a mac b) \<subseteq> insert a (fst ` set b)" for c mac
    unfolding bind_mac_def Let_def dom_update using set_make_room [of c _ b] by blast
  show ?case
  proof (cases "di_mac info = []")
    case True
    with 2(1) show ?thesis by auto
  next
    case False
    with 2(2) one [of "victim i" "di_mac info"] show ?thesis by (simp add: subset_iff) blast
  qed
qed simp

text \<open>With room for every address of \<open>K\<close>, nothing is ever dropped.\<close>

lemma remember_room:
  assumes "wf_map b" and "finite K" and "int (card K) \<le> limit"
    and "fst ` set b \<subseteq> K" and "fst ` set es \<subseteq> K" and "wf_map es"
  shows "map_of (remember victim limit i es b) a =
    (if di_mac (info_at es a) = [] then map_of b a else Some (di_mac (info_at es a)))"
  using assms
proof (induction victim limit i es b rule: remember.induct)
  case (1 victim limit i b)
  then show ?case by (simp add: info_at_def no_info_def)
next
  case (2 victim limit i x info es b)
  let ?b = "bind_mac (victim i) limit x (di_mac info) b"
  from "2.prems" have x: "x \<in> K" "x \<notin> fst ` set es" and es: "fst ` set es \<subseteq> K" "wf_map es"
    by (auto simp: wf_map_def)
  have room: "int (length b) < limit" if "map_of b x = None"
  proof -
    have "x \<notin> fst ` set b" using that by (simp add: map_of_eq_None_iff)
    then have "fst ` set b \<subset> K" using "2.prems"(4) x by blast
    then have "card (fst ` set b) < card K" by (rule psubset_card_mono [OF "2.prems"(2)])
    moreover have "card (fst ` set b) = length b"
      using "2.prems"(1) distinct_card [of "map fst b"] by (simp add: wf_map_def)
    ultimately show ?thesis using "2.prems"(3) by simp
  qed
  then have b: "?b = AList.update x (di_mac info) b"
    by (auto simp: bind_mac_def make_room_def)
  then have wf: "wf_map ?b" and keys: "fst ` set ?b \<subseteq> K"
    using "2.prems"(1,4) x by (simp_all add: dom_update)
  have no: "di_mac (info_at es x) = []" using x by (simp add: info_at_absent no_info_def)
  show ?case
    using 2(1) [OF _ "2.prems"(1,2,3,4) es] 2(2) [OF _ wf "2.prems"(2,3) keys es] b no
    by (auto simp: info_at_Cons)
qed

section \<open>Rounds of refreshing\<close>

definition refreshes ::
  "((nat \<Rightarrow> device_table \<Rightarrow> device_table) \<times> (nat \<Rightarrow> nat) \<times> file_system) list \<Rightarrow> deviceDB \<Rightarrow> deviceDB" where
  "refreshes rounds db = fold (\<lambda>(visit, victim, fs) db. fst (refresh visit victim fs db)) rounds db"

definition db_ok :: "deviceDB \<Rightarrow> bool" where
  "db_ok db \<longleftrightarrow> wf_map (db_bindings db) \<and> 0 < db_maxBindings db
     \<and> int (length (db_bindings db)) \<le> db_maxBindings db"

text \<open>The configuration a refresh leaves alone.\<close>

definition config_of :: "deviceDB \<Rightarrow> idMode \<times> string \<times> bool \<times> (addr, string) gomap \<times> int \<times> bool \<times> string \<times> (string \<times> string) list" where
  "config_of db = (db_mode db, db_model db, db_sendIP db, db_static db, db_maxBindings db, db_useARP db,
     db_arpPath db, map (\<lambda>f. (df_path f, df_format f)) (db_files db))"

lemma read_files_config:
  "map (\<lambda>f. (df_path f, df_format f)) (fst (read_files visit fs i files m)) =
   map (\<lambda>f. (df_path f, df_format f)) files"
proof (induction files arbitrary: i m)
  case (Cons f files)
  then show ?case by (simp split: prod.splits) (metis fst_conv)
qed simp

lemma config_refresh: "config_of (fst (refresh visit victim fs db)) = config_of db"
  using read_files_config [of visit fs 0 "db_files db" "[]"]
  by (auto simp: refresh_def config_of_def Let_def split: prod.splits)

lemma file_read_config: "file_read fs f = (\<lambda>(p, g). file_read fs \<lparr>df_path = p, df_format = g, df_lastErr = []\<rparr>)
    (df_path f, df_format f)"
  by (simp add: file_read_def split: sum.splits)

lemma source_tables_config:
  assumes "config_of db = config_of db'"
  shows "source_tables fs db = source_tables fs db'"
proof -
  define rd where "rd = (\<lambda>(p, g). file_read fs \<lparr>df_path = p, df_format = g, df_lastErr = []\<rparr>)"
  have "source_tables fs d = map (fst \<circ> rd) (filter (\<lambda>x. snd (rd x) = None) (map (\<lambda>f. (df_path f, df_format f)) (db_files d)))
      @ (if db_useARP d then [fst (readARP fs (db_arpPath d))] else [])" for d
    unfolding source_tables_def rd_def
    by (subst file_read_config, subst file_read_config) (simp add: filter_map o_def)
  with assms show ?thesis by (simp add: config_of_def)
qed

lemma config_refreshes: "config_of (refreshes rounds db) = config_of db"
  by (induction rounds arbitrary: db) (auto simp: refreshes_def config_refresh split: prod.splits)

lemma refreshes_Cons: "refreshes ((visit, victim, fs) # rs) db = refreshes rs (fst (refresh visit victim fs db))"
  by (simp add: refreshes_def)

lemma refresh_bindings:
  "db_bindings (fst (refresh visit victim fs db)) =
     remember victim (db_maxBindings db) 0
       (visit (Suc (length (db_files db))) (db_learned (fst (refresh visit victim fs db)))) (db_bindings db)"
  by (simp add: refresh_def Let_def split: prod.splits)

lemma db_ok_refresh: "db_ok db \<Longrightarrow> db_ok (fst (refresh visit victim fs db))"
  using config_refresh [of visit victim fs db]
  by (simp add: db_ok_def config_of_def refresh_bindings remember_ok)

lemma db_ok_refreshes: "db_ok db \<Longrightarrow> db_ok (refreshes rounds db)"
  by (induction rounds arbitrary: db) (auto simp: refreshes_def db_ok_refresh split: prod.splits)

lemma learned_refresh:
  assumes "visits visit"
  shows "learned_at (fst (refresh visit victim fs db)) a = sources_say (source_tables fs db) a"
  using merged_refresh [OF assms, of fs db victim] by (simp add: merged_def learned_at_def info_at_def)

lemma binding_refresh:
  assumes "db_ok db" and "visits visit"
  shows "map_of (db_bindings (fst (refresh visit victim fs db))) a \<in>
    {None, if di_mac (sources_say (source_tables fs db) a) = [] then map_of (db_bindings db) a
           else Some (di_mac (sources_say (source_tables fs db) a))}"
proof -
  let ?l = "db_learned (fst (refresh visit victim fs db))"
  have m: "merged (source_tables fs db) ?l" by (rule merged_refresh [OF assms(2)])
  then have "wf_map ?l" by (simp add: merged_def)
  with assms m have wf: "wf_map (visit i ?l)" and at: "info_at (visit i ?l) a = sources_say (source_tables fs db) a" for i
    by (simp_all add: visits_wf visits_info_at merged_def)
  show ?thesis
    unfolding refresh_bindings at [symmetric, of "Suc (length (db_files db))"]
    using assms(1) wf by (intro remember_lookup) (simp_all add: db_ok_def)
qed

lemma binding_refresh_room:
  assumes "db_ok db" and "visits visit" and "finite K" and "int (card K) \<le> db_maxBindings db"
    and "fst ` set (db_bindings db) \<subseteq> K" and "(\<Union>t\<in>set (source_tables fs db). fst ` set t) \<subseteq> K"
  shows "map_of (db_bindings (fst (refresh visit victim fs db))) a =
    (if di_mac (sources_say (source_tables fs db) a) = [] then map_of (db_bindings db) a
     else Some (di_mac (sources_say (source_tables fs db) a)))"
    and "fst ` set (db_bindings (fst (refresh visit victim fs db))) \<subseteq> K"
proof -
  let ?l = "db_learned (fst (refresh visit victim fs db))"
  have m: "merged (source_tables fs db) ?l" by (rule merged_refresh [OF assms(2)])
  then have wf: "wf_map ?l" and keys: "fst ` set ?l \<subseteq> K"
    using assms(6) by (simp_all add: merged_def)
  with assms(2) have wf': "wf_map (visit i ?l)" and keys': "fst ` set (visit i ?l) \<subseteq> K" for i
    by (simp_all add: visits_wf visits_set)
  show "map_of (db_bindings (fst (refresh visit victim fs db))) a =
    (if di_mac (sources_say (source_tables fs db) a) = [] then map_of (db_bindings db) a
     else Some (di_mac (sources_say (source_tables fs db) a)))"
    using assms m wf remember_room [OF _ assms(3,4,5) keys' wf']
    by (simp add: refresh_bindings db_ok_def visits_info_at merged_def)
  show "fst ` set (db_bindings (fst (refresh visit victim fs db))) \<subseteq> K"
    using remember_keys keys' assms(5) unfolding refresh_bindings by blast
qed

text \<open>
  A round in which address \<open>a\<close> is either not in any source with a MAC address, or is there
  with the MAC address \<open>m\<close>, and all addresses are among \<open>K\<close>.
\<close>

definition quiet_round ::
  "addr set \<Rightarrow> addr \<Rightarrow> bytes \<Rightarrow> deviceDB \<Rightarrow> (nat \<Rightarrow> device_table \<Rightarrow> device_table) \<times> (nat \<Rightarrow> nat) \<times> file_system \<Rightarrow> bool" where
  "quiet_round K a m db round = (case round of (visit, victim, fs) \<Rightarrow>
     visits visit \<and> di_mac (sources_say (source_tables fs db) a) \<in> {[], m}
     \<and> (\<Union>t\<in>set (source_tables fs db). fst ` set t) \<subseteq> K)"

lemma quiet_round_config:
  "config_of db = config_of db' \<Longrightarrow> quiet_round K a m db = quiet_round K a m db'"
  by (simp add: quiet_round_def fun_eq_iff source_tables_config [of db db'])

lemma known_mac_quiet:
  assumes "db_ok db" and "finite K" and "int (card K) \<le> db_maxBindings db"
    and "fst ` set (db_bindings db) \<subseteq> K" and "list_all (quiet_round K a m db) rounds"
    and "map_of (db_bindings db) a = Some m" and "known_mac db a = m"
  shows "known_mac (refreshes rounds db) a = m"
  using assms
proof (induction rounds arbitrary: db)
  case Nil
  then show ?case by (simp add: refreshes_def)
next
  case (Cons r rounds)
  obtain visit victim fs where r: "r = (visit, victim, fs)" by (metis surj_pair)
  let ?db = "fst (refresh visit victim fs db)"
  from Cons.prems(5) have v: "visits visit"
    and say: "di_mac (sources_say (source_tables fs db) a) \<in> {[], m}"
    and K: "(\<Union>t\<in>set (source_tables fs db). fst ` set t) \<subseteq> K"
    by (simp_all add: r quiet_round_def)
  have cfg: "config_of ?db = config_of db" by (rule config_refresh)
  note room = binding_refresh_room [OF Cons.prems(1) v Cons.prems(2,3,4) K, of victim]
  have bind: "map_of (db_bindings ?db) a = Some m"
    using room(1) [of a] say Cons.prems(6) by auto
  have "known_mac ?db a = m"
    using say bind by (auto simp: known_mac_def binding_at_def learned_refresh [OF v])
  moreover have "list_all (quiet_round K a m ?db) rounds"
    using Cons.prems(5) quiet_round_config [OF cfg] by simp
  ultimately show ?case
    using Cons.IH [of ?db] db_ok_refresh [OF Cons.prems(1)] Cons.prems(2,3) room(2) bind cfg
    by (simp add: r refreshes_Cons config_of_def)
qed

section \<open>Quiet logs\<close>

definition err_text :: "string option \<Rightarrow> string" where
  "err_text err = (case err of None \<Rightarrow> [] | Some e \<Rightarrow> e)"

lemma logChanged_prev: "fst (snd (logChanged prev err src)) = err_text err"
  by (simp add: logChanged_def err_text_def Let_def)

lemma logChanged_quiet: "logChanged (err_text err) err src = (err \<noteq> None, err_text err, [])"
  by (simp add: logChanged_def err_text_def Let_def)

lemma read_files_lastErr:
  "list_all (\<lambda>f. df_lastErr f = err_text (snd (file_read fs f))) (fst (read_files visit fs i files m))"
proof (induction files arbitrary: i m)
  case (Cons f files)
  obtain es err where r: "file_read fs f = (es, err)" by (cases "file_read fs f")
  have "file_read fs (f\<lparr>df_lastErr := p\<rparr>) = (es, err)" for p
    using r file_read_config [of fs f] file_read_config [of fs "f\<lparr>df_lastErr := p\<rparr>"] by simp
  moreover obtain failed prev lg where l:
    "logChanged (df_lastErr f) err (''device source '' @ df_path f) = (failed, prev, lg)"
    by (metis surj_pair)
  moreover from this have "prev = err_text err" using logChanged_prev by (metis fst_conv snd_conv)
  moreover obtain fl lrn lgs where rest: "read_files visit fs (Suc i) files
      (if failed then m else merge_all (visit i es) m) = (fl, lrn, lgs)" by (metis surj_pair)
  moreover have "list_all (\<lambda>f. df_lastErr f = err_text (snd (file_read fs f))) fl"
    using Cons.IH [of "Suc i" "if failed then m else merge_all (visit i es) m"] by (simp add: rest)
  ultimately show ?case by (simp add: r)
qed simp

lemma read_files_quiet:
  "list_all (\<lambda>f. df_lastErr f = err_text (snd (file_read fs f))) files \<Longrightarrow>
   snd (snd (read_files visit fs i files m)) = []"
proof (induction files arbitrary: i m)
  case (Cons f files)
  obtain es err where r: "file_read fs f = (es, err)" by (cases "file_read fs f")
  then have "df_lastErr f = err_text err" using Cons.prems by simp
  then show ?case
    using Cons by (simp add: r logChanged_quiet split: prod.splits) (metis snd_conv)
qed simp

definition settled :: "file_system \<Rightarrow> deviceDB \<Rightarrow> bool" where
  "settled fs db \<longleftrightarrow> list_all (\<lambda>f. df_lastErr f = err_text (snd (file_read fs f))) (db_files db)
     \<and> (db_useARP db \<longrightarrow> db_arpLastErr db = err_text (snd (readARP fs (db_arpPath db))))"

lemma settled_refresh: "settled fs (fst (refresh visit victim fs db))"
  using read_files_lastErr [of fs visit 0 "db_files db" "[]"]
    logChanged_prev [of "db_arpLastErr db" "snd (readARP fs (db_arpPath db))" "''ARP table '' @ db_arpPath db"]
  by (auto simp: settled_def refresh_def Let_def split: prod.splits)

lemma refresh_settled: "settled fs db \<Longrightarrow> fst (snd (refresh visit victim fs db)) = []"
  using read_files_quiet [of fs "db_files db" visit 0 "[]"]
  by (auto simp: settled_def refresh_def Let_def logChanged_quiet split: prod.splits)

section \<open>Headers\<close>

definition header_char :: "char \<Rightarrow> bool" where
  "header_char c \<longleftrightarrow> 32 \<le> ord c \<and> ord c < 127"

lemma alnum_header: "is_alnum c \<Longrightarrow> header_char c"
  by (auto simp: header_char_def is_alnum_def is_lower_def is_upper_def is_digit_def)

lemma sign_header [simp]: "header_char CHR '':''" "header_char CHR ''.''" "header_char CHR ''-''"
  by (simp_all add: header_char_def)

lemma ParseAddr_proper: "ParseAddr s = Some a \<Longrightarrow> a \<noteq> NoAddr"
  by (auto simp: ParseAddr_def parseIPv4_def parseIPv6_def Let_def split: list.splits option.splits
    if_splits prod.splits)

lemma clientAddr_normal:
  assumes "clientAddr ip = Some a"
  shows "a \<noteq> NoAddr \<and> \<not> has_zone a \<and> \<not> Is4In6 a"
proof -
  obtain b where b: "ParseAddr ip = Some b" "a = WithZone [] (Unmap b)"
    using assms by (auto simp: clientAddr_def)
  moreover from b(1) have "b \<noteq> NoAddr" by (rule ParseAddr_proper)
  ultimately show ?thesis by (cases b) (auto simp: Unmap_def has_zone_def)
qed

lemma set_setHeaders:
  assumes "(k, v) \<in> set (setHeaders ci [])"
  shows "v \<noteq> [] \<and> (k, v) \<in> {(''X-Device-Id'', ci_ID ci), (''X-Device-Ip'', ci_IP ci),
    (''X-Device-Model'', ci_Model ci), (''X-Device-Name'', ci_Name ci)}"
  using assms by (auto simp: setHeaders_def set_header_def Let_def split: if_splits)

lemma device_model_chars:
  assumes "list_all header_char (db_model db)" and "c \<in> set (device_model db mac)"
  shows "header_char c"
proof -
  have "header_char x" if "x \<in> set (mac_String mac)" for x
    using mac_String_chars [OF that] alnum_header [of x] by auto
  moreover have "list_all header_char ''mac:''" by (simp add: header_char_def)
  ultimately show ?thesis
    using assms by (auto simp: device_model_def list_all_iff dest: in_set_takeD split: if_splits)
qed

lemma lookup_fields:
  assumes "clientAddr (rq_ip st) = Some a"
  shows "fst (lookup sum64 discover db st profile d) =
    \<lparr>ci_ID = deviceID sum64 (db_mode db) profile a (known_mac db a),
     ci_IP = (if db_sendIP db then addr_String a else []),
     ci_Name = normalizeName (if known_name db a = [] then fst (discover a d) else known_name db a),
     ci_Model = device_model db (known_mac db a)\<rparr>"
  using assms by (simp add: lookup_def Let_def split: prod.splits)

lemma clean_header: "clean_name s \<Longrightarrow> list_all header_char s"
  by (auto simp: clean_name_def list_all_iff label_char_def dest!: bspec alnum_header)

lemma deviceID_empty:
  assumes "a \<noteq> NoAddr"
  shows "deviceID h mode p a mac = [] \<longleftrightarrow> mode = IdNone \<or> (mode = IdMAC \<and> mac = [])"
proof -
  have "length (AsSlice a) \<noteq> 0"
    using assms by (cases a) (simp_all add: AsSlice_def del: length_0_conv)
  then have ne: "AsSlice a \<noteq> []" by simp
  have "shortID h p key = [] \<longleftrightarrow> key = []" for key
    using shortID_shape [of key h p] by (cases "key = []") (auto simp: shortID_def)
  with ne show ?thesis by (simp add: deviceID_def split: idMode.splits)
qed

section \<open>Properties\<close>

text \<open>
  Property C3. Whatever the sources and reverse DNS say, every header a lookup produces is
  one of the four \<open>X-Device-*\<close> headers with a non-empty value of printable ASCII, so no name
  from the network can inject a line break; the model configured by hand must be printable.
\<close>

theorem device_headers_printable:
  assumes "list_all header_char (db_model db)"
    and "(k, v) \<in> set (setHeaders (fst (lookup sum64 discover db st profile d)) [])"
  shows "k \<in> {''X-Device-Id'', ''X-Device-Ip'', ''X-Device-Model'', ''X-Device-Name''} \<and> v \<noteq> []
    \<and> list_all header_char v"
proof (cases "clientAddr (rq_ip st)")
  case None
  with assms(2) show ?thesis by (simp add: lookup_def no_client_def setHeaders_def set_header_def)
next
  case (Some a)
  note n = clientAddr_normal [OF Some]
  have ip: "list_all header_char (addr_String a)"
    using n addr_String_chars [of a] alnum_header by (fastforce simp: list_all_iff)
  have id: "list_all header_char (deviceID sum64 (db_mode db) profile a mac)" for mac
    using deviceID_chars alnum_header by (auto simp: list_all_iff)
  have model: "list_all header_char (device_model db mac)" for mac
    using device_model_chars [OF assms(1)] by (auto simp: list_all_iff)
  have name: "list_all header_char (normalizeName s)" for s
    using clean_header [OF clean_normalizeName] .
  from set_setHeaders [OF assms(2)] show ?thesis
    unfolding lookup_fields [OF Some] using ip id model name by auto
qed

definition sample_query :: request where
  "sample_query =
     \<lparr>rq_req = \<lparr>m_id = 7, m_rcode = 0, m_truncated = False, m_cd = False, m_question = [], m_answer = [],
        m_ns = [], m_extra = [], m_flags = []\<rparr>, rq_ip = ''10.0.0.5'', rq_local = ''10.0.0.1:53'',
      rq_name = ''example.org.'', rq_qtype = 1, rq_qclass = 1, rq_do = False\<rparr>"

definition length_sum :: "bytes \<Rightarrow> u64" where
  "length_sum bs = word_of_int (int (length bs))"

theorem device_headers_printable_witness:
  "(''X-Device-Name'', ''evil-X-Evil-1'') \<in>
     set (setHeaders (fst (lookup length_sum (\<lambda>_ n. (''evil'' @ [CHR 0x0D, newline] @ ''X-Evil: 1'', n))
       newDeviceDB sample_query ''abc123'' (0::nat))) []) \<and> list_all header_char ''evil-X-Evil-1''"
proof -
  have model: "list_all header_char (db_model newDeviceDB)" by code_simp
  have "(''X-Device-Name'', ''evil-X-Evil-1'') \<in>
     set (setHeaders (fst (lookup length_sum (\<lambda>_ n. (''evil'' @ [CHR 0x0D, newline] @ ''X-Evil: 1'', n))
       newDeviceDB sample_query ''abc123'' (0::nat))) [])"
    by code_simp
  with device_headers_printable [OF model this] show ?thesis by blast
qed

text \<open>
  Property C33. The name sent for a device has at most 63 characters, only letters, digits
  and single dashes, no dash at either end, and exactly the names of that form pass through
  unchanged.
\<close>

theorem normalizeName_clean_names:
  "clean_name (normalizeName name) \<and> (normalizeName s = s \<longleftrightarrow> clean_name s)"
  using clean_normalizeName normalizeName_clean by metis

text \<open>
  A device ID is either absent, exactly when IDs are switched off or come from
  MAC addresses and none is known, or five characters out of \<open>0-9A-V\<close>.
\<close>

theorem device_id_shape:
  assumes "clientAddr ip = Some a"
  shows "(deviceID h mode p a mac = [] \<longleftrightarrow> mode = IdNone \<or> (mode = IdMAC \<and> mac = [])) \<and>
    (deviceID h mode p a mac = [] \<or>
     length (deviceID h mode p a mac) = 5 \<and> list_all id_char (deviceID h mode p a mac))"
proof -
  have "shortID h p key = [] \<or> length (shortID h p key) = 5 \<and> list_all id_char (shortID h p key)" for key
    using shortID_shape [of key h p] by (cases "key = []") (auto simp: shortID_def)
  moreover have "deviceID h mode p a mac \<in> {[], shortID h p mac, shortID h p (AsSlice a)}"
    by (simp add: deviceID_def split: idMode.splits)
  ultimately show ?thesis
    using deviceID_empty [of a h mode p mac] clientAddr_normal [OF assms] by fastforce
qed

theorem device_id_shape_witness:
  "clientAddr ''::ffff:10.0.0.5'' = Some (V4 167772165) \<and>
   deviceID length_sum IdAuto ''abc123'' (V4 167772165) [] = ''0000A'' \<and>
   length (deviceID length_sum IdAuto ''abc123'' (V4 167772165) []) = 5"
proof -
  have a: "clientAddr ''::ffff:10.0.0.5'' = Some (V4 167772165)" by code_simp
  have v: "deviceID length_sum IdAuto ''abc123'' (V4 167772165) [] = ''0000A''" by code_simp
  show ?thesis using device_id_shape [OF a, of length_sum IdAuto "''abc123''" "[]"] a v by simp
qed

text \<open>
  Property C32. A refresh merges the sources independently of the order Go visits its maps
  in: for every address the learned name and MAC address are the last ones given by a
  readable file, in the order of the configuration, or by the ARP table after them; a
  source that omits a field never blanks it; and the gauge is the number of addresses known.
\<close>

theorem refresh_merges_sources:
  assumes "visits visit"
  shows "learned_at (fst (refresh visit victim fs db)) a = sources_say (source_tables fs db) a \<and>
    snd (snd (refresh visit victim fs db)) = int (card (\<Union>t\<in>set (source_tables fs db). fst ` set t))"
proof -
  let ?l = "db_learned (fst (refresh visit victim fs db))"
  have m: "merged (source_tables fs db) ?l" by (rule merged_refresh [OF assms])
  have "snd (snd (refresh visit victim fs db)) = int (length ?l)"
    by (simp add: refresh_def Let_def split: prod.splits)
  moreover have "length ?l = card (fst ` set ?l)"
    using m distinct_card [of "map fst ?l"] by (simp add: merged_def wf_map_def)
  ultimately show ?thesis
    using m learned_refresh [OF assms] by (simp add: merged_def)
qed

definition two_files :: deviceDB where
  "two_files = newDeviceDB\<lparr>db_useARP := True, db_files :=
     [\<lparr>df_path = ''h1'', df_format = ''hosts'', df_lastErr = []\<rparr>,
      \<lparr>df_path = ''h2'', df_format = ''hosts'', df_lastErr = []\<rparr>]\<rparr>"

definition disk :: file_system where
  "disk p = (if p = ''h1'' then Inr (''10.0.0.5 laptop'', None)
     else if p = ''h2'' then Inl ''no such file'' else Inr arp_sample)"

theorem refresh_merges_sources_witness:
  "learned_at (fst (refresh (\<lambda>i. rev) (\<lambda>_. 0) disk two_files)) (V4 167772165) =
     \<lparr>di_name = ''laptop'', di_mac = [60, 34, 251, 17, 34, 51]\<rparr>"
proof -
  have "visits (\<lambda>i. rev)" by (simp add: visits_def)
  moreover have "sources_say (source_tables disk two_files) (V4 167772165) =
     \<lparr>di_name = ''laptop'', di_mac = [60, 34, 251, 17, 34, 51]\<rparr>"
    by code_simp
  ultimately show ?thesis using refresh_merges_sources [of "\<lambda>i. rev" "\<lambda>_. 0" disk two_files] by simp
qed

text \<open>
  Property C12. The ID and model of a device survive its ARP entry: once a refresh has seen
  an address with a MAC address, any number of later refreshes that see it with the same
  one or not at all leave the ID and the model of that client as they were, as long as the
  addresses seen fit the table of bindings.
\<close>

theorem device_id_survives_arp_expiry:
  assumes "db_ok db" and "visits visit" and "clientAddr (rq_ip st) = Some a"
    and "di_mac (sources_say (source_tables fs db) a) = m" and "m \<noteq> []"
    and "finite K" and "int (card K) \<le> db_maxBindings db"
    and "fst ` set (db_bindings db) \<subseteq> K" and "(\<Union>t\<in>set (source_tables fs db). fst ` set t) \<subseteq> K"
    and "list_all (quiet_round K a m db) rounds"
  shows "ci_ID (fst (lookup h disc (refreshes ((visit, victim, fs) # rounds) db) st p d)) =
      ci_ID (fst (lookup h disc (refreshes [(visit, victim, fs)] db) st p d)) \<and>
    ci_Model (fst (lookup h disc (refreshes ((visit, victim, fs) # rounds) db) st p d)) =
      ci_Model (fst (lookup h disc (refreshes [(visit, victim, fs)] db) st p d))"
proof -
  let ?db = "fst (refresh visit victim fs db)"
  note room = binding_refresh_room [OF assms(1,2,6,7,8,9), of victim]
  have cfg: "config_of ?db = config_of db" by (rule config_refresh)
  then have cfg': "config_of (refreshes rounds ?db) = config_of ?db" by (simp add: config_refreshes)
  have mac: "known_mac ?db a = m"
    using assms(4,5) by (simp add: known_mac_def learned_refresh [OF assms(2)])
  moreover have "known_mac (refreshes rounds ?db) a = m"
  proof (rule known_mac_quiet [of ?db K])
    show "list_all (quiet_round K a m ?db) rounds"
      using assms(10) quiet_round_config [OF cfg] by simp
    show "map_of (db_bindings ?db) a = Some m" using room(1) [of a] assms(4,5) by simp
  qed (use assms(1,6,7) cfg room(2) mac db_ok_refresh in \<open>simp_all add: config_of_def\<close>)
  ultimately show ?thesis
    using cfg' by (simp add: lookup_fields [OF assms(3)] refreshes_Cons refreshes_def config_of_def device_model_def)
qed

definition arp_only :: deviceDB where
  "arp_only = newDeviceDB\<lparr>db_useARP := True\<rparr>"

definition arp_empty :: file_system where
  "arp_empty p = Inr (''IP address HW type Flags HW address Mask Device'', None)"

theorem device_id_survives_arp_expiry_witness:
  "ci_ID (fst (lookup length_sum (\<lambda>_ n. ([], n))
     (refreshes [(\<lambda>i. rev, \<lambda>_. 0, disk), (\<lambda>i. rev, \<lambda>_. 0, arp_empty)] arp_only) sample_query ''abc123'' (0::nat))) = ''0000C''"
proof -
  have tables: "source_tables disk arp_only = [[(V4 167772165, \<lparr>di_name = [], di_mac = [60, 34, 251, 17, 34, 51]\<rparr>)]]"
    and tables': "source_tables arp_empty arp_only = [[]]"
    and a: "clientAddr (rq_ip sample_query) = Some (V4 167772165)"
    by code_simp+
  have ok: "db_ok arp_only" and max: "db_maxBindings arp_only = 8192" and b: "db_bindings arp_only = []"
    by (simp_all add: arp_only_def newDeviceDB_def db_ok_def maxBindings_def)
  have v: "visits (\<lambda>i. rev)" by (simp add: visits_def)
  have say: "di_mac (sources_say (source_tables disk arp_only) (V4 167772165)) = [60, 34, 251, 17, 34, 51]"
    unfolding tables by code_simp
  have q: "list_all (quiet_round {V4 167772165} (V4 167772165) [60, 34, 251, 17, 34, 51] arp_only)
      [(\<lambda>i. rev, \<lambda>_. 0, arp_empty)]"
    using v by (simp add: quiet_round_def tables' sources_say_def last_known_def info_at_def no_info_def)
  have "ci_ID (fst (lookup length_sum (\<lambda>_ n. ([], n))
      (refreshes [(\<lambda>i. rev, \<lambda>_. 0, disk), (\<lambda>i. rev, \<lambda>_. 0, arp_empty)] arp_only) sample_query ''abc123'' (0::nat))) =
    ci_ID (fst (lookup length_sum (\<lambda>_ n. ([], n))
      (refreshes [(\<lambda>i. rev, \<lambda>_. 0, disk)] arp_only) sample_query ''abc123'' (0::nat)))"
    by (rule conjunct1 [OF device_id_survives_arp_expiry [OF ok v a say _ _ _ _ _ q]])
      (simp_all add: tables max b)
  also have "\<dots> = ''0000C''" by code_simp
  finally show ?thesis .
qed

text \<open>
  The remembered bindings never outgrow their limit, whatever the sources say
  in any number of refreshes.
\<close>

theorem bindings_bounded:
  assumes "db_ok db"
  shows "int (length (db_bindings (refreshes rounds db))) \<le> db_maxBindings db"
  using db_ok_refreshes [OF assms, of rounds] config_refreshes [of rounds db]
  by (simp add: db_ok_def config_of_def)

definition two_hosts :: file_system where
  "two_hosts p = Inr (''header'' @ [newline] @ ''10.0.0.5 0x1 0x2 3c:22:fb:11:22:33 * br0'' @ [newline] @
     ''10.0.0.6 0x1 0x2 3c:22:fb:11:22:44 * br0'', None)"

theorem bindings_bounded_witness:
  "map fst (db_bindings (refreshes [(\<lambda>i m. m, \<lambda>_. 0, two_hosts)] (arp_only\<lparr>db_maxBindings := 1\<rparr>))) = [V4 167772166] \<and>
   int (length (db_bindings (refreshes [(\<lambda>i m. m, \<lambda>_. 0, two_hosts)] (arp_only\<lparr>db_maxBindings := 1\<rparr>)))) \<le> 1"
proof -
  have ok: "db_ok (arp_only\<lparr>db_maxBindings := 1\<rparr>)"
    by (simp add: arp_only_def newDeviceDB_def db_ok_def)
  have "map fst (db_bindings (refreshes [(\<lambda>i m. m, \<lambda>_. 0, two_hosts)] (arp_only\<lparr>db_maxBindings := 1\<rparr>))) = [V4 167772166]"
    by code_simp
  with bindings_bounded [OF ok, of "[(\<lambda>i m. m, \<lambda>_. 0, two_hosts)]"] show ?thesis by simp
qed

text \<open>
  An address gives up its remembered MAC address only to a different one that
  a source now gives for it, or to an eviction; ageing out of the sources never removes or
  changes it.
\<close>

theorem binding_changes_only_to_seen:
  assumes "db_ok db" and "visits visit"
    and "map_of (db_bindings (fst (refresh visit victim fs db))) a = Some mac"
  shows "map_of (db_bindings db) a = Some mac \<or>
    (mac \<noteq> [] \<and> mac = di_mac (sources_say (source_tables fs db) a))"
  using binding_refresh [OF assms(1,2), of victim fs a] assms(3) by (auto split: if_splits)

theorem binding_changes_only_to_seen_witness:
  "map_of (db_bindings (fst (refresh (\<lambda>i. rev) (\<lambda>_. 0) two_hosts arp_only))) (V4 167772166) =
     Some [60, 34, 251, 17, 34, 68] \<and>
   di_mac (sources_say (source_tables two_hosts arp_only) (V4 167772166)) = [60, 34, 251, 17, 34, 68]"
proof -
  have ok: "db_ok arp_only"
    by (simp add: arp_only_def newDeviceDB_def db_ok_def maxBindings_def)
  have v: "visits (\<lambda>i. rev)" by (simp add: visits_def)
  have b: "map_of (db_bindings (fst (refresh (\<lambda>i. rev) (\<lambda>_. 0) two_hosts arp_only))) (V4 167772166) =
     Some [60, 34, 251, 17, 34, 68]" by code_simp
  have "map_of (db_bindings arp_only) (V4 167772166) = None"
    by (simp add: arp_only_def newDeviceDB_def)
  with binding_changes_only_to_seen [OF ok v b] b show ?thesis by simp
qed

text \<open>
  A name configured by hand is the one reported, after any number of refreshes
  and whatever they learned, and reverse DNS is not asked for it.
\<close>

theorem configured_name_wins:
  assumes "clientAddr (rq_ip st) = Some a" and "map_of (db_static db) a = Some n" and "n \<noteq> []"
  shows "ci_Name (fst (lookup h disc (refreshes rounds db) st p d)) = normalizeName n \<and>
    snd (lookup h disc (refreshes rounds db) st p d) = d"
  using assms config_refreshes [of rounds db]
  by (simp add: lookup_def known_name_def config_of_def Let_def)

theorem configured_name_wins_witness:
  "ci_Name (fst (lookup length_sum (\<lambda>_ n. (''asked'', Suc n))
     (refreshes [(\<lambda>i. rev, \<lambda>_. 0, disk)] (two_files\<lparr>db_static := [(V4 167772165, ''printer.lan'')]\<rparr>))
     sample_query ''abc123'' 0)) = ''printer''"
proof -
  let ?db = "two_files\<lparr>db_static := [(V4 167772165, ''printer.lan'')]\<rparr>"
  have a: "clientAddr (rq_ip sample_query) = Some (V4 167772165)" by code_simp
  have n: "map_of (db_static ?db) (V4 167772165) = Some ''printer.lan''" by simp
  have "normalizeName ''printer.lan'' = ''printer''" by code_simp
  with configured_name_wins [OF a n, of length_sum "\<lambda>_ n. (''asked'', Suc n)" "[(\<lambda>i. rev, \<lambda>_. 0, disk)]" "''abc123''" 0]
  show ?thesis by simp
qed

text \<open>
  An unchanged outcome is not logged again: a refresh that finds every source
  as the refresh before it did writes no log line.
\<close>

theorem unchanged_sources_log_nothing:
  "fst (snd (refresh visit' victim' fs (fst (refresh visit victim fs db)))) = []"
  by (rule refresh_settled [OF settled_refresh])

definition drop_zoned :: "(addr, 'v) gomap \<Rightarrow> (addr, 'v) gomap" where
  "drop_zoned m = filter (\<lambda>p. \<not> has_zone (fst p)) m"

lemma map_of_drop_zoned: "\<not> has_zone a \<Longrightarrow> map_of (drop_zoned m) a = map_of m a"
  by (induction m) (auto simp: drop_zoned_def)

text \<open>
  Property C34. Entries under a zoned address are dead weight: the source parsers keep the
  zone of an address, client addresses never have one, and so removing those entries from
  the names, the learned table and the bindings changes no lookup.
\<close>

theorem zoned_entries_never_match:
  "lookup h disc (db\<lparr>db_learned := drop_zoned (db_learned db), db_bindings := drop_zoned (db_bindings db),
       db_static := drop_zoned (db_static db)\<rparr>) st p d = lookup h disc db st p d \<and>
   hosts_entry ''fe80::1%eth0 nas'' =
     Some (V6 0xfe800000000000000000000000000001 ''eth0'', \<lparr>di_name = ''nas'', di_mac = []\<rparr>)"
proof
  show "hosts_entry ''fe80::1%eth0 nas'' =
     Some (V6 0xfe800000000000000000000000000001 ''eth0'', \<lparr>di_name = ''nas'', di_mac = []\<rparr>)"
    by code_simp
  let ?db = "db\<lparr>db_learned := drop_zoned (db_learned db), db_bindings := drop_zoned (db_bindings db),
       db_static := drop_zoned (db_static db)\<rparr>"
  show "lookup h disc ?db st p d = lookup h disc db st p d"
  proof (cases "clientAddr (rq_ip st)")
    case (Some a)
    then have z: "\<not> has_zone a" using clientAddr_normal by blast
    have "learned_at ?db a = learned_at db a" and "binding_at ?db a = binding_at db a"
      by (simp_all add: learned_at_def binding_at_def map_of_drop_zoned [OF z])
    then have "known_mac ?db a = known_mac db a" and "known_name ?db a = known_name db a"
      by (simp_all add: known_mac_def known_name_def map_of_drop_zoned [OF z] split: option.splits)
    moreover have "device_model ?db mac = device_model db mac" for mac
      by (simp add: device_model_def split: if_splits)
    ultimately show ?thesis by (simp add: lookup_def Some Let_def)
  qed (simp add: lookup_def)
qed

end
