(* ===== verification/Discovery.thy ===== *)
theory Discovery
  imports Dns Netip Table
begin

text \<open>
  \<open>discovery.go\<close>: device names by reverse DNS. The critical sections of \<open>name\<close>, \<open>lookup\<close>
  and \<open>store\<close> are functions on the state behind \<open>discoverer.mu\<close>; a lookup is a goroutine
  whose phases are the stretches between the points where it touches shared state. A world
  holds the discoverer, the lookups alive, the channels closed so far and the queries that
  are held; its steps interleave queries, lookups, held queries and the shutdown in any
  order. What a resolver returns, the clock and the entry an eviction drops are free at
  every step. The metrics written on the way are not part of the state.
\<close>

section \<open>The state behind the lock\<close>

definition defaultDiscoveryTTL :: duration where "defaultDiscoveryTTL = 5 * minute"
definition defaultDiscoveryRetry :: duration where "defaultDiscoveryRetry = 5 * minute"
definition defaultDiscoveryTimeout :: duration where "defaultDiscoveryTimeout = 2 * second"
definition defaultDiscoveryWait :: duration where "defaultDiscoveryWait = 200 * millisecond"
definition defaultDiscoveryMax :: int where "defaultDiscoveryMax = 4096"
definition maxDiscoveryInflight :: int where "maxDiscoveryInflight = 64"

record discoveryEntry =
  de_name :: string
  de_expires :: time

type_synonym chan = nat

record discoverer =
  dc_ttl :: duration
  dc_wait :: duration
  dc_retry :: duration
  dc_timeout :: duration
  dc_max :: int
  dc_wg :: int
  dc_closing :: bool
  dc_entries :: "(addr, discoveryEntry) gomap"
  dc_inflight :: "(addr, chan) gomap"

definition newDiscoverer :: discoverer where
  "newDiscoverer =
     \<lparr>dc_ttl = defaultDiscoveryTTL, dc_wait = defaultDiscoveryWait, dc_retry = defaultDiscoveryRetry,
      dc_timeout = defaultDiscoveryTimeout, dc_max = defaultDiscoveryMax, dc_wg = 0,
      dc_closing = False, dc_entries = [], dc_inflight = []\<rparr>"

definition entry_at :: "discoverer \<Rightarrow> addr \<Rightarrow> discoveryEntry" where
  "entry_at d a =
     (case map_of (dc_entries d) a of None \<Rightarrow> \<lparr>de_name = [], de_expires = zero_time\<rparr> | Some e \<Rightarrow> e)"

section \<open>Asking for a name\<close>

datatype outcome = Answer string | Hold chan

text \<open>
  \<open>name\<close> up to its return or to \<open>hold\<close>: how the query goes on, whether it starts a lookup
  (on the fresh channel \<open>ch\<close>), and the new state.
\<close>

definition name_locked ::
  "time \<Rightarrow> bool \<Rightarrow> chan \<Rightarrow> addr \<Rightarrow> discoverer \<Rightarrow> outcome \<times> bool \<times> discoverer" where
  "name_locked now mayHold ch a d =
     (let e = entry_at d a; cached = (map_of (dc_entries d) a \<noteq> None) in
      if cached \<and> now < de_expires e then (Answer (de_name e), False, d)
      else case map_of (dc_inflight d) a of
          Some c \<Rightarrow>
            (if mayHold \<and> 0 < dc_wait d \<and> de_name e = [] then Hold c else Answer (de_name e), False, d)
        | None \<Rightarrow>
            if dc_closing d \<or> maxDiscoveryInflight \<le> int (length (dc_inflight d))
            then (Answer (de_name e), False, d)
            else
              let d = d\<lparr>dc_inflight := AList.update a ch (dc_inflight d), dc_wg := dc_wg d + 1\<rparr>
              in (if \<not> mayHold \<or> dc_wait d \<le> 0 \<or> de_name e \<noteq> [] then Answer (de_name e) else Hold ch,
                  True, d))"

datatype wake = Landed | Elapsed | Cancelled

definition hold :: "wake \<Rightarrow> addr \<Rightarrow> discoverer \<Rightarrow> string" where
  "hold w a d = (case w of Landed \<Rightarrow> de_name (entry_at d a) | Elapsed \<Rightarrow> [] | Cancelled \<Rightarrow> [])"

definition store ::
  "nat \<Rightarrow> time \<Rightarrow> addr \<Rightarrow> string \<Rightarrow> duration \<Rightarrow> discoverer \<Rightarrow> discoverer" where
  "store c now a name ttl d =
     (let exists = (map_of (dc_entries d) a \<noteq> None);
          m = make_room c (\<not> exists \<and> dc_max d \<le> int (length (dc_entries d))) (dc_entries d)
      in d\<lparr>dc_entries := AList.update a \<lparr>de_name = name, de_expires = now + ttl\<rparr> m\<rparr>)"

section \<open>A lookup\<close>

text \<open>
  What the body of a lookup comes to: no reverse name for the address, a panic anywhere, a
  failure of the resolver, or a name, empty when there is no PTR record.
\<close>

datatype result = NoReverse | Panicked | Failed | Resolved string

datatype phase = Asking | Recorded | Panicking | PanicCleared | Cleared | Released | Finished

definition record_result :: "nat \<Rightarrow> time \<Rightarrow> addr \<Rightarrow> result \<Rightarrow> discoverer \<Rightarrow> discoverer" where
  "record_result c now a r d =
     (case r of
        Failed \<Rightarrow> store c now a [] (dc_retry d) d
      | Resolved n \<Rightarrow> store c now a n (if n = [] then dc_retry d else dc_ttl d) d
      | _ \<Rightarrow> d)"

definition clear_inflight :: "addr \<Rightarrow> discoverer \<Rightarrow> discoverer" where
  "clear_inflight a d = d\<lparr>dc_inflight := AList.delete a (dc_inflight d)\<rparr>"

text \<open>
  The body, then the deferred calls in the order they run: the cleanup, which stores an
  empty name if it recovers a panic, the close of the channel, and the \<open>Done\<close> of the group.
\<close>

definition lookup_advance ::
  "nat \<Rightarrow> time \<Rightarrow> result \<Rightarrow> addr \<Rightarrow> phase \<Rightarrow> discoverer \<Rightarrow> phase \<times> discoverer" where
  "lookup_advance c now r a ph d =
     (case ph of
        Asking \<Rightarrow> (if r = Panicked then (Panicking, d) else (Recorded, record_result c now a r d))
      | Recorded \<Rightarrow> (Cleared, clear_inflight a d)
      | Panicking \<Rightarrow> (PanicCleared, clear_inflight a d)
      | PanicCleared \<Rightarrow> (Cleared, store c now a [] (dc_retry d) d)
      | Cleared \<Rightarrow> (Released, d)
      | Released \<Rightarrow> (Finished, d\<lparr>dc_wg := dc_wg d - 1\<rparr>)
      | Finished \<Rightarrow> (Finished, d))"

section \<open>Everything at once\<close>

record world =
  w_disc :: discoverer
  w_lookups :: "(chan \<times> addr \<times> phase) list"
  w_closed :: "chan list"
  w_next :: chan
  w_holds :: "(chan \<times> addr) list"

definition world_of :: "discoverer \<Rightarrow> world" where
  "world_of d = \<lparr>w_disc = d, w_lookups = [], w_closed = [], w_next = 0, w_holds = []\<rparr>"

definition query_step :: "time \<Rightarrow> bool \<Rightarrow> addr \<Rightarrow> world \<Rightarrow> world" where
  "query_step now mayHold a w =
     (let (out, spawned, d) = name_locked now mayHold (w_next w) a (w_disc w);
          w = (if spawned then w\<lparr>w_lookups := (w_next w, a, Asking) # w_lookups w, w_next := Suc (w_next w)\<rparr>
               else w);
          w = (case out of Hold c \<Rightarrow> w\<lparr>w_holds := (c, a) # w_holds w\<rparr> | Answer _ \<Rightarrow> w)
      in w\<lparr>w_disc := d\<rparr>)"

text \<open>The \<open>i\<close>-th lookup takes its next step.\<close>

definition lookup_step :: "nat \<Rightarrow> time \<Rightarrow> result \<Rightarrow> nat \<Rightarrow> world \<Rightarrow> world" where
  "lookup_step v now r i w =
     (case w_lookups w ! i of (c, a, ph) \<Rightarrow>
        let (ph', d) = lookup_advance v now r a ph (w_disc w);
            rest = take i (w_lookups w) @ drop (Suc i) (w_lookups w)
        in w\<lparr>w_disc := d,
             w_lookups := (if ph' = Finished then rest else (w_lookups w)[i := (c, a, ph')]),
             w_closed := (if ph = Cleared then c # w_closed w else w_closed w)\<rparr>)"

text \<open>\<open>drain\<close> up to its wait: no lookup is admitted any more.\<close>

definition drain_step :: "world \<Rightarrow> world" where
  "drain_step w = w\<lparr>w_disc := (w_disc w)\<lparr>dc_closing := True\<rparr>\<rparr>"

inductive moves :: "world \<Rightarrow> nat \<Rightarrow> world \<Rightarrow> bool" where
  query: "moves w 0 (query_step now mayHold a w)"
| go: "i < length (w_lookups w) \<Longrightarrow> moves w 1 (lookup_step v now r i w)"
| leave: "h \<in> set (w_holds w) \<Longrightarrow> moves w 0 (w\<lparr>w_holds := remove1 h (w_holds w)\<rparr>)"
| drain: "moves w 0 (drain_step w)"

text \<open>\<open>runs w n w'\<close>: some sequence of steps leads from \<open>w\<close> to \<open>w'\<close>, \<open>n\<close> of them by lookups.\<close>

inductive runs :: "world \<Rightarrow> nat \<Rightarrow> world \<Rightarrow> bool" where
  stop: "runs w 0 w"
| more: "runs w n w' \<Longrightarrow> moves w' k w'' \<Longrightarrow> runs w (n + k) w''"

inductive_cases movesE: "moves w n w'"

section \<open>The resolvers\<close>

datatype resolve_error = NoResponse | ReverseFailed int | ExchangeFailed string | NoResolverAnswered

definition ptrName :: "msg option \<Rightarrow> resolve_error + string" where
  "ptrName m =
     (case m of
        None \<Rightarrow> Inl NoResponse
      | Some m \<Rightarrow>
          if m_rcode m \<noteq> RcodeSuccess \<and> m_rcode m \<noteq> RcodeNameError then Inl (ReverseFailed (m_rcode m))
          else case List.map_filter rr_ptr (m_answer m) of [] \<Rightarrow> Inr [] | p # _ \<Rightarrow> Inr p)"

text \<open>\<open>up\<close> is the internal lookup of CoreDNS; \<open>udp\<close> and \<open>tcp\<close> exchange with one server.\<close>

definition internalResolver :: "(string \<Rightarrow> string + msg option) \<Rightarrow> string \<Rightarrow> resolve_error + string" where
  "internalResolver up arpa =
     (case up arpa of Inl e \<Rightarrow> Inl (ExchangeFailed e) | Inr m \<Rightarrow> ptrName m)"

fun externalResolver ::
  "(string \<Rightarrow> string + msg) \<Rightarrow> (string \<Rightarrow> string + msg) \<Rightarrow> string list \<Rightarrow> resolve_error option
     \<Rightarrow> resolve_error + string" where
  "externalResolver udp tcp [] lastErr =
     (case lastErr of None \<Rightarrow> Inl NoResolverAnswered | Some e \<Rightarrow> Inl e)"
| "externalResolver udp tcp (s # addrs) lastErr =
     (case udp s of
        Inl e \<Rightarrow> externalResolver udp tcp addrs (Some (ExchangeFailed e))
      | Inr m \<Rightarrow>
          let m = (if m_truncated m then (case tcp s of Inr m2 \<Rightarrow> m2 | Inl _ \<Rightarrow> m) else m)
          in case ptrName (Some m) of
              Inl e \<Rightarrow> externalResolver udp tcp addrs (Some e)
            | Inr name \<Rightarrow> Inr name)"

section \<open>Contexts\<close>

record context_values =
  cx_discovery :: "bool option"

definition withDiscovery :: "context_values \<Rightarrow> context_values" where
  "withDiscovery ctx = ctx\<lparr>cx_discovery := Some True\<rparr>"

definition isDiscovery :: "context_values \<Rightarrow> bool" where
  "isDiscovery ctx = (case cx_discovery ctx of None \<Rightarrow> False | Some v \<Rightarrow> v)"

section \<open>The table of names\<close>

definition entry_insert ::
  "nat \<Rightarrow> addr \<Rightarrow> discoveryEntry \<Rightarrow> discoverer \<Rightarrow> discoverer" where
  "entry_insert c a e d = store c (de_expires e) a (de_name e) 0 d"

definition entries_ok :: "discoverer \<Rightarrow> bool" where
  "entries_ok d \<longleftrightarrow> wf_map (dc_entries d) \<and> 0 < dc_max d"

lemma store_entry: "store c now a n ttl = entry_insert c a \<lparr>de_name = n, de_expires = now + ttl\<rparr>"
  by (simp add: fun_eq_iff entry_insert_def store_def)

lemma length_store_new:
  assumes "entries_ok d" and "map_of (dc_entries d) a = None"
  shows "length (dc_entries (store c now a n ttl d)) =
    (if dc_max d \<le> int (length (dc_entries d)) then length (dc_entries d) else Suc (length (dc_entries d)))"
  using length_update_make_room_new [of "dc_entries d" a "dc_max d \<le> int (length (dc_entries d))" "nat (dc_max d)"] assms
  by (simp add: store_def entries_ok_def nat_le_iff)

lemma length_store_old:
  "map_of (dc_entries d) a \<noteq> None \<Longrightarrow> length (dc_entries (store c now a n ttl d)) = length (dc_entries d)"
  by (simp add: store_def make_room_def length_update_old)

interpretation names: bounded_table
  "\<lambda>d. map_of (dc_entries d)" entry_insert entries_ok "\<lambda>d. length (dc_entries d)" "\<lambda>d. nat (dc_max d)"
proof (unfold_locales, goal_cases)
  case (1 t c k x)
  then show ?case by (simp add: entries_ok_def entry_insert_def store_def)
next
  case (2 t c k x)
  then show ?case by (simp add: entry_insert_def store_def)
next
  case (3 t k' k c x)
  then show ?case using update_make_room_other [of k' k _ c] by (simp add: entry_insert_def store_def)
next
  case (4 c k x t)
  then show ?case by (simp add: entry_insert_def store_def)
next
  case (5 t)
  then show ?case by (simp add: entries_ok_def)
next
  case (6 t k c x)
  then show ?case by (simp add: entry_insert_def length_store_old)
next
  case (7 t k c x)
  then show ?case by (simp add: entry_insert_def length_store_new)
next
  case (8 t k c x)
  then show ?case using length_store_new [of t k c] by (simp add: entry_insert_def entries_ok_def)
qed

section \<open>The invariant\<close>

definition asking :: "phase \<Rightarrow> bool" where
  "asking ph \<longleftrightarrow> ph = Asking \<or> ph = Recorded \<or> ph = Panicking"

definition lookups_ok :: "discoverer \<Rightarrow> (chan \<times> addr \<times> phase) list \<Rightarrow> chan list \<Rightarrow> chan \<Rightarrow> bool" where
  "lookups_ok d ls cl n \<longleftrightarrow> distinct (map fst ls) \<and> wf_map (dc_inflight d)
     \<and> (\<forall>a c. map_of (dc_inflight d) a = Some c \<longleftrightarrow> (\<exists>ph. (c, a, ph) \<in> set ls \<and> asking ph))
     \<and> (\<forall>c a ph. (c, a, ph) \<in> set ls \<longrightarrow> c < n \<and> ph \<noteq> Finished \<and> (c \<in> set cl \<longleftrightarrow> ph = Released))
     \<and> (\<forall>c \<in> set cl. c < n) \<and> dc_wg d = int (length ls)
     \<and> int (length (dc_inflight d)) \<le> maxDiscoveryInflight"

definition table_bounded :: "discoverer \<Rightarrow> bool" where
  "table_bounded d \<longleftrightarrow> entries_ok d \<and> int (length (dc_entries d)) \<le> dc_max d"

definition holds_ok :: "world \<Rightarrow> bool" where
  "holds_ok w \<longleftrightarrow> (\<forall>c a. (c, a) \<in> set (w_holds w) \<longrightarrow>
     c \<in> set (w_closed w) \<or> (\<exists>ph. (c, a, ph) \<in> set (w_lookups w)))"

definition world_ok :: "world \<Rightarrow> bool" where
  "world_ok w \<longleftrightarrow> lookups_ok (w_disc w) (w_lookups w) (w_closed w) (w_next w)
     \<and> table_bounded (w_disc w) \<and> holds_ok w"

lemma store_frame [simp]:
  "dc_inflight (store c now a n ttl d) = dc_inflight d" "dc_wg (store c now a n ttl d) = dc_wg d"
  "dc_closing (store c now a n ttl d) = dc_closing d" "dc_max (store c now a n ttl d) = dc_max d"
  "dc_ttl (store c now a n ttl d) = dc_ttl d" "dc_retry (store c now a n ttl d) = dc_retry d"
  "dc_wait (store c now a n ttl d) = dc_wait d"
  by (simp_all add: store_def Let_def)

lemma record_result_frame [simp]:
  "dc_inflight (record_result c now a r d) = dc_inflight d" "dc_wg (record_result c now a r d) = dc_wg d"
  "dc_closing (record_result c now a r d) = dc_closing d" "dc_max (record_result c now a r d) = dc_max d"
  by (cases r; simp add: record_result_def)+

lemma table_bounded_store: "table_bounded d \<Longrightarrow> table_bounded (store c now a n ttl d)"
  using names.size_insert [of d c a "\<lparr>de_name = n, de_expires = now + ttl\<rparr>"]
    names.ok_insert [of d c a "\<lparr>de_name = n, de_expires = now + ttl\<rparr>"]
  by (simp add: table_bounded_def store_entry [symmetric] le_nat_iff entries_ok_def)

lemma table_bounded_advance:
  "table_bounded d \<Longrightarrow> table_bounded (snd (lookup_advance c now r a ph d))"
proof -
  assume d: "table_bounded d"
  then have "table_bounded (record_result c now a r d)"
    by (cases r) (simp_all add: record_result_def table_bounded_store)
  with d show ?thesis
    by (cases ph) (simp_all add: lookup_advance_def table_bounded_store,
      simp_all add: table_bounded_def entries_ok_def clear_inflight_def)
qed

lemma table_bounded_name:
  "table_bounded d \<Longrightarrow> table_bounded (snd (snd (name_locked now mh ch a d)))"
  by (simp add: name_locked_def table_bounded_def entries_ok_def Let_def split: option.splits)

lemma lookups_okI:
  assumes "distinct (map fst ls)" and "wf_map (dc_inflight d)"
    and "\<And>a c. map_of (dc_inflight d) a = Some c \<longleftrightarrow> (\<exists>ph. (c, a, ph) \<in> set ls \<and> asking ph)"
    and "\<And>c a ph. (c, a, ph) \<in> set ls \<Longrightarrow> c < n \<and> ph \<noteq> Finished \<and> (c \<in> set cl \<longleftrightarrow> ph = Released)"
    and "\<forall>c \<in> set cl. c < n" and "dc_wg d = int (length ls)"
    and "int (length (dc_inflight d)) \<le> maxDiscoveryInflight"
  shows "lookups_ok d ls cl n"
  unfolding lookups_ok_def using assms by auto

lemma lookups_ok_in:
  "lookups_ok d ls cl n \<Longrightarrow> (c, a, ph) \<in> set ls \<Longrightarrow>
     c < n \<and> ph \<noteq> Finished \<and> (c \<in> set cl \<longleftrightarrow> ph = Released)"
  unfolding lookups_ok_def by blast

lemma lookups_ok_new:
  assumes "lookups_ok d ls cl n" and "map_of (dc_inflight d) a = None"
    and "int (length (dc_inflight d)) < maxDiscoveryInflight"
  shows "lookups_ok (d\<lparr>dc_inflight := AList.update a n (dc_inflight d), dc_wg := dc_wg d + 1\<rparr>)
    ((n, a, Asking) # ls) cl (Suc n)"
proof -
  have none: "\<not> ((c, a, ph) \<in> set ls \<and> asking ph)" for c ph
    using assms(1,2) unfolding lookups_ok_def by (metis option.distinct(1))
  have fresh: "n \<notin> fst ` set ls" "n \<notin> set cl"
    using assms(1) unfolding lookups_ok_def by force+
  have at: "map_of (dc_inflight d) b = Some c \<longleftrightarrow> (\<exists>ph. (c, b, ph) \<in> set ls \<and> asking ph)" for b c
    using assms(1) by (simp add: lookups_ok_def)
  have at': "map_of (AList.update a n (dc_inflight d)) b = Some c \<longleftrightarrow>
    (\<exists>ph. (c, b, ph) \<in> set ((n, a, Asking) # ls) \<and> asking ph)" for b c
    using at [of b c] none [of c] by (cases "b = a") (auto simp: asking_def)
  have old: "e < Suc n \<and> q \<noteq> Finished \<and> (e \<in> set cl \<longleftrightarrow> q = Released)"
    if "(e, b, q) \<in> set ((n, a, Asking) # ls)" for e b q
    using that lookups_ok_in [OF assms(1), of e b q] fresh by (auto simp: less_Suc_eq)
  have "\<forall>e \<in> set cl. e < Suc n" using assms(1) by (auto simp: lookups_ok_def less_Suc_eq)
  moreover have "distinct (map fst ((n, a, Asking) # ls))" and "wf_map (dc_inflight d)"
    and "dc_wg d = int (length ls)"
    using assms(1) fresh by (auto simp: lookups_ok_def)
  ultimately show ?thesis
    using at' old assms(2,3) unfolding lookups_ok_def
    by (intro conjI) (simp add: length_update_new | blast)+
qed

lemma lookups_ok_query:
  assumes "lookups_ok d ls cl n" and "name_locked now mh n a d = (out, spawned, d')"
  shows "lookups_ok d' (if spawned then (n, a, Asking) # ls else ls) cl (if spawned then Suc n else n)"
    and "out = Hold c \<Longrightarrow> \<exists>ph. (c, a, ph) \<in> set (if spawned then (n, a, Asking) # ls else ls)"
proof -
  show "lookups_ok d' (if spawned then (n, a, Asking) # ls else ls) cl (if spawned then Suc n else n)"
    using assms lookups_ok_new [of d ls cl n a]
    by (auto simp: name_locked_def Let_def not_le split: option.splits if_splits)
  assume "out = Hold c"
  with assms show "\<exists>ph. (c, a, ph) \<in> set (if spawned then (n, a, Asking) # ls else ls)"
    unfolding lookups_ok_def
    by (auto simp: name_locked_def Let_def split: option.splits if_splits)
qed

lemma world_ok_query: "world_ok w \<Longrightarrow> world_ok (query_step now mh a w)"
proof -
  assume w: "world_ok w"
  obtain out spawned d where s: "name_locked now mh (w_next w) a (w_disc w) = (out, spawned, d)"
    by (metis surj_pair)
  have "lookups_ok (w_disc w) (w_lookups w) (w_closed w) (w_next w)" using w by (simp add: world_ok_def)
  note q = lookups_ok_query [OF this s]
  have "table_bounded d" using w table_bounded_name [of "w_disc w" now mh "w_next w" a] s by (simp add: world_ok_def)
  then show ?thesis
    using w q s by (cases out) (auto simp: query_step_def world_ok_def holds_ok_def)
qed

lemma lookups_ok_others:
  assumes "lookups_ok d (xs @ (c, a, ph) # ys) cl n" and "(e, b, q) \<in> set xs \<union> set ys"
  shows "e \<noteq> c" and "asking ph \<Longrightarrow> asking q \<Longrightarrow> b \<noteq> a"
proof -
  have "c \<notin> fst ` (set xs \<union> set ys)" using assms(1) by (auto simp: lookups_ok_def)
  with assms(2) show ne: "e \<noteq> c" by force
  have at: "map_of (dc_inflight d) b = Some e \<longleftrightarrow> (\<exists>ph''. (e, b, ph'') \<in> set (xs @ (c, a, ph) # ys) \<and> asking ph'')" for b e
    using assms(1) by (simp add: lookups_ok_def)
  assume "asking ph" "asking q"
  then have "map_of (dc_inflight d) a = Some c" and "map_of (dc_inflight d) b = Some e"
    using at assms(2) by auto
  with ne show "b \<noteq> a" by auto
qed

text \<open>A lookup moves on: it may leave the table of lookups in flight, and close its channel.\<close>

lemma lookups_ok_move:
  assumes ok: "lookups_ok d (xs @ (c, a, ph) # ys) cl n"
    and ph: "ph' \<noteq> Finished" "ph \<noteq> Released" "asking ph' \<longrightarrow> asking ph"
    and infl: "dc_inflight d' = (if asking ph \<and> \<not> asking ph' then AList.delete a (dc_inflight d) else dc_inflight d)"
    and wg: "dc_wg d' = dc_wg d"
    and cl: "cl' = (if ph' = Released then c # cl else cl)"
  shows "lookups_ok d' (xs @ (c, a, ph') # ys) cl' n"
proof -
  note others = lookups_ok_others [OF ok]
  have at: "map_of (dc_inflight d) b = Some e \<longleftrightarrow> (\<exists>q. (e, b, q) \<in> set (xs @ (c, a, ph) # ys) \<and> asking q)" for b e
    using ok by (simp add: lookups_ok_def)
  have at': "map_of (dc_inflight d') b = Some e \<longleftrightarrow> (\<exists>q. (e, b, q) \<in> set (xs @ (c, a, ph') # ys) \<and> asking q)" for b e
  proof (cases "asking ph \<and> \<not> asking ph'")
    case True
    then show ?thesis
      using at [of b e] others(2) [of e b] infl by (cases "b = a") auto
  next
    case False
    then show ?thesis using at [of b e] infl ph(3) by auto
  qed
  have closed: "e < n \<and> q \<noteq> Finished \<and> (e \<in> set cl' \<longleftrightarrow> q = Released)"
    if "(e, b, q) \<in> set (xs @ (c, a, ph') # ys)" for e b q
  proof (cases "(e, b, q) \<in> set xs \<union> set ys")
    case True
    then have "(e, b, q) \<in> set (xs @ (c, a, ph) # ys)" by auto
    with True others(1) [of e b q] lookups_ok_in [OF ok, of e b q] show ?thesis by (simp add: cl)
  next
    case False
    with that have e: "e = c" "q = ph'" by auto
    have "c < n \<and> (c \<in> set cl \<longleftrightarrow> ph = Released)" using ok unfolding lookups_ok_def by auto
    with e ph show ?thesis by (simp add: cl)
  qed
  show ?thesis
  proof (rule lookups_okI)
    have "length (dc_inflight d') \<le> length (dc_inflight d)" by (simp add: infl length_delete_le)
    moreover have "int (length (dc_inflight d)) \<le> maxDiscoveryInflight" using ok by (simp add: lookups_ok_def)
    ultimately show "int (length (dc_inflight d')) \<le> maxDiscoveryInflight" by simp
    show "wf_map (dc_inflight d')" using ok by (simp add: infl lookups_ok_def)
    show "\<forall>e \<in> set cl'. e < n" using ok lookups_ok_in [OF ok, of c a ph] by (simp add: lookups_ok_def cl)
  qed (use ok wg at' closed in \<open>simp_all add: lookups_ok_def\<close>)
qed

lemma lookups_ok_done:
  assumes ok: "lookups_ok d (xs @ (c, a, Released) # ys) cl n"
  shows "lookups_ok (d\<lparr>dc_wg := dc_wg d - 1\<rparr>) (xs @ ys) cl n"
proof -
  have "map_of (dc_inflight d) b = Some e \<longleftrightarrow> (\<exists>q. (e, b, q) \<in> set (xs @ (c, a, Released) # ys) \<and> asking q)" for b e
    using ok by (simp add: lookups_ok_def)
  then have "map_of (dc_inflight d) b = Some e \<longleftrightarrow> (\<exists>q. (e, b, q) \<in> set (xs @ ys) \<and> asking q)" for b e
    by (auto simp: asking_def)
  moreover have "(e, b, q) \<in> set (xs @ ys) \<Longrightarrow> e < n \<and> q \<noteq> Finished \<and> (e \<in> set cl \<longleftrightarrow> q = Released)" for e b q
    by (rule lookups_ok_in [OF ok]) auto
  moreover have "distinct (map fst (xs @ ys))" and "wf_map (dc_inflight d)" and "\<forall>e \<in> set cl. e < n"
    and "dc_wg d - 1 = int (length (xs @ ys))" and "int (length (dc_inflight d)) \<le> maxDiscoveryInflight"
    using ok by (simp_all add: lookups_ok_def)
  ultimately show ?thesis
    unfolding lookups_ok_def by simp
qed

lemma lookups_ok_advance:
  assumes ok: "lookups_ok d (xs @ (c, a, ph) # ys) cl n"
    and s: "lookup_advance v now r a ph d = (ph', d')"
  shows "lookups_ok d' (if ph' = Finished then xs @ ys else xs @ (c, a, ph') # ys)
    (if ph = Cleared then c # cl else cl) n"
proof (cases "ph = Released \<or> ph = Finished")
  case True
  moreover have "ph \<noteq> Finished" using ok by (auto simp: lookups_ok_def)
  ultimately show ?thesis using ok lookups_ok_done [of d xs c a ys cl n] s by (auto simp: lookup_advance_def)
next
  case False
  then have "ph' \<noteq> Finished" and "asking ph' \<longrightarrow> asking ph" and "dc_wg d' = dc_wg d"
    and "dc_inflight d' = (if asking ph \<and> \<not> asking ph' then AList.delete a (dc_inflight d) else dc_inflight d)"
    and "ph' = Released \<longleftrightarrow> ph = Cleared"
    using s by (auto simp: lookup_advance_def asking_def clear_inflight_def split: phase.splits if_splits)
  with lookups_ok_move [OF ok, of ph' d'] False show ?thesis by simp
qed

lemma world_ok_lookup:
  assumes w: "world_ok w" and i: "i < length (w_lookups w)"
  shows "world_ok (lookup_step v now r i w)"
proof -
  obtain c a ph where l: "w_lookups w ! i = (c, a, ph)" by (metis surj_pair)
  obtain ph' d where s: "lookup_advance v now r a ph (w_disc w) = (ph', d)" by (metis surj_pair)
  let ?xs = "take i (w_lookups w)" and ?ys = "drop (Suc i) (w_lookups w)"
  have ls: "w_lookups w = ?xs @ (c, a, ph) # ?ys"
    using i l by (metis id_take_nth_drop)
  have upd: "(w_lookups w)[i := x] = ?xs @ x # ?ys" for x
    using i by (rule upd_conv_take_nth_drop)
  have w': "lookup_step v now r i w = w\<lparr>w_disc := d,
      w_lookups := if ph' = Finished then ?xs @ ?ys else ?xs @ (c, a, ph') # ?ys,
      w_closed := if ph = Cleared then c # w_closed w else w_closed w\<rparr>"
    by (simp add: lookup_step_def l s upd)
  have lk: "lookups_ok (w_disc w) (?xs @ (c, a, ph) # ?ys) (w_closed w) (w_next w)"
    using w ls by (simp add: world_ok_def)
  have "table_bounded d"
    using w table_bounded_advance [of "w_disc w" v now r a ph] s by (simp add: world_ok_def)
  moreover have "holds_ok (lookup_step v now r i w)"
  proof -
    have rel: "ph' = Finished \<Longrightarrow> c \<in> set (w_closed w)"
      using lk s by (auto simp: lookup_advance_def lookups_ok_def split: phase.splits if_splits)
    have "holds_ok w" using w by (simp add: world_ok_def)
    then have h: "(e, b) \<in> set (w_holds w) \<Longrightarrow> e \<in> set (w_closed w) \<or> (\<exists>q. (e, b, q) \<in> set ?xs \<union> set ?ys \<or> (e, b) = (c, a))" for e b
      unfolding holds_ok_def by (subst (asm) ls) fastforce
    show ?thesis unfolding holds_ok_def w' using rel h by (auto; metis)
  qed
  ultimately show ?thesis
    using lookups_ok_advance [OF lk s] by (simp add: world_ok_def w')
qed

lemma world_ok_moves: "moves w n w' \<Longrightarrow> world_ok w \<Longrightarrow> world_ok w'"
proof (erule movesE)
  fix h
  assume "world_ok w" "w' = w\<lparr>w_holds := remove1 h (w_holds w)\<rparr>"
  then show "world_ok w'"
    by (auto simp: world_ok_def holds_ok_def dest: in_set_remove1 [THEN iffD1, rotated] notin_set_remove1)
next
  assume "world_ok w" "w' = drain_step w"
  then show "world_ok w'"
    by (simp add: world_ok_def holds_ok_def drain_step_def lookups_ok_def table_bounded_def entries_ok_def)
qed (simp_all add: world_ok_query world_ok_lookup)

definition idle :: "discoverer \<Rightarrow> bool" where
  "idle d \<longleftrightarrow> dc_inflight d = [] \<and> dc_entries d = [] \<and> dc_wg d = 0 \<and> 0 < dc_max d"

lemma world_ok_start: "idle d \<Longrightarrow> world_ok (world_of d)"
  by (simp add: idle_def world_of_def world_ok_def holds_ok_def lookups_ok_def table_bounded_def
    entries_ok_def maxDiscoveryInflight_def)

lemma world_ok_runs: "runs w n w' \<Longrightarrow> world_ok w \<Longrightarrow> world_ok w'"
  by (induction rule: runs.induct) (auto intro: world_ok_moves)

section \<open>Lookups end\<close>

definition rank :: "phase \<Rightarrow> nat" where
  "rank ph = (case ph of Asking \<Rightarrow> 5 | Panicking \<Rightarrow> 4 | PanicCleared \<Rightarrow> 3 | Recorded \<Rightarrow> 3
     | Cleared \<Rightarrow> 2 | Released \<Rightarrow> 1 | Finished \<Rightarrow> 0)"

text \<open>A bound on the steps the lookups alive still take.\<close>

definition work :: "world \<Rightarrow> nat" where
  "work w = sum_list (map (\<lambda>(c, a, ph). rank ph) (w_lookups w))"

lemma rank_advance: "ph \<noteq> Finished \<Longrightarrow> rank (fst (lookup_advance v now r a ph d)) < rank ph"
  by (cases ph) (simp_all add: lookup_advance_def rank_def)

lemma work_lookup:
  assumes "i < length (w_lookups w)" and "world_ok w"
  shows "work (lookup_step v now r i w) < work w"
proof -
  obtain c a ph where l: "w_lookups w ! i = (c, a, ph)" by (metis surj_pair)
  obtain ph' d where s: "lookup_advance v now r a ph (w_disc w) = (ph', d)" by (metis surj_pair)
  let ?xs = "take i (w_lookups w)" and ?ys = "drop (Suc i) (w_lookups w)"
  have ls: "w_lookups w = ?xs @ (c, a, ph) # ?ys"
    using assms(1) l by (metis id_take_nth_drop)
  have "(c, a, ph) \<in> set (w_lookups w)" using assms(1) l by (metis nth_mem)
  then have "ph \<noteq> Finished"
    using assms(2) lookups_ok_in [of "w_disc w" "w_lookups w" "w_closed w" "w_next w" c a ph]
    by (simp add: world_ok_def)
  then have "rank ph' < rank ph" using rank_advance [of ph v now r a "w_disc w"] s by simp
  moreover have "work w = sum_list (map (\<lambda>(c, a, ph). rank ph) (?xs @ ?ys)) + rank ph"
    unfolding work_def by (subst ls) simp
  moreover have "work (lookup_step v now r i w) \<le> sum_list (map (\<lambda>(c, a, ph). rank ph) (?xs @ ?ys)) + rank ph'"
    by (simp add: work_def lookup_step_def l s upd_conv_take_nth_drop [OF assms(1)])
  ultimately show ?thesis by linarith
qed

lemma rank_le: "rank ph \<le> 5"
  by (cases ph) (simp_all add: rank_def)

lemma work_le: "work w \<le> 5 * length (w_lookups w)"
proof -
  have "sum_list (map (\<lambda>(c, a, ph). rank ph) xs) \<le> 5 * length xs" for xs :: "(chan \<times> addr \<times> phase) list"
    using rank_le by (induction xs) (auto simp: add_le_mono)
  then show ?thesis by (simp add: work_def)
qed

lemma closing_advance: "dc_closing (snd (lookup_advance v now r a ph d)) = dc_closing d"
  by (cases ph) (simp_all add: lookup_advance_def clear_inflight_def)

lemma name_locked_closing:
  "dc_closing d \<Longrightarrow> snd (name_locked now mh ch a d) = (False, d)"
  by (simp add: name_locked_def Let_def split: option.splits)

lemma query_step_closing:
  "dc_closing (w_disc w) \<Longrightarrow> w_disc (query_step now mh a w) = w_disc w
     \<and> w_lookups (query_step now mh a w) = w_lookups w \<and> w_next (query_step now mh a w) = w_next w"
  using name_locked_closing [of "w_disc w" now mh "w_next w" a]
  by (auto simp: query_step_def Let_def split: prod.splits outcome.splits)

lemma moves_closing:
  assumes "moves w k w'" and "world_ok w" and "dc_closing (w_disc w)"
  shows "dc_closing (w_disc w') \<and> w_next w' = w_next w \<and> k + work w' \<le> work w"
  using assms(1)
proof cases
  case (query now mh a)
  with query_step_closing [OF assms(3), of now mh a] assms(3) show ?thesis by (simp add: work_def)
next
  case (go i v now r)
  have "dc_closing (w_disc w')" and "w_next w' = w_next w"
    using assms(3) closing_advance [of v now r _ _ "w_disc w"] go
    by (simp_all add: lookup_step_def Let_def split: prod.splits) (metis snd_conv)
  with work_lookup [OF go(3) assms(2)] go show ?thesis by (simp add: Suc_leI)
next
  case (leave h)
  with assms(3) show ?thesis by (simp add: work_def)
next
  case drain
  with assms(3) show ?thesis by (simp add: work_def drain_step_def)
qed

lemma runs_closing:
  "runs w n w' \<Longrightarrow> world_ok w \<Longrightarrow> dc_closing (w_disc w) \<Longrightarrow>
     dc_closing (w_disc w') \<and> w_next w' = w_next w \<and> n + work w' \<le> work w"
proof (induction rule: runs.induct)
  case (more w n w' k w'')
  then have "world_ok w'" by (blast intro: world_ok_runs)
  with more moves_closing [of w' k w''] show ?case by simp
qed simp

section \<open>The resolvers fail over\<close>

text \<open>What asking one server comes to.\<close>

definition ask_server :: "(string \<Rightarrow> string + msg) \<Rightarrow> (string \<Rightarrow> string + msg) \<Rightarrow> string \<Rightarrow> resolve_error + string" where
  "ask_server udp tcp s =
     (case udp s of
        Inl e \<Rightarrow> Inl (ExchangeFailed e)
      | Inr m \<Rightarrow> ptrName (Some (if m_truncated m then (case tcp s of Inr m2 \<Rightarrow> m2 | Inl _ \<Rightarrow> m) else m)))"

lemma externalResolver_first:
  "externalResolver udp tcp addrs lastErr = first_answer (ask_server udp tcp) addrs lastErr NoResolverAnswered"
proof (induction addrs arbitrary: lastErr)
  case Nil
  then show ?case by (simp add: first_answer_def)
next
  case (Cons s addrs)
  have step: "externalResolver udp tcp (s # addrs) lastErr =
      (case ask_server udp tcp s of Inl e \<Rightarrow> externalResolver udp tcp addrs (Some e) | Inr n \<Rightarrow> Inr n)"
    by (simp add: ask_server_def Let_def split: sum.splits)
  show ?case
    unfolding step using Cons.IH first_answer_Cons_fail [of "ask_server udp tcp" s]
      first_answer_Cons_ok [of "ask_server udp tcp" s]
    by (cases "ask_server udp tcp s") simp_all
qed

section \<open>Properties\<close>

text \<open>
  Property C4. However queries, lookups and the shutdown interleave, at most 64 lookups are
  in flight, the table of names stays within its limit, no address is being asked about
  twice at the same time, and the wait group counts exactly the lookups alive, so that its
  counter is never taken below zero.
\<close>

theorem discovery_limits:
  assumes "idle d" and "runs (world_of d) n w"
  shows "int (length (dc_inflight (w_disc w))) \<le> 64 \<and>
    int (length (dc_entries (w_disc w))) \<le> dc_max (w_disc w) \<and>
    dc_wg (w_disc w) = int (length (w_lookups w)) \<and>
    ((c, a, ph) \<in> set (w_lookups w) \<and> (c', a, ph') \<in> set (w_lookups w) \<and> asking ph \<and> asking ph'
       \<longrightarrow> c = c' \<and> ph = ph')"
proof -
  have w: "world_ok w" by (rule world_ok_runs [OF assms(2) world_ok_start [OF assms(1)]])
  then have ok: "lookups_ok (w_disc w) (w_lookups w) (w_closed w) (w_next w)" by (simp add: world_ok_def)
  have "c = c' \<and> ph = ph'"
    if l: "(c, a, ph) \<in> set (w_lookups w)" "(c', a, ph') \<in> set (w_lookups w)" "asking ph" "asking ph'"
  proof -
    have "map_of (dc_inflight (w_disc w)) a = Some c" and "map_of (dc_inflight (w_disc w)) a = Some c'"
      using ok l unfolding lookups_ok_def by blast+
    then have "c = c'" by simp
    moreover have "distinct (map fst (w_lookups w))" using ok by (simp add: lookups_ok_def)
    ultimately show ?thesis using l(1,2) by (metis eq_key_imp_eq_value prod.inject)
  qed
  with w ok show ?thesis by (simp add: world_ok_def table_bounded_def lookups_ok_def maxDiscoveryInflight_def)
qed

definition device :: addr where "device = V4 167772165"

text \<open>A device asks twice, its lookup finds a name and ends, and the shutdown begins.\<close>

definition asked_twice :: world where
  "asked_twice = query_step 6 True device (query_step 5 True device (world_of newDiscoverer))"

definition looked_up :: world where
  "looked_up = lookup_step 0 8 (Resolved ''laptop.lan.'') 0 asked_twice"

lemma asked_twice_run: "runs (world_of newDiscoverer) 0 asked_twice"
proof -
  have "runs (world_of newDiscoverer) (0 + 0) (query_step 5 True device (world_of newDiscoverer))"
    by (rule runs.more [OF runs.stop moves.query])
  from runs.more [OF this moves.query, of 6 True device] show ?thesis by (simp add: asked_twice_def)
qed

lemma idle_new: "idle newDiscoverer"
  by (simp add: idle_def newDiscoverer_def defaultDiscoveryMax_def)

lemma looked_up_run: "runs (world_of newDiscoverer) 1 looked_up"
proof -
  have "0 < length (w_lookups asked_twice)" by code_simp
  from runs.more [OF asked_twice_run moves.go [OF this], of 0 8 "Resolved ''laptop.lan.''"]
  show ?thesis by (simp add: looked_up_def)
qed

theorem discovery_limits_witness:
  "dc_wg (w_disc asked_twice) = 1 \<and> length (w_lookups asked_twice) = 1 \<and> length (w_holds asked_twice) = 2"
proof -
  have "length (w_lookups asked_twice) = 1" and "length (w_holds asked_twice) = 2" by code_simp+
  with discovery_limits [OF idle_new asked_twice_run] show ?thesis by simp
qed

text \<open>
  Property C35. No held query is left behind: the channel a query waits on is closed, or
  belongs to a live lookup for the very address the query asked about, and a channel is
  closed only after its lookup has left the table of lookups in flight.
\<close>

theorem held_queries_are_released:
  assumes "idle d" and "runs (world_of d) n w" and "(c, a) \<in> set (w_holds w)"
  shows "(c \<in> set (w_closed w) \<and> map_of (dc_inflight (w_disc w)) a \<noteq> Some c) \<or>
    (\<exists>ph. (c, a, ph) \<in> set (w_lookups w) \<and> ph \<noteq> Released \<and> ph \<noteq> Finished)"
proof -
  have w: "world_ok w" by (rule world_ok_runs [OF assms(2) world_ok_start [OF assms(1)]])
  then have ok: "lookups_ok (w_disc w) (w_lookups w) (w_closed w) (w_next w)" by (simp add: world_ok_def)
  have infl: "map_of (dc_inflight (w_disc w)) a = Some c \<Longrightarrow> \<exists>ph. (c, a, ph) \<in> set (w_lookups w) \<and> asking ph"
    using ok unfolding lookups_ok_def by blast
  have "c \<in> set (w_closed w) \<or> (\<exists>ph. (c, a, ph) \<in> set (w_lookups w))"
    using w assms(3) unfolding world_ok_def holds_ok_def by blast
  then show ?thesis
    using infl lookups_ok_in [OF ok, of c a] by (auto simp: asking_def)
qed

theorem held_queries_are_released_witness:
  "\<exists>ph. (0, device, ph) \<in> set (w_lookups looked_up) \<and> ph \<noteq> Released \<and> ph \<noteq> Finished"
proof -
  have h: "(0, device) \<in> set (w_holds looked_up)" and c: "w_closed looked_up = []" by code_simp+
  from held_queries_are_released [OF idle_new looked_up_run h] c show ?thesis by simp
qed

text \<open>
  Property C11. Once the shutdown has begun no lookup starts, the lookups alive take at most
  five more steps each, whatever queries still arrive, one of them can always take a step
  while the wait group is not at zero, and when it is, every held query has been released.
\<close>

theorem shutdown_drains:
  assumes "idle d" and "runs (world_of d) m w" and "dc_closing (w_disc w)" and "runs w n w'"
  shows "w_next w' = w_next w \<and> n \<le> 5 * length (w_lookups w) \<and>
    (if dc_wg (w_disc w') = 0 then \<forall>(c, a) \<in> set (w_holds w'). c \<in> set (w_closed w')
     else \<exists>w''. moves w' 1 w'')"
proof -
  have w: "world_ok w" by (rule world_ok_runs [OF assms(2) world_ok_start [OF assms(1)]])
  have w': "world_ok w'" by (rule world_ok_runs [OF assms(4) w])
  have "dc_wg (w_disc w') = int (length (w_lookups w'))"
    using w' by (simp add: world_ok_def lookups_ok_def)
  then have "if dc_wg (w_disc w') = 0 then \<forall>(c, a) \<in> set (w_holds w'). c \<in> set (w_closed w')
     else \<exists>w''. moves w' 1 w''"
    using w' moves.go [of 0 w'] by (fastforce simp: world_ok_def holds_ok_def)
  moreover have "n + work w' \<le> work w" and "w_next w' = w_next w"
    using runs_closing [OF assms(4) w assms(3)] by blast+
  ultimately show ?thesis using work_le [of w] by simp
qed

theorem shutdown_drains_witness:
  "w_next (query_step 9 True (V4 1) (drain_step looked_up)) = w_next (drain_step looked_up) \<and>
   (\<exists>w''. moves (query_step 9 True (V4 1) (drain_step looked_up)) 1 w'')"
proof -
  have r: "runs (world_of newDiscoverer) (1 + 0) (drain_step looked_up)"
    by (rule runs.more [OF looked_up_run moves.drain])
  have c: "dc_closing (w_disc (drain_step looked_up))" by (simp add: drain_step_def)
  have q: "runs (drain_step looked_up) (0 + 0) (query_step 9 True (V4 1) (drain_step looked_up))"
    by (rule runs.more [OF runs.stop moves.query])
  have "dc_wg (w_disc (query_step 9 True (V4 1) (drain_step looked_up))) = 1" by code_simp
  with shutdown_drains [OF idle_new r c q] show ?thesis by simp
qed

text \<open>
  A name once recorded is handed out at once, fresh or stale, without holding
  the query, until it is evicted or replaced; only an expired one starts a lookup, and then
  only when none is in flight for the device, there is room, and no shutdown has begun.
\<close>

theorem recorded_name_is_served:
  assumes "name_locked now mayHold ch a (store c t a n ttl d) = (out, spawned, d')" and "n \<noteq> []"
  shows "out = Answer n \<and>
    (spawned \<longleftrightarrow> t + ttl \<le> now \<and> map_of (dc_inflight d) a = None \<and> \<not> dc_closing d
       \<and> int (length (dc_inflight d)) < 64)"
proof -
  have "map_of (dc_entries (store c t a n ttl d)) a = Some \<lparr>de_name = n, de_expires = t + ttl\<rparr>"
    by (simp add: store_def)
  with assms show ?thesis
    by (auto simp: name_locked_def entry_at_def maxDiscoveryInflight_def Let_def split: option.splits if_splits)
qed

theorem recorded_name_is_served_witness:
  "fst (name_locked 9 True 0 device (store 0 5 device ''laptop.lan.'' 300 newDiscoverer)) = Answer ''laptop.lan.''"
proof -
  obtain out sp d' where r: "name_locked 9 True 0 device (store 0 5 device ''laptop.lan.'' 300 newDiscoverer) = (out, sp, d')"
    by (metis surj_pair)
  from recorded_name_is_served [OF r] r show ?thesis by simp
qed

text \<open>
  Whatever was recorded and evicted before, the name a device is given was the
  last one recorded for that very address, or is empty.
\<close>

theorem names_never_mix:
  assumes "dc_entries d = []" and "0 < dc_max d"
    and "fst (name_locked now mayHold ch a (fold (\<lambda>(c, t, b, n, ttl). store c t b n ttl) h d)) = Answer n"
  shows "n = [] \<or> map_of (rev (map (\<lambda>(c, t, b, n, ttl). (b, n)) h)) a = Some n"
proof -
  let ?d = "fold (\<lambda>(c, t, b, n, ttl). store c t b n ttl) h d"
  let ?h = "map (\<lambda>(c, t, b, n, ttl). (c, b, \<lparr>de_name = n, de_expires = t + ttl\<rparr>)) h"
  have fold: "?d = names.inserts ?h d"
    by (induction h arbitrary: d) (auto simp: store_entry)
  have last: "names.last_under a ?h x = Some e \<Longrightarrow> map_of (rev (map (\<lambda>(c, t, b, n, ttl). (b, n)) h)) a =
      (if x = Some e \<and> (\<forall>p \<in> set h. fst (snd (snd p)) \<noteq> a) then None else Some (de_name e))" for x e
  proof (induction h arbitrary: x)
    case (Cons p h)
    obtain c t b n ttl where p: "p = (c, t, b, n, ttl)" by (metis surj_pair)
    show ?case
      using Cons.IH [of "if b = a then Some \<lparr>de_name = n, de_expires = t + ttl\<rparr> else x"] Cons.prems
      by (auto simp: p map_add_Some_iff split: if_splits)
  qed auto
  have "entries_ok d" using assms(1,2) by (simp add: entries_ok_def)
  from names.lookup_inserts [OF this, of a None ?h]
  have "map_of (dc_entries ?d) a \<in> {None, names.last_under a ?h None}"
    using assms(1) by (simp add: fold)
  moreover have "n = de_name (entry_at ?d a)"
    using assms(3) by (auto simp: name_locked_def Let_def split: option.splits if_splits)
  ultimately show ?thesis
    using last [of None] by (cases "names.last_under a ?h None") (auto simp: entry_at_def)
qed

theorem names_never_mix_witness:
  "map_of (rev (map (\<lambda>(c, t, b, n, ttl). (b, n)) [(0, 5, device, ''a.'', 9), (0, 6, V4 1, ''b.'', 9), (0, 7, device, ''c.'', 9)]))
     device = Some ''c.''"
proof -
  let ?h = "[(0, 5, device, ''a.'', 9), (0, 6, V4 1, ''b.'', 9), (0, 7, device, ''c.'', 9)]"
  have "fst (name_locked 8 True 0 device (fold (\<lambda>(c, t, b, n, ttl). store c t b n ttl) ?h newDiscoverer)) = Answer ''c.''"
    by code_simp
  from names_never_mix [OF _ _ this] show ?thesis
    by (simp add: newDiscoverer_def defaultDiscoveryMax_def)
qed

text \<open>
  The external resolver returns what the first server says that answers at
  all, a name or the absence of one, after asking again over TCP when the answer is
  truncated; when none answers it returns the failure of the last one asked.
\<close>

theorem external_resolver_fails_over:
  "externalResolver udp tcp addrs None = first_answer (ask_server udp tcp) addrs None NoResolverAnswered"
  by (rule externalResolver_first)

end
