(* ===== verification/Transport.thy ===== *)
theory Transport
  imports Device
begin

text \<open>
  The HTTP client of \<open>doh.go\<close>: how \<open>newDOHClient\<close> configures \<open>net/http\<close>, and what \<open>Client.Do\<close>
  makes of a redirect under that configuration. The round trip of the transport and the
  resolution of a \<open>Location\<close> against the URL of the request are arguments. \<open>CheckRedirect\<close> is
  a function that ignores its arguments in this program and is represented by its result.
\<close>

section \<open>Responses\<close>

record http_response =
  rs_status :: int
  rs_header :: header
  rs_body :: "bytes \<times> string option"

definition StatusOK :: int where "StatusOK = 200"

definition header_get :: "string \<Rightarrow> header \<Rightarrow> string" where
  "header_get k h = (case map_of h k of None \<Rightarrow> [] | Some v \<Rightarrow> v)"

section \<open>The configuration\<close>

definition defaultMaxIdleConns :: int where "defaultMaxIdleConns = 16"
definition defaultTLSHandshake :: duration where "defaultTLSHandshake = 5 * second"
definition defaultIdleConnTimeo :: duration where "defaultIdleConnTimeo = 90 * second"

text \<open>\<open>tls.VersionTLS12\<close>.\<close>

definition VersionTLS12 :: int where "VersionTLS12 = 771"

record tls_config =
  tc_MinVersion :: int
  tc_ServerName :: string

record http_transport =
  ht_TLSClientConfig :: tls_config
  ht_ForceAttemptHTTP2 :: bool
  ht_MaxIdleConns :: int
  ht_MaxIdleConnsPerHost :: int
  ht_IdleConnTimeout :: duration
  ht_TLSHandshakeTimeout :: duration

datatype redirect_verdict = Proceed | ErrUseLastResponse | Refuse string

record http_client =
  hc_CheckRedirect :: redirect_verdict
  hc_Transport :: http_transport

definition make_http_client :: "string \<Rightarrow> int \<Rightarrow> http_client" where
  "make_http_client tlsServerName maxIdleConns =
     (let maxIdle = (if maxIdleConns \<le> 0 then defaultMaxIdleConns else maxIdleConns);
          tlsCfg = \<lparr>tc_MinVersion = VersionTLS12, tc_ServerName = tlsServerName\<rparr>
      in \<lparr>hc_CheckRedirect = ErrUseLastResponse,
          hc_Transport =
            \<lparr>ht_TLSClientConfig = tlsCfg, ht_ForceAttemptHTTP2 = True, ht_MaxIdleConns = maxIdle,
             ht_MaxIdleConnsPerHost = maxIdle, ht_IdleConnTimeout = defaultIdleConnTimeo,
             ht_TLSHandshakeTimeout = defaultTLSHandshake\<rparr>\<rparr>)"

text \<open>Zero would mean no limit and no timeout to \<open>net/http\<close>.\<close>

definition transport_ok :: "http_client \<Rightarrow> bool" where
  "transport_ok hc \<longleftrightarrow>
     (let t = hc_Transport hc in
      hc_CheckRedirect hc = ErrUseLastResponse \<and> VersionTLS12 \<le> tc_MinVersion (ht_TLSClientConfig t)
      \<and> 0 < ht_MaxIdleConns t \<and> ht_MaxIdleConnsPerHost t = ht_MaxIdleConns t
      \<and> 0 < ht_IdleConnTimeout t \<and> 0 < ht_TLSHandshakeTimeout t)"

lemma make_http_client_ok: "transport_ok (make_http_client tlsServerName maxIdleConns)"
  by (simp add: transport_ok_def make_http_client_def Let_def defaultMaxIdleConns_def defaultIdleConnTimeo_def
    defaultTLSHandshake_def)

section \<open>Redirects\<close>

text \<open>The method of the next request and whether it keeps the body, for the statuses that redirect.\<close>

definition redirect_method :: "int \<Rightarrow> string \<Rightarrow> (string \<times> bool) option" where
  "redirect_method status meth =
     (if status \<in> {301, 302, 303} then
        Some (if meth \<noteq> ''GET'' \<and> meth \<noteq> ''HEAD'' then ''GET'' else meth, False)
      else if status \<in> {307, 308} then Some (meth, True)
      else None)"

text \<open>
  \<open>Client.Do\<close>: the response or error it returns and the URLs it asked. A redirected request
  carries the headers of the first one along. Whoever redirects decides how often, so nothing
  bounds the loop when every redirect is followed.
\<close>

partial_function (option) client_Do ::
  "redirect_verdict \<Rightarrow> (string \<Rightarrow> string \<Rightarrow> string + string)
     \<Rightarrow> (string \<Rightarrow> string \<Rightarrow> header \<Rightarrow> bytes \<Rightarrow> string + http_response)
     \<Rightarrow> string \<Rightarrow> string \<Rightarrow> header \<Rightarrow> bytes \<Rightarrow> ((string + http_response) \<times> string list) option" where
  "client_Do check resolve rt meth u h b =
     (case rt meth u h b of
        Inl e \<Rightarrow> Some (Inl e, [u])
      | Inr resp \<Rightarrow>
          (case redirect_method (rs_status resp) meth of
             None \<Rightarrow> Some (Inr resp, [u])
           | Some (meth', keep) \<Rightarrow>
               if header_get ''Location'' (rs_header resp) = [] then Some (Inr resp, [u])
               else case resolve u (header_get ''Location'' (rs_header resp)) of
                   Inl e \<Rightarrow> Some (Inl e, [u])
                 | Inr u' \<Rightarrow>
                     (case check of
                        ErrUseLastResponse \<Rightarrow> Some (Inr resp, [u])
                      | Refuse e \<Rightarrow> Some (Inl e, [u])
                      | Proceed \<Rightarrow>
                          Option.bind (client_Do check resolve rt meth' u' h (if keep then b else []))
                            (\<lambda>(r, us). Some (r, u # us)))))"

lemma client_Do_once:
  "\<exists>r. client_Do ErrUseLastResponse resolve rt meth u h b = Some (r, [u])
     \<and> (r = rt meth u h b \<or> (\<exists>e. r = Inl e))"
  by (subst client_Do.simps) (auto split: sum.splits option.splits prod.splits)

end
