(* ===== verification/Doh.thy ===== *)
theory Doh
  imports Transport
begin

unbundle bit_operations_syntax

text \<open>
  \<open>doh.go\<close>: the DNS-over-HTTPS client. Endpoints with their bootstrap addresses, the dial
  that goes through them instead of the system resolver, the exchange that fails over from
  one endpoint to the next, and the time each profile's configuration last changed. URL
  parsing, the dialer, the HTTP round trip, the wire format of DNS messages and the parsing
  of HTTP dates are arguments. Log lines and failure counters are returned beside the
  results; metrics that only measure time are left out.
\<close>

section \<open>Host and port\<close>

definition LastIndexByte :: "string \<Rightarrow> char \<Rightarrow> int" where
  "LastIndexByte s c =
     (if c \<in> set s then int (length s) - 1 - int (length (takeWhile (\<lambda>x. x \<noteq> c) (rev s))) else - 1)"

text \<open>\<open>net.SplitHostPort\<close>: the host, without its brackets, and the port.\<close>

definition SplitHostPort :: "string \<Rightarrow> (string \<times> string) option" where
  "SplitHostPort hp =
     (let i = LastIndexByte hp CHR '':'' in
      if i < 0 then None
      else let i = nat i; port = drop (Suc i) hp in
        if hd hp = CHR ''['' then
          (let e = IndexByte hp CHR '']'' in
           if e < 0 \<or> nat e + 1 \<noteq> i then None
           else if CHR ''['' \<in> set (drop 1 hp) \<or> CHR '']'' \<in> set (drop (nat e + 1) hp) then None
           else Some (take (nat e - 1) (drop 1 hp), port))
        else if CHR '':'' \<in> set (take i hp) then None
        else if CHR ''['' \<in> set hp \<or> CHR '']'' \<in> set hp then None
        else Some (take i hp, port))"

definition JoinHostPort :: "string \<Rightarrow> string \<Rightarrow> string" where
  "JoinHostPort host port =
     (if CHR '':'' \<in> set host then ''['' @ host @ '']:'' @ port else host @ '':'' @ port)"

section \<open>Endpoints\<close>

definition dnsMessageMIME :: string where "dnsMessageMIME = ''application/dns-message''"
definition defaultTimeout :: duration where "defaultTimeout = 5 * second"
definition userAgent :: string where "userAgent = ''coredns-nextdns/'' @ ''0.1.0''"

definition defaultEndpoints :: "string list" where
  "defaultEndpoints = [''https://dns.nextdns.io#45.90.28.0,2a07:a8c0::,45.90.30.0,2a07:a8c1::'']"

definition wellKnownBootstrap :: "(string, string list) gomap" where
  "wellKnownBootstrap =
     [(''dns.nextdns.io'', [''45.90.28.0'', ''2a07:a8c0::'', ''45.90.30.0'', ''2a07:a8c1::'']),
      (''dns1.nextdns.io'', [''45.90.28.0'', ''2a07:a8c0::'']),
      (''dns2.nextdns.io'', [''45.90.30.0'', ''2a07:a8c1::''])]"

record endpoint =
  ep_base :: string
  ep_host :: string
  ep_bootstrap :: "string list"
  ep_next :: u32

text \<open>What \<open>url.Parse\<close> finds: the scheme, the authority, its host name, and \<open>URL.String\<close>.\<close>

record url =
  u_scheme :: string
  u_host :: string
  u_hostname :: string
  u_string :: string

datatype endpoint_error =
  BadBootstrap string string | BadURL string string | NotHTTPS string | NoHost string

fun parse_bootstrap :: "string \<Rightarrow> string list \<Rightarrow> endpoint_error + string list" where
  "parse_bootstrap s [] = Inr []"
| "parse_bootstrap s (x # xs) =
     (let ip = TrimSpace x in
      if ip = [] then parse_bootstrap s xs
      else if ParseIP ip = None then Inl (BadBootstrap ip s)
      else case parse_bootstrap s xs of Inl e \<Rightarrow> Inl e | Inr boot \<Rightarrow> Inr (ip # boot))"

definition parseEndpoint :: "(string \<Rightarrow> string + url) \<Rightarrow> string \<Rightarrow> endpoint_error + endpoint" where
  "parseEndpoint url_parse s =
     (let i = IndexByte s CHR ''#'';
          boot = (if 0 \<le> i then parse_bootstrap s (Split CHR '','' (drop (nat i + 1) s)) else Inr []);
          spec = (if 0 \<le> i then take (nat i) s else s)
      in case boot of
          Inl e \<Rightarrow> Inl e
        | Inr boot \<Rightarrow>
            (case url_parse spec of
               Inl e \<Rightarrow> Inl (BadURL s e)
             | Inr u \<Rightarrow>
                 if u_scheme u \<noteq> ''https'' then Inl (NotHTTPS s)
                 else if u_host u = [] then Inl (NoHost s)
                 else Inr \<lparr>ep_base = TrimSuffix (u_string u) ''/'', ep_host = u_hostname u,
                           ep_bootstrap = boot, ep_next = 0\<rparr>))"

definition matchesNetwork :: "string \<Rightarrow> string \<Rightarrow> bool" where
  "matchesNetwork network ip =
     (let is4 = To4_some (ParseIP ip) in
      if network = ''tcp4'' \<or> network = ''udp4'' then is4
      else if network = ''tcp6'' \<or> network = ''udp6'' then \<not> is4
      else True)"

definition addrs :: "string \<Rightarrow> endpoint \<Rightarrow> string list \<times> endpoint" where
  "addrs network e =
     (if length (ep_bootstrap e) = 0 then ([], e)
      else
        let start = unat (ep_next e); n = length (ep_bootstrap e);
            out = filter (matchesNetwork network)
              (map (\<lambda>i. ep_bootstrap e ! ((start + i) mod n)) [0..<n])
        in (out, e\<lparr>ep_next := ep_next e + 1\<rparr>))"

section \<open>The client\<close>

record dohClient =
  dh_endpoints :: "endpoint list"
  dh_hc :: http_client
  dh_timeout :: duration
  dh_lastMod :: "(string, time) gomap"
  dh_bootFailing :: "(string, bool) gomap"

record dohOptions =
  do_endpoints :: "string list"
  do_timeout :: duration
  do_tlsServerName :: string
  do_maxIdleConns :: int

fun make_endpoints :: "(string \<Rightarrow> string + url) \<Rightarrow> string list \<Rightarrow> endpoint_error + endpoint list" where
  "make_endpoints url_parse [] = Inr []"
| "make_endpoints url_parse (s # specs) =
     (case parseEndpoint url_parse s of
        Inl e \<Rightarrow> Inl e
      | Inr ep \<Rightarrow>
          let known = (case map_of wellKnownBootstrap (ep_host ep) of None \<Rightarrow> [] | Some b \<Rightarrow> b);
              ep = (if length (ep_bootstrap ep) = 0 then ep\<lparr>ep_bootstrap := known\<rparr> else ep)
          in case make_endpoints url_parse specs of Inl e \<Rightarrow> Inl e | Inr eps \<Rightarrow> Inr (ep # eps))"

definition newDOHClient :: "(string \<Rightarrow> string + url) \<Rightarrow> dohOptions \<Rightarrow> endpoint_error + dohClient" where
  "newDOHClient url_parse opts =
     (let specs = (if length (do_endpoints opts) = 0 then defaultEndpoints else do_endpoints opts);
          timeout = (if do_timeout opts \<le> 0 then defaultTimeout else do_timeout opts)
      in case make_endpoints url_parse specs of
          Inl e \<Rightarrow> Inl e
        | Inr eps \<Rightarrow> Inr \<lparr>dh_endpoints = eps, dh_hc = make_http_client (do_tlsServerName opts) (do_maxIdleConns opts),
                     dh_timeout = timeout, dh_lastMod = [], dh_bootFailing = []\<rparr>)"

section \<open>Dialling\<close>

datatype boot_log = Failing string | Recovered string

definition noteBootstrap :: "string \<Rightarrow> bool \<Rightarrow> dohClient \<Rightarrow> dohClient \<times> boot_log list" where
  "noteBootstrap host failing c =
     (let cur = (case map_of (dh_bootFailing c) host of None \<Rightarrow> False | Some b \<Rightarrow> b) in
      if cur = failing then (c, [])
      else (c\<lparr>dh_bootFailing := AList.update host failing (dh_bootFailing c)\<rparr>,
            if failing then [Failing host] else [Recovered host]))"

text \<open>The union of what the endpoints of a host declare, each list rotated.\<close>

fun collect_boot :: "string \<Rightarrow> string \<Rightarrow> endpoint list \<Rightarrow> string list \<times> bool \<times> endpoint list" where
  "collect_boot network host [] = ([], False, [])"
| "collect_boot network host (ep # eps) =
     (let (boot, declared, eps) = collect_boot network host eps in
      if ep_host ep \<noteq> host then (boot, declared, ep # eps)
      else let (out, ep') = addrs network ep
           in (out @ boot, 0 < length (ep_bootstrap ep) \<or> declared, ep' # eps))"

datatype dial_error = DialFailed string | NoUsableAddress string string | AllFailed string string

text \<open>The dials made, the first that succeeds, and the error of the last one otherwise.\<close>

fun try_dials ::
  "(string \<Rightarrow> string + 'conn) \<Rightarrow> string \<Rightarrow> string list \<Rightarrow> string list \<times> (string + 'conn) option" where
  "try_dials dialer port [] = ([], None)"
| "try_dials dialer port (ip # ips) =
     (let target = JoinHostPort ip port in
      case dialer target of
        Inr conn \<Rightarrow> ([target], Some (Inr conn))
      | Inl e \<Rightarrow>
          let (targets, r) = try_dials dialer port ips
          in (target # targets, case r of None \<Rightarrow> Some (Inl e) | Some r \<Rightarrow> Some r))"

definition direct :: "(string \<Rightarrow> string + 'conn) \<Rightarrow> string \<Rightarrow> dial_error + 'conn" where
  "direct dialer addr = (case dialer addr of Inl e \<Rightarrow> Inl (DialFailed e) | Inr conn \<Rightarrow> Inr conn)"

definition dial ::
  "(string \<Rightarrow> string + 'conn) \<Rightarrow> string \<Rightarrow> string \<Rightarrow> dohClient
     \<Rightarrow> (dial_error + 'conn) \<times> string list \<times> boot_log list \<times> dohClient" where
  "dial dialer network addr c =
     (case SplitHostPort addr of
        None \<Rightarrow> (direct dialer addr, [addr], [], c)
      | Some (host, port) \<Rightarrow>
          let (boot, declared, eps) = collect_boot network host (dh_endpoints c);
              c = c\<lparr>dh_endpoints := eps\<rparr>
          in if \<not> declared then (direct dialer addr, [addr], [], c)
             else if length boot = 0 then (Inl (NoUsableAddress host network), [], [], c)
             else let (targets, r) = try_dials dialer port boot
                  in case r of
                      Some (Inr conn) \<Rightarrow>
                        (let (c, lg) = noteBootstrap host False c in (Inr conn, targets, lg, c))
                    | Some (Inl e) \<Rightarrow>
                        (let (c, lg) = noteBootstrap host True c in (Inl (AllFailed host e), targets, lg, c))
                    | None \<Rightarrow> (Inl (NoUsableAddress host network), targets, [], c))"

section \<open>Exchanging\<close>

definition MaxMsgSize :: nat where "MaxMsgSize = 65535"

text \<open>\<open>io.ReadAll\<close> of a limited reader: a failure behind the limit is not seen.\<close>

definition read_limited :: "bytes \<times> string option \<Rightarrow> string + bytes" where
  "read_limited body =
     (if MaxMsgSize \<le> length (fst body) then Inr (take MaxMsgSize (fst body))
      else case snd body of None \<Rightarrow> Inr (fst body) | Some e \<Rightarrow> Inl e)"

definition request_headers :: "ClientInfo \<Rightarrow> header" where
  "request_headers ci =
     (let h = AList.update ''Content-Type'' dnsMessageMIME [];
          h = AList.update ''Accept'' dnsMessageMIME h;
          h = AList.update ''User-Agent'' userAgent h;
          h = AList.update ''X-Conf-Last-Modified'' ''true'' h
      in setHeaders ci h)"

definition confChangedAt :: "dohClient \<Rightarrow> string \<Rightarrow> time" where
  "confChangedAt c profile = (case map_of (dh_lastMod c) profile of None \<Rightarrow> zero_time | Some t \<Rightarrow> t)"

definition updateLastMod ::
  "(string \<Rightarrow> time option) \<Rightarrow> string \<Rightarrow> string \<Rightarrow> dohClient \<Rightarrow> dohClient" where
  "updateLastMod parse_time profile hdr c =
     (if hdr = [] then c
      else case parse_time hdr of
          None \<Rightarrow> c
        | Some t \<Rightarrow>
            if \<not> confChangedAt c profile < t then c
            else c\<lparr>dh_lastMod := AList.update profile t (dh_lastMod c)\<rparr>)"

datatype exchange_error =
  PackFailed string | PostFailed string | BadStatus string int | ReadFailed string string
  | UnpackFailed string string

text \<open>
  \<open>post url header wire\<close> is the HTTP round trip, without following redirects. The second
  component of the result is the header that \<open>updateLastMod\<close> is given.
\<close>

definition do_post ::
  "(string \<Rightarrow> header \<Rightarrow> bytes \<Rightarrow> string + http_response) \<Rightarrow> (bytes \<Rightarrow> string + msg)
     \<Rightarrow> endpoint \<Rightarrow> string \<Rightarrow> bytes \<Rightarrow> ClientInfo \<Rightarrow> exchange_error + msg \<times> string" where
  "do_post post unpack ep profile wire ci =
     (case post (ep_base ep @ ''/'' @ profile) (request_headers ci) wire of
        Inl e \<Rightarrow> Inl (PostFailed e)
      | Inr resp \<Rightarrow>
          if rs_status resp \<noteq> StatusOK then Inl (BadStatus (ep_host ep) (rs_status resp))
          else case read_limited (rs_body resp) of
              Inl e \<Rightarrow> Inl (ReadFailed (ep_host ep) e)
            | Inr body \<Rightarrow>
                (case unpack body of
                   Inl e \<Rightarrow> Inl (UnpackFailed (ep_host ep) e)
                 | Inr m \<Rightarrow> Inr (m, header_get ''X-Conf-Last-Modified'' (rs_header resp))))"

text \<open>
  The loop over the endpoints: \<open>cancelled i\<close> tells whether the context is done after the
  \<open>i\<close>-th attempt. The result is the message and its header, or the last error, which is
  \<open>None\<close> if there was no endpoint to ask; the hosts whose attempts failed are counted.
\<close>

fun try_endpoints ::
  "(endpoint \<Rightarrow> exchange_error + 'm) \<Rightarrow> (nat \<Rightarrow> bool) \<Rightarrow> nat \<Rightarrow> endpoint list
     \<Rightarrow> exchange_error option \<Rightarrow> (exchange_error option + 'm) \<times> string list" where
  "try_endpoints ask cancelled i [] lastErr = (Inl lastErr, [])"
| "try_endpoints ask cancelled i (ep # eps) lastErr =
     (case ask ep of
        Inr m \<Rightarrow> (Inr m, [])
      | Inl e \<Rightarrow>
          if cancelled i then (Inl (Some e), [ep_host ep])
          else let (r, failed) = try_endpoints ask cancelled (Suc i) eps (Some e)
               in (r, ep_host ep # failed))"

text \<open>
  \<open>exchange\<close> returns the reply and the error as Go does: \<open>(None, None)\<close> would be a nil reply
  without an error.
\<close>

definition exchange ::
  "(msg \<Rightarrow> string + bytes) \<Rightarrow> (string \<Rightarrow> header \<Rightarrow> bytes \<Rightarrow> string + http_response)
     \<Rightarrow> (bytes \<Rightarrow> string + msg) \<Rightarrow> (string \<Rightarrow> time option) \<Rightarrow> (nat \<Rightarrow> bool)
     \<Rightarrow> string \<Rightarrow> msg \<Rightarrow> ClientInfo \<Rightarrow> dohClient
     \<Rightarrow> (msg option \<times> exchange_error option) \<times> dohClient" where
  "exchange pack post unpack parse_time cancelled profile r ci c =
     (case pack (r\<lparr>m_id := 0\<rparr>) of
        Inl e \<Rightarrow> ((None, Some (PackFailed e)), c)
      | Inr wire \<Rightarrow>
          (case fst (try_endpoints (\<lambda>ep. do_post post unpack ep profile wire ci) cancelled 0
                       (dh_endpoints c) None) of
             Inl err \<Rightarrow> ((None, err), c)
           | Inr (m, hdr) \<Rightarrow> ((Some m, None), updateLastMod parse_time profile hdr c)))"

section \<open>Rotation\<close>

lemma addrs_rotate:
  "fst (addrs network e) = filter (matchesNetwork network) (rotate (unat (ep_next e)) (ep_bootstrap e))"
proof (cases "ep_bootstrap e = []")
  case False
  then have "map (\<lambda>i. ep_bootstrap e ! ((unat (ep_next e) + i) mod length (ep_bootstrap e))) [0..<length (ep_bootstrap e)]
      = rotate (unat (ep_next e)) (ep_bootstrap e)"
    by (intro nth_equalityI) (simp_all add: nth_rotate)
  with False show ?thesis by (simp add: addrs_def Let_def)
qed (simp add: addrs_def)

lemma mset_rotate1 [simp]: "mset (rotate1 xs) = mset xs"
  by (cases xs) simp_all

lemma mset_rotate [simp]: "mset (rotate n xs) = mset xs"
  by (induction n) simp_all

section \<open>Dialling only what was declared\<close>

definition usable :: "string \<Rightarrow> string \<Rightarrow> endpoint list \<Rightarrow> string set" where
  "usable network host eps =
     {ip. matchesNetwork network ip \<and> (\<exists>ep \<in> set eps. ep_host ep = host \<and> ip \<in> set (ep_bootstrap ep))}"

definition declares :: "string \<Rightarrow> endpoint list \<Rightarrow> bool" where
  "declares host eps \<longleftrightarrow> (\<exists>ep \<in> set eps. ep_host ep = host \<and> ep_bootstrap ep \<noteq> [])"

lemma usable_Cons:
  "usable network host (ep # eps) =
     (if ep_host ep = host then {ip \<in> set (ep_bootstrap ep). matchesNetwork network ip} else {}) \<union> usable network host eps"
  by (auto simp: usable_def)

lemma collect_boot_correct:
  "collect_boot network host eps = (boot, declared, eps') \<Longrightarrow>
     set boot = usable network host eps \<and> (declared \<longleftrightarrow> declares host eps)
     \<and> map (\<lambda>e. (ep_base e, ep_host e, ep_bootstrap e)) eps' = map (\<lambda>e. (ep_base e, ep_host e, ep_bootstrap e)) eps"
proof (induction eps arbitrary: boot declared eps')
  case Nil
  then show ?case by (auto simp: usable_def declares_def)
next
  case (Cons ep eps)
  obtain boot1 declared1 eps1 where c: "collect_boot network host eps = (boot1, declared1, eps1)"
    by (metis surj_pair)
  obtain out ep' where a: "addrs network ep = (out, ep')" by (metis surj_pair)
  have "set out = {ip \<in> set (ep_bootstrap ep). matchesNetwork network ip}"
    using addrs_rotate [of network ep] a by auto
  moreover have "ep_base ep' = ep_base ep" "ep_host ep' = ep_host ep" "ep_bootstrap ep' = ep_bootstrap ep"
    using a by (auto simp: addrs_def Let_def split: if_splits)
  ultimately show ?case
    using Cons.prems Cons.IH [OF c] c a by (auto simp: usable_Cons declares_def split: if_splits)
qed

lemma try_dials_correct:
  "try_dials dialer port ips = (targets, r) \<Longrightarrow> ips \<noteq> [] \<Longrightarrow>
     set targets \<subseteq> (\<lambda>ip. JoinHostPort ip port) ` set ips \<and>
     (case r of
        None \<Rightarrow> False
      | Some (Inr conn) \<Rightarrow> \<exists>t \<in> set targets. dialer t = Inr conn
      | Some (Inl e) \<Rightarrow> set targets = (\<lambda>ip. JoinHostPort ip port) ` set ips \<and> (\<forall>t \<in> set targets. \<not> is_ok (dialer t)))"
proof (induction ips arbitrary: targets r)
  case (Cons ip ips)
  show ?case
  proof (cases "dialer (JoinHostPort ip port)")
    case (Inr conn)
    with Cons.prems show ?thesis by auto
  next
    case (Inl e)
    obtain ts q where t: "try_dials dialer port ips = (ts, q)" by (metis surj_pair)
    show ?thesis
    proof (cases "ips = []")
      case True
      with Cons.prems Inl t show ?thesis by (auto split: option.splits)
    next
      case False
      with Cons.prems Cons.IH [OF t False] Inl t show ?thesis
        by (auto split: option.splits sum.splits)
    qed
  qed
qed simp

lemma dial_declared:
  assumes "SplitHostPort addr = Some (host, port)" and "declares host (dh_endpoints c)"
    and "dial dialer network addr c = (r, targets, lg, c')"
  shows "set targets \<subseteq> (\<lambda>ip. JoinHostPort ip port) ` usable network host (dh_endpoints c) \<and>
    (case r of
       Inr conn \<Rightarrow> \<exists>t \<in> set targets. dialer t = Inr conn
     | Inl e \<Rightarrow> set targets = (\<lambda>ip. JoinHostPort ip port) ` usable network host (dh_endpoints c)
         \<and> (\<forall>t \<in> set targets. \<not> is_ok (dialer t)))"
proof -
  obtain boot declared eps where b: "collect_boot network host (dh_endpoints c) = (boot, declared, eps)"
    by (metis surj_pair)
  note boot = collect_boot_correct [OF b]
  show ?thesis
  proof (cases "boot = []")
    case True
    with assms b boot show ?thesis by (auto simp: dial_def Let_def)
  next
    case False
    obtain ts q where t: "try_dials dialer port boot = (ts, q)" by (metis surj_pair)
    note tried = try_dials_correct [OF t False]
    show ?thesis
    proof (cases q)
      case None
      with tried show ?thesis by simp
    next
      case (Some res)
      let ?c = "c\<lparr>dh_endpoints := eps\<rparr>"
      have "dial dialer network addr c = (case res of
          Inr conn \<Rightarrow> (Inr conn, ts, snd (noteBootstrap host False ?c), fst (noteBootstrap host False ?c))
        | Inl e \<Rightarrow> (Inl (AllFailed host e), ts, snd (noteBootstrap host True ?c), fst (noteBootstrap host True ?c)))"
        using boot assms(2) False by (simp add: dial_def assms(1) b t Some split: sum.splits prod.splits)
      with assms(3) tried Some boot show ?thesis by (cases res) auto
    qed
  qed
qed

section \<open>A configured client\<close>

definition literal_ips :: "string list \<Rightarrow> bool" where
  "literal_ips ips \<longleftrightarrow> list_all (\<lambda>ip. ParseIP ip \<noteq> None) ips"

lemma parse_bootstrap_literal: "parse_bootstrap s xs = Inr boot \<Longrightarrow> literal_ips boot"
proof (induction xs arbitrary: boot)
  case Nil
  then show ?case by (simp add: literal_ips_def)
next
  case (Cons x xs)
  then show ?case by (auto simp: literal_ips_def Let_def split: if_splits sum.splits)
qed

lemma parseEndpoint_literal: "parseEndpoint up s = Inr ep \<Longrightarrow> literal_ips (ep_bootstrap ep)"
  using parse_bootstrap_literal
  by (fastforce simp: parseEndpoint_def literal_ips_def Let_def split: sum.splits if_splits)

lemma wellKnown_literal: "map_of wellKnownBootstrap h = Some b \<Longrightarrow> literal_ips b \<and> b \<noteq> []"
proof -
  have "list_all (\<lambda>p. literal_ips (snd p) \<and> snd p \<noteq> []) wellKnownBootstrap" by code_simp
  then show "map_of wellKnownBootstrap h = Some b \<Longrightarrow> literal_ips b \<and> b \<noteq> []"
    using map_of_SomeD [of wellKnownBootstrap h b] by (fastforce simp: list_all_iff)
qed

definition endpoint_ok :: "endpoint \<Rightarrow> bool" where
  "endpoint_ok ep \<longleftrightarrow> literal_ips (ep_bootstrap ep)
     \<and> (map_of wellKnownBootstrap (ep_host ep) \<noteq> None \<longrightarrow> ep_bootstrap ep \<noteq> [])"

lemma make_endpoints_ok:
  "make_endpoints up specs = Inr eps \<Longrightarrow> length eps = length specs \<and> list_all endpoint_ok eps"
proof (induction specs arbitrary: eps)
  case (Cons s specs)
  obtain ep where e: "parseEndpoint up s = Inr ep" using Cons.prems by (auto split: sum.splits)
  obtain eps' where r: "make_endpoints up specs = Inr eps'"
    using Cons.prems e by (auto simp: Let_def split: sum.splits)
  let ?known = "case map_of wellKnownBootstrap (ep_host ep) of None \<Rightarrow> [] | Some b \<Rightarrow> b"
  have "endpoint_ok (if ep_bootstrap ep = [] then ep\<lparr>ep_bootstrap := ?known\<rparr> else ep)"
    using parseEndpoint_literal [OF e] wellKnown_literal
    by (auto simp: endpoint_ok_def literal_ips_def split: option.splits)
  moreover have "eps = (if ep_bootstrap ep = [] then ep\<lparr>ep_bootstrap := ?known\<rparr> else ep) # eps'"
    using Cons.prems e r by (auto simp: Let_def)
  ultimately show ?case using Cons.IH [OF r] by simp
qed simp

section \<open>Failing over\<close>

text \<open>The endpoints an exchange gets to: those up to the one after which its context is done.\<close>

fun within :: "(nat \<Rightarrow> bool) \<Rightarrow> nat \<Rightarrow> 'e list \<Rightarrow> 'e list" where
  "within cancelled i [] = []"
| "within cancelled i (ep # eps) = ep # (if cancelled i then [] else within cancelled (Suc i) eps)"

definition as_reply :: "('e option + 'm) \<Rightarrow> 'm option \<times> 'e option" where
  "as_reply r = (case r of Inl e \<Rightarrow> (None, e) | Inr m \<Rightarrow> (Some m, None))"

lemma try_endpoints_first:
  "eps \<noteq> [] \<or> prev = Some e \<Longrightarrow> fst (try_endpoints ask cancelled i eps prev) =
     map_sum Some id (first_answer ask (within cancelled i eps) prev none)"
proof (induction eps arbitrary: i prev e)
  case Nil
  then show ?case by (simp add: first_answer_def)
next
  case (Cons ep eps)
  show ?case
  proof (cases "ask ep")
    case (Inr m)
    then show ?thesis by (simp add: first_answer_Cons_ok)
  next
    case (Inl e')
    then have "first_answer ask [ep] prev none = Inl e'" by (simp add: first_answer_def)
    with Inl Cons.IH [of "Some e'" e' "Suc i"] show ?thesis
      by (simp add: first_answer_Cons_fail split: prod.splits) (metis fst_conv)
  qed
qed

section \<open>When a profile last changed\<close>

lemma confChangedAt_update:
  "confChangedAt (updateLastMod parse_time p h c) q =
     (case (if h = [] \<or> p \<noteq> q then None else parse_time h) of
        None \<Rightarrow> confChangedAt c q | Some t \<Rightarrow> max (confChangedAt c q) t)"
  by (auto simp: updateLastMod_def confChangedAt_def max_def split: option.splits)

section \<open>Properties\<close>

text \<open>
  Every configured client has an endpoint and a positive timeout; every
  bootstrap address of every endpoint is a literal IP address, and an endpoint under a
  NextDNS host name always has some, whatever the options say.
\<close>

theorem client_endpoints_bootstrapped:
  assumes "newDOHClient url_parse opts = Inr c"
  shows "dh_endpoints c \<noteq> [] \<and> 0 < dh_timeout c \<and>
    (\<forall>ep \<in> set (dh_endpoints c). list_all (\<lambda>ip. ParseIP ip \<noteq> None) (ep_bootstrap ep) \<and>
       (map_of wellKnownBootstrap (ep_host ep) \<noteq> None \<longrightarrow> ep_bootstrap ep \<noteq> []))"
proof -
  let ?specs = "if do_endpoints opts = [] then defaultEndpoints else do_endpoints opts"
  obtain eps where m: "make_endpoints url_parse ?specs = Inr eps" and c: "dh_endpoints c = eps"
    using assms by (auto simp: newDOHClient_def Let_def split: sum.splits)
  have "length eps \<noteq> 0"
    using make_endpoints_ok [OF m] by (auto simp: defaultEndpoints_def)
  moreover have "0 < dh_timeout c"
    using assms m by (auto simp: newDOHClient_def Let_def defaultTimeout_def)
  ultimately show ?thesis
    using make_endpoints_ok [OF m] c by (auto simp: list_all_iff endpoint_ok_def literal_ips_def)
qed

definition sample_url :: "string \<Rightarrow> string + url" where
  "sample_url s = Inr \<lparr>u_scheme = ''https'', u_host = ''dns.nextdns.io'', u_hostname = ''dns.nextdns.io'', u_string = s\<rparr>"

definition sample_client :: dohClient where
  "sample_client = \<lparr>dh_endpoints = [\<lparr>ep_base = ''https://dns.nextdns.io'', ep_host = ''dns.nextdns.io'',
       ep_bootstrap = [''45.90.28.0'', ''2a07:a8c0::'', ''45.90.30.0'', ''2a07:a8c1::''], ep_next = 0\<rparr>],
     dh_hc = make_http_client [] 0, dh_timeout = 5000000000, dh_lastMod = [], dh_bootFailing = []\<rparr>"

lemma sample_client_made:
  "newDOHClient sample_url \<lparr>do_endpoints = [''https://dns.nextdns.io/''], do_timeout = 0, do_tlsServerName = [],
     do_maxIdleConns = 0\<rparr> = Inr sample_client"
  by code_simp

theorem client_endpoints_bootstrapped_witness:
  "list_all (\<lambda>ip. ParseIP ip \<noteq> None) (ep_bootstrap (hd (dh_endpoints sample_client))) \<and>
   length (ep_bootstrap (hd (dh_endpoints sample_client))) = 4"
  using client_endpoints_bootstrapped [OF sample_client_made] by (simp add: sample_client_def)

text \<open>
  Property C6. A host that declared bootstrap addresses is never resolved: everything that
  is dialled is one of the declared addresses usable on that network. The dial fails only
  after all of those have been tried and failed, and otherwise gives the connection of one
  of them.
\<close>

theorem dial_never_resolves:
  assumes "SplitHostPort addr = Some (host, port)"
    and "ep \<in> set (dh_endpoints c)" and "ep_host ep = host" and "ep_bootstrap ep \<noteq> []"
    and "dial dialer network addr c = (r, targets, lg, c')"
  shows "set targets \<subseteq> (\<lambda>ip. JoinHostPort ip port) ` usable network host (dh_endpoints c) \<and>
    (case r of
       Inr conn \<Rightarrow> \<exists>t \<in> set targets. dialer t = Inr conn
     | Inl e \<Rightarrow> set targets = (\<lambda>ip. JoinHostPort ip port) ` usable network host (dh_endpoints c)
         \<and> (\<forall>t \<in> set targets. \<not> is_ok (dialer t)))"
  by (rule dial_declared [OF assms(1) _ assms(5)]) (use assms(2-4) in \<open>auto simp: declares_def\<close>)

definition only_v6 :: "string \<Rightarrow> string + nat" where
  "only_v6 t = (if t = ''[2a07:a8c0::]:443'' then Inr 6 else Inl ''no route'')"

theorem dial_never_resolves_witness:
  "set [''45.90.28.0:443'', ''[2a07:a8c0::]:443'']
     \<subseteq> (\<lambda>ip. JoinHostPort ip ''443'') ` usable ''tcp'' ''dns.nextdns.io'' (dh_endpoints sample_client) \<and>
   (\<exists>t \<in> set [''45.90.28.0:443'', ''[2a07:a8c0::]:443'']. only_v6 t = Inr 6)"
proof -
  have s: "SplitHostPort ''dns.nextdns.io:443'' = Some (''dns.nextdns.io'', ''443'')" by code_simp
  have e: "hd (dh_endpoints sample_client) \<in> set (dh_endpoints sample_client)"
    and h: "ep_host (hd (dh_endpoints sample_client)) = ''dns.nextdns.io''"
    and b: "ep_bootstrap (hd (dh_endpoints sample_client)) \<noteq> []"
    by (simp_all add: sample_client_def)
  have "fst (dial only_v6 ''tcp'' ''dns.nextdns.io:443'' sample_client) = Inr 6"
    and "fst (snd (dial only_v6 ''tcp'' ''dns.nextdns.io:443'' sample_client))
      = [''45.90.28.0:443'', ''[2a07:a8c0::]:443'']"
    by code_simp+
  then obtain lg c' where d: "dial only_v6 ''tcp'' ''dns.nextdns.io:443'' sample_client
      = (Inr 6, [''45.90.28.0:443'', ''[2a07:a8c0::]:443''], lg, c')"
    by (metis prod.collapse)
  show ?thesis using dial_never_resolves [OF s e h b d] by simp
qed

text \<open>
  Consecutive dials rotate over the declared addresses: a dial tries every
  declared address usable on its network exactly as often as it was declared, starting one
  position further each time, and the position wraps around at \<open>2 ^ 32\<close>.
\<close>

theorem addrs_rotation:
  "fst (addrs network e) = filter (matchesNetwork network) (rotate (unat (ep_next e)) (ep_bootstrap e)) \<and>
   mset (fst (addrs network e)) = filter_mset (matchesNetwork network) (mset (ep_bootstrap e)) \<and>
   (ep_bootstrap e \<noteq> [] \<longrightarrow> uint (ep_next (snd (addrs network e))) = (uint (ep_next e) + 1) mod 2 ^ 32)"
  unfolding addrs_rotate by (simp add: mset_filter addrs_def Let_def uint_word_ariths)

theorem addrs_rotation_witness:
  "fst (addrs ''tcp4'' (snd (addrs ''tcp'' (hd (dh_endpoints sample_client))))) = [''45.90.30.0'', ''45.90.28.0''] \<and>
   uint (ep_next (snd (addrs ''tcp'' (hd (dh_endpoints sample_client))))) = 1"
proof -
  let ?e = "hd (dh_endpoints sample_client)"
  have b: "ep_bootstrap ?e \<noteq> []" and n: "ep_next ?e = 0" by (simp_all add: sample_client_def)
  then have "uint (ep_next (snd (addrs ''tcp'' ?e))) = 1"
    using addrs_rotation [of "''tcp''" ?e] by simp
  moreover have "fst (addrs ''tcp4'' (snd (addrs ''tcp'' ?e))) = [''45.90.30.0'', ''45.90.28.0'']"
    by code_simp
  ultimately show ?thesis by simp
qed

text \<open>
  Property C36. An exchange returns the reply of the first endpoint, in the configured
  order, that gives a usable one, asking no further endpoint once its context is done, and
  otherwise the error of the last one asked: never a missing reply without an error. The
  query goes on the wire with ID 0.
\<close>

theorem exchange_fails_over:
  assumes "dh_endpoints c \<noteq> []" and "pack (r\<lparr>m_id := 0\<rparr>) = Inr wire"
  shows "fst (exchange pack post unpack parse_time cancelled profile r ci c) =
    (case first_answer (\<lambda>ep. do_post post unpack ep profile wire ci)
            (within cancelled 0 (dh_endpoints c)) None (PackFailed []) of
       Inr (m, hdr) \<Rightarrow> (Some m, None) | Inl e \<Rightarrow> (None, Some e))"
proof -
  let ?ask = "\<lambda>ep. do_post post unpack ep profile wire ci"
  have e: "fst (try_endpoints ?ask cancelled 0 (dh_endpoints c) None) =
      map_sum Some id (first_answer ?ask (within cancelled 0 (dh_endpoints c)) None (PackFailed []))"
    using assms(1) by (intro try_endpoints_first) simp
  show ?thesis
    unfolding exchange_def assms(2) sum.case e
    by (cases "first_answer ?ask (within cancelled 0 (dh_endpoints c)) None (PackFailed [])") auto
qed

definition reply_msg :: msg where
  "reply_msg = (rq_req sample_query)\<lparr>m_id := 0\<rparr>"

definition two_endpoints :: dohClient where
  "two_endpoints = sample_client\<lparr>dh_endpoints :=
     [\<lparr>ep_base = ''https://down'', ep_host = ''down'', ep_bootstrap = [], ep_next = 0\<rparr>,
      \<lparr>ep_base = ''https://up'', ep_host = ''up'', ep_bootstrap = [], ep_next = 0\<rparr>]\<rparr>"

definition half_up :: "string \<Rightarrow> header \<Rightarrow> bytes \<Rightarrow> string + http_response" where
  "half_up u h w = (if u = ''https://up/abc123'' then Inr \<lparr>rs_status = 200, rs_header = [], rs_body = (w, None)\<rparr>
     else Inr \<lparr>rs_status = 503, rs_header = [], rs_body = ([], None)\<rparr>)"

theorem exchange_fails_over_witness:
  "fst (exchange (\<lambda>_. Inr [0]) half_up (\<lambda>_. Inr reply_msg) (\<lambda>_. None) (\<lambda>_. False) ''abc123''
     (rq_req sample_query) no_client two_endpoints) = (Some reply_msg, None)"
proof -
  have ne: "dh_endpoints two_endpoints \<noteq> []" by (simp add: two_endpoints_def)
  have "first_answer (\<lambda>ep. do_post half_up (\<lambda>_. Inr reply_msg) ep ''abc123'' [0] no_client)
      (within (\<lambda>_. False) 0 (dh_endpoints two_endpoints)) None (PackFailed []) = Inr (reply_msg, [])"
    by (simp add: first_answer_def two_endpoints_def do_post_def half_up_def StatusOK_def read_limited_def
      MaxMsgSize_def header_get_def)
  with exchange_fails_over [OF ne, of "\<lambda>_. Inr [0]" "rq_req sample_query" "[0]" half_up "\<lambda>_. Inr reply_msg"
      "\<lambda>_. None" "\<lambda>_. False" "''abc123''" no_client]
  show ?thesis by simp
qed

text \<open>
  The configuration time of a profile never goes back: after any sequence of
  replies it is the latest time any of them reported for that profile, missing and
  unparsable headers and other profiles having no effect.
\<close>

theorem configuration_time_is_latest:
  "confChangedAt (fold (\<lambda>(p, h). updateLastMod parse_time p h) hs c) q =
     fold max (List.map_filter (\<lambda>(p, h). if h = [] \<or> p \<noteq> q then None else parse_time h) hs) (confChangedAt c q)"
proof (induction hs arbitrary: c)
  case Nil
  then show ?case by (simp add: List.map_filter_simps)
next
  case (Cons x hs)
  obtain p h where x: "x = (p, h)" by (cases x)
  show ?case
    using Cons.IH [of "updateLastMod parse_time p h c"]
    by (auto simp: x List.map_filter_simps confChangedAt_update max.commute split: option.splits)
qed

definition note_all :: "string \<Rightarrow> bool list \<Rightarrow> dohClient \<Rightarrow> dohClient \<times> boot_log list" where
  "note_all host outcomes c =
     fold (\<lambda>b (c, lg). let (c', l) = noteBootstrap host b c in (c', lg @ l)) outcomes (c, [])"

lemma note_all_from:
  "map_of (dh_bootFailing c) host = (if seen then Some cur else None) \<Longrightarrow> seen \<or> \<not> cur \<Longrightarrow>
   snd (fold (\<lambda>b (c, lg). let (c', l) = noteBootstrap host b c in (c', lg @ l)) outcomes (c, lg0)) =
     lg0 @ map (\<lambda>b. if b then Failing host else Recovered host) (tl (remdups_adj (cur # outcomes)))"
proof (induction outcomes arbitrary: c cur seen lg0)
  case (Cons b outcomes)
  obtain c' l where n: "noteBootstrap host b c = (c', l)" by (metis surj_pair)
  have now: "(case map_of (dh_bootFailing c) host of None \<Rightarrow> False | Some b \<Rightarrow> b) = cur"
    using Cons.prems by (auto split: if_splits)
  show ?case
  proof (cases "cur = b")
    case True
    with n now have "c' = c" "l = []" by (auto simp: noteBootstrap_def Let_def)
    with Cons.IH [OF Cons.prems] True n show ?thesis by simp
  next
    case False
    with n now have "map_of (dh_bootFailing c') host = Some b"
      and "l = [if b then Failing host else Recovered host]"
      by (auto simp: noteBootstrap_def Let_def)
    with Cons.IH [of c' True b "lg0 @ l"] False n show ?thesis
      by (cases outcomes) (auto simp: remdups_adj_Cons split: list.splits)
  qed
qed simp

text \<open>
  Bootstrap trouble is logged on change only: over any sequence of outcomes
  for a host the log lines alternate between failing and recovered, one for each time the
  outcome differs from the one before.
\<close>

theorem bootstrap_log_alternates:
  assumes "map_of (dh_bootFailing c) host = None"
  shows "snd (note_all host outcomes c) =
    map (\<lambda>b. if b then Failing host else Recovered host) (tl (remdups_adj (False # outcomes)))"
  using note_all_from [of c host False False outcomes "[]"] assms by (simp add: note_all_def)

theorem bootstrap_log_alternates_witness:
  "snd (note_all ''h'' [False, True, True, False, True] sample_client) = [Failing ''h'', Recovered ''h'', Failing ''h'']"
  using bootstrap_log_alternates [of sample_client "''h''" "[False, True, True, False, True]"]
  by (simp add: sample_client_def)

text \<open>
  Property C16. A redirect is never followed: whatever a server answers, one attempt at an
  endpoint sends one request, to that endpoint's URL, so the headers that identify the device
  go nowhere else; and only a plain 200 of that very server can become a reply.
\<close>

theorem redirects_are_refused:
  assumes "newDOHClient url_parse opts = Inr c"
  shows "\<exists>r. client_Do (hc_CheckRedirect (dh_hc c)) resolve rt ''POST'' (ep_base ep @ ''/'' @ profile) (request_headers ci) wire
      = Some (r, [ep_base ep @ ''/'' @ profile]) \<and>
    (\<forall>m. do_post (\<lambda>_ _ _. r) unpack ep profile wire ci = Inr m \<longrightarrow>
      (\<exists>resp. rt ''POST'' (ep_base ep @ ''/'' @ profile) (request_headers ci) wire = Inr resp \<and> rs_status resp = StatusOK))"
proof -
  have "hc_CheckRedirect (dh_hc c) = ErrUseLastResponse"
    using assms make_http_client_ok [of "do_tlsServerName opts" "do_maxIdleConns opts"]
    by (auto simp: newDOHClient_def transport_ok_def Let_def split: sum.splits)
  then obtain r where "client_Do (hc_CheckRedirect (dh_hc c)) resolve rt ''POST'' (ep_base ep @ ''/'' @ profile)
      (request_headers ci) wire = Some (r, [ep_base ep @ ''/'' @ profile])"
    and r: "r = rt ''POST'' (ep_base ep @ ''/'' @ profile) (request_headers ci) wire \<or> (\<exists>e. r = Inl e)"
    using client_Do_once [of resolve rt "''POST''" "ep_base ep @ ''/'' @ profile" "request_headers ci" wire] by auto
  moreover have "\<exists>resp. r = Inr resp \<and> rs_status resp = StatusOK"
    if "do_post (\<lambda>_ _ _. r) unpack ep profile wire ci = Inr m" for m
    using that by (auto simp: do_post_def split: sum.splits if_splits)
  ultimately show ?thesis by (intro exI [of _ r]) auto
qed

definition redirecting :: "string \<Rightarrow> string \<Rightarrow> header \<Rightarrow> bytes \<Rightarrow> string + http_response" where
  "redirecting meth u h b =
     Inr (if u = ''https://elsewhere'' then \<lparr>rs_status = 200, rs_header = [], rs_body = ([], None)\<rparr>
       else \<lparr>rs_status = 307, rs_header = [(''Location'', ''https://elsewhere'')], rs_body = ([], None)\<rparr>)"

theorem redirects_are_refused_witness:
  "\<exists>r. client_Do (hc_CheckRedirect (dh_hc sample_client)) (\<lambda>_. Inr) redirecting ''POST''
      ''https://dns.nextdns.io/abc123'' (request_headers no_client) [0] = Some (r, [''https://dns.nextdns.io/abc123'']) \<and>
     (\<forall>m. do_post (\<lambda>_ _ _. r) (\<lambda>_. Inr reply_msg) (hd (dh_endpoints sample_client)) ''abc123'' [0] no_client \<noteq> Inr m) \<and>
   client_Do Proceed (\<lambda>_. Inr) redirecting ''POST'' ''https://dns.nextdns.io/abc123'' (request_headers no_client) [0]
     = Some (redirecting ''POST'' ''https://elsewhere'' (request_headers no_client) [0],
             [''https://dns.nextdns.io/abc123'', ''https://elsewhere''])"
proof -
  have u: "ep_base (hd (dh_endpoints sample_client)) @ ''/'' @ ''abc123'' = ''https://dns.nextdns.io/abc123''"
    by (simp add: sample_client_def)
  have "\<not> (\<exists>resp. redirecting ''POST'' ''https://dns.nextdns.io/abc123'' (request_headers no_client) [0] = Inr resp
      \<and> rs_status resp = StatusOK)"
    by (simp add: redirecting_def StatusOK_def)
  with redirects_are_refused [OF sample_client_made, of "\<lambda>_. Inr" redirecting "hd (dh_endpoints sample_client)" "''abc123''"
      no_client "[0]" "\<lambda>_. Inr reply_msg"] u
  have "\<exists>r. client_Do (hc_CheckRedirect (dh_hc sample_client)) (\<lambda>_. Inr) redirecting ''POST''
      ''https://dns.nextdns.io/abc123'' (request_headers no_client) [0] = Some (r, [''https://dns.nextdns.io/abc123'']) \<and>
     (\<forall>m. do_post (\<lambda>_ _ _. r) (\<lambda>_. Inr reply_msg) (hd (dh_endpoints sample_client)) ''abc123'' [0] no_client \<noteq> Inr m)"
    by metis
  moreover have "client_Do Proceed (\<lambda>_. Inr) redirecting ''POST'' ''https://dns.nextdns.io/abc123'' (request_headers no_client) [0]
     = Some (redirecting ''POST'' ''https://elsewhere'' (request_headers no_client) [0],
             [''https://dns.nextdns.io/abc123'', ''https://elsewhere''])"
    by (simp add: client_Do.simps [of Proceed] redirecting_def redirect_method_def header_get_def)
  ultimately show ?thesis by blast
qed

end
