(* ===== verification/Routes.thy ===== *)
theory Routes
  imports Device
begin

unbundle bit_operations_syntax

text \<open>
  Which profile a query belongs to: the validators and \<open>parsePrefix\<close> of \<open>setup.go\<close>, the
  sorting of the client subnets at the end of \<open>parseNextDNS\<close>, and \<open>profileFor\<close> and
  \<open>reachableRoutes\<close> of \<open>nextdns.go\<close>. The metadata label and the view of a query are
  arguments; a label without a value function is \<open>None\<close>.
\<close>

section \<open>Validators\<close>

datatype route_error = InvalidProfile string | ModelLength string | ModelNotPrintable string
  | InvalidSubnet string

definition passthrough :: string where
  "passthrough = ''-''"

definition profile_ok :: "string \<Rightarrow> bool" where
  "profile_ok p \<longleftrightarrow> 4 \<le> length p \<and> length p \<le> 64 \<and> list_all is_alnum p"

definition validProfile :: "string \<Rightarrow> route_error option" where
  "validProfile p = (if \<not> profile_ok p then Some (InvalidProfile p) else None)"

definition validRoute :: "string \<Rightarrow> route_error option" where
  "validRoute p = (if p = passthrough then None else validProfile p)"

definition validDeviceModel :: "string \<Rightarrow> route_error option" where
  "validDeviceModel m =
     (if m = [] \<or> maxNameLen < length m then Some (ModelLength m)
      else if list_ex (\<lambda>c. ord c < 0x20 \<or> 0x7e < ord c) m then Some (ModelNotPrintable m)
      else None)"

section \<open>Client subnets\<close>

record clientProfile =
  cp_prefix :: prefix
  cp_profile :: string

definition parsePrefix :: "string \<Rightarrow> route_error + prefix" where
  "parsePrefix s =
     (case ParsePrefix s of
        Some p \<Rightarrow> Inr (Masked (PrefixFrom (Unmap (pfx_addr p)) (pfx_bits p)))
      | None \<Rightarrow>
          (case ParseAddr s of
             None \<Rightarrow> Inl (InvalidSubnet s)
           | Some a \<Rightarrow> let a = Unmap a in Inr (PrefixFrom a (BitLen a))))"

text \<open>\<open>sort.SliceStable\<close> by descending prefix length.\<close>

definition sort_profiles :: "clientProfile list \<Rightarrow> clientProfile list" where
  "sort_profiles cps = sort_key (\<lambda>cp. - pfx_bits (cp_prefix cp)) cps"

section \<open>Routing\<close>

record routing =
  n_profile :: string
  n_viewProfiles :: "(string, string) gomap"
  n_clientProfiles :: "clientProfile list"
  n_badProfile :: bool

text \<open>The loop over the client subnets.\<close>

fun first_match :: "clientProfile list \<Rightarrow> addr \<Rightarrow> clientProfile option" where
  "first_match [] a = None"
| "first_match (cp # cps) a = (if Contains (cp_prefix cp) a then Some cp else first_match cps a)"

definition client_route :: "routing \<Rightarrow> request \<Rightarrow> string" where
  "client_route n st =
     (if 0 < length (n_clientProfiles n) then
        (case clientAddr (rq_ip st) of
           None \<Rightarrow> n_profile n
         | Some a \<Rightarrow>
             (case first_match (n_clientProfiles n) a of
                Some cp \<Rightarrow> cp_profile cp | None \<Rightarrow> n_profile n))
      else n_profile n)"

definition configured_route :: "string \<Rightarrow> routing \<Rightarrow> request \<Rightarrow> string" where
  "configured_route view n st =
     (if 0 < length (n_viewProfiles n) \<and> view \<noteq> [] then
        (case map_of (n_viewProfiles n) view of Some p \<Rightarrow> p | None \<Rightarrow> client_route n st)
      else client_route n st)"

text \<open>
  The profile, the routing state, in which the warning about a bad label has or has not
  been given, the number of invalid labels counted, and whether the warning was logged.
\<close>

definition profileFor ::
  "string option \<Rightarrow> string \<Rightarrow> routing \<Rightarrow> request \<Rightarrow> string \<times> routing \<times> nat \<times> bool" where
  "profileFor label view n st =
     (case label of
        Some p \<Rightarrow>
          if p \<noteq> [] then
            if validRoute p = None then (p, n, 0, False)
            else (configured_route view n st, n\<lparr>n_badProfile := True\<rparr>, 1, \<not> n_badProfile n)
          else (configured_route view n st, n, 0, False)
      | None \<Rightarrow> (configured_route view n st, n, 0, False))"

definition add_route :: "string \<Rightarrow> string list \<Rightarrow> string list" where
  "add_route p out = (if p = [] \<or> p \<in> set out then out else out @ [p])"

definition reachableRoutes :: "string \<Rightarrow> routing \<Rightarrow> string list" where
  "reachableRoutes view n =
     (case (if view \<noteq> [] then map_of (n_viewProfiles n) view else None) of
        Some p \<Rightarrow> [p]
      | None \<Rightarrow> fold (\<lambda>cp. add_route (cp_profile cp)) (n_clientProfiles n) (add_route (n_profile n) []))"

section \<open>The longest prefix\<close>

text \<open>The first configured among the longest subnets an address is in.\<close>

definition longest_match :: "clientProfile list \<Rightarrow> addr \<Rightarrow> clientProfile option" where
  "longest_match cps a =
     (let ms = filter (\<lambda>cp. Contains (cp_prefix cp) a) cps;
          longest = Max ((\<lambda>cp. pfx_bits (cp_prefix cp)) ` set ms)
      in if ms = [] then None else find (\<lambda>cp. pfx_bits (cp_prefix cp) = longest) ms)"

lemma first_match_filter:
  "first_match cps a = (case filter (\<lambda>cp. Contains (cp_prefix cp) a) cps of [] \<Rightarrow> None | cp # _ \<Rightarrow> Some cp)"
  by (induction cps) auto

lemma find_filter: "find P xs = (case filter P xs of [] \<Rightarrow> None | x # _ \<Rightarrow> Some x)"
  by (induction xs) auto

lemma sort_key_head:
  fixes f :: "'a \<Rightarrow> int"
  assumes "ys \<noteq> []"
  shows "filter (\<lambda>y. f y = Min (f ` set ys)) (sort_key f ys) = filter (\<lambda>y. f y = Min (f ` set ys)) ys"
    and "f (hd (sort_key f ys)) = Min (f ` set ys)"
proof -
  show "filter (\<lambda>y. f y = Min (f ` set ys)) (sort_key f ys) = filter (\<lambda>y. f y = Min (f ` set ys)) ys"
    by (rule sort_key_stable)
  have ne: "sort_key f ys \<noteq> []" using assms by (metis length_0_conv length_sort)
  have "sorted (map f (sort_key f ys))" by simp
  with ne have "\<forall>y \<in> set (sort_key f ys). f (hd (sort_key f ys)) \<le> f y"
    by (cases "sort_key f ys") auto
  moreover have "hd (sort_key f ys) \<in> set ys" using ne by (metis hd_in_set set_sort)
  ultimately show "f (hd (sort_key f ys)) = Min (f ` set ys)"
    by (intro Min_eqI [symmetric]) auto
qed

lemma filter_sort_key: "filter P (sort_key f xs) = sort_key f (filter P xs)"
  by (rule filter_sort)

lemma Min_uminus:
  fixes S :: "int set"
  assumes "finite S" and "S \<noteq> {}"
  shows "Min (uminus ` S) = - Max S"
  using Max_in [OF assms] assms by (intro Min_eqI) auto

lemma first_match_longest: "first_match (sort_profiles cps) a = longest_match cps a"
proof -
  let ?f = "\<lambda>cp. - pfx_bits (cp_prefix cp)"
  let ?ms = "filter (\<lambda>cp. Contains (cp_prefix cp) a) cps"
  let ?top = "Max ((\<lambda>cp. pfx_bits (cp_prefix cp)) ` set ?ms)"
  have fm: "first_match (sort_profiles cps) a = (case sort_key ?f ?ms of [] \<Rightarrow> None | cp # _ \<Rightarrow> Some cp)"
    by (simp add: first_match_filter sort_profiles_def filter_sort_key)
  show ?thesis
  proof (cases "?ms = []")
    case True
    then show ?thesis unfolding fm longest_match_def Let_def by simp
  next
    case False
    have "Min (uminus ` (\<lambda>cp. pfx_bits (cp_prefix cp)) ` set ?ms) = - ?top"
      by (rule Min_uminus) (use False in \<open>simp_all only: finite_imageI finite_set image_is_empty set_empty simp_thms\<close>)
    then have min: "Min (?f ` set ?ms) = - ?top" by (simp add: image_image)
    obtain cp rest where s: "sort_key ?f ?ms = cp # rest"
      using False by (metis length_0_conv length_sort neq_Nil_conv)
    have "?f cp = - ?top" using sort_key_head(2) [OF False, of ?f] s min by simp
    then have "filter (\<lambda>y. ?f y = - ?top) (sort_key ?f ?ms) = cp # filter (\<lambda>y. ?f y = - ?top) rest"
      by (simp add: s)
    then have "filter (\<lambda>y. ?f y = - ?top) ?ms = cp # filter (\<lambda>y. ?f y = - ?top) rest"
      using sort_key_head(1) [OF False, of ?f] min by simp
    then have "find (\<lambda>cp. pfx_bits (cp_prefix cp) = ?top) ?ms = Some cp"
      by (simp add: find_filter)
    then show ?thesis unfolding fm s longest_match_def Let_def using False by simp
  qed
qed

section \<open>Configured routes\<close>

text \<open>What the option parser guarantees of the profiles it stores.\<close>

definition routing_ok :: "routing \<Rightarrow> bool" where
  "routing_ok n \<longleftrightarrow> profile_ok (n_profile n)
     \<and> list_all (\<lambda>p. validRoute (snd p) = None) (n_viewProfiles n)
     \<and> list_all (\<lambda>cp. validRoute (cp_profile cp) = None) (n_clientProfiles n)"

lemma validRoute_None: "validRoute p = None \<longleftrightarrow> p = passthrough \<or> profile_ok p"
  by (simp add: validRoute_def validProfile_def)

lemma profile_ok_nonempty: "validRoute p = None \<Longrightarrow> p \<noteq> []"
  by (auto simp: validRoute_None passthrough_def profile_ok_def)

lemma first_match_in: "first_match cps a = Some cp \<Longrightarrow> cp \<in> set cps \<and> Contains (cp_prefix cp) a"
  by (induction cps) (auto split: if_splits)

lemma configured_route_valid: "routing_ok n \<Longrightarrow> validRoute (configured_route view n st) = None"
  using first_match_in map_of_SomeD
  by (fastforce simp: configured_route_def client_route_def routing_ok_def list_all_iff validRoute_None
    split: option.splits)

lemma profileFor_valid: "routing_ok n \<Longrightarrow> validRoute (fst (profileFor label view n st)) = None"
  using configured_route_valid by (auto simp: profileFor_def split: option.splits)

lemma profileFor_config: "(fst (snd (profileFor label view n st)))\<lparr>n_badProfile := b\<rparr> = n\<lparr>n_badProfile := b\<rparr>"
  by (auto simp: profileFor_def split: option.splits)

lemma routing_ok_profileFor: "routing_ok (fst (snd (profileFor label view n st))) = routing_ok n"
  by (auto simp: profileFor_def routing_ok_def split: option.splits)

lemma set_add_route: "set (add_route p out) = (if p = [] then {} else {p}) \<union> set out"
  by (auto simp: add_route_def)

lemma set_fold_add_route:
  "set (fold (\<lambda>cp. add_route (cp_profile cp)) cps out) = {p \<in> cp_profile ` set cps. p \<noteq> []} \<union> set out"
  by (induction cps arbitrary: out) (auto simp: set_add_route)

lemma distinct_fold_add_route:
  "distinct out \<Longrightarrow> distinct (fold (\<lambda>cp. add_route (cp_profile cp)) cps out)"
proof (induction cps arbitrary: out)
  case (Cons cp cps)
  then have "distinct (add_route (cp_profile cp) out)" by (simp add: add_route_def)
  with Cons.IH show ?case by simp
qed simp

lemma configured_route_reachable:
  assumes "routing_ok n"
  shows "configured_route view n st \<in> set (reachableRoutes view n)"
proof -
  have fold: "set (fold (\<lambda>cp. add_route (cp_profile cp)) (n_clientProfiles n) (add_route (n_profile n) []))
      = insert (n_profile n) (cp_profile ` set (n_clientProfiles n))"
    using assms profile_ok_nonempty
    by (fastforce simp: set_fold_add_route set_add_route routing_ok_def list_all_iff validRoute_None)
  have "client_route n st \<in> insert (n_profile n) (cp_profile ` set (n_clientProfiles n))"
    using first_match_in by (fastforce simp: client_route_def split: option.splits)
  then show ?thesis using fold by (auto simp: configured_route_def reachableRoutes_def split: option.splits)
qed

lemma distinct_reachableRoutes: "distinct (reachableRoutes view n)"
  using distinct_fold_add_route [of "add_route (n_profile n) []" "n_clientProfiles n"]
  by (auto simp: reachableRoutes_def add_route_def split: option.splits)

section \<open>Prefixes in text\<close>

lemma xor_eq_zero: "v XOR w = 0 \<longleftrightarrow> v = w" for v w :: "'a::len word"
proof
  assume "v XOR w = 0"
  then have "(v XOR w) XOR w = w" by simp
  then show "v = w" by (simp add: xor.assoc)
qed simp

lemma drop_bit_high_mask: "drop_bit (32 - n) (v XOR (w AND high_mask 32 n)) = (0 :: 32 word) \<longleftrightarrow> drop_bit (32 - n) v = drop_bit (32 - n) w"
proof -
  have "drop_bit (32 - n) (v XOR (w AND high_mask 32 n)) = drop_bit (32 - n) (v XOR w)"
    by (rule bit_word_eqI) (auto simp: bit_simps high_mask_def dest: bit_imp_le_length)
  then show ?thesis by (simp add: drop_bit_xor xor_eq_zero)
qed

lemma Contains_V4:
  "Contains \<lparr>pfx_addr = V4 (w AND high_mask 32 n), pfx_bits = int n\<rparr> (V4 v) \<longleftrightarrow>
     drop_bit (32 - n) v = drop_bit (32 - n) w"
proof -
  have "Contains \<lparr>pfx_addr = V4 (w AND high_mask 32 n), pfx_bits = int n\<rparr> (V4 v) \<longleftrightarrow>
      drop_bit (32 - n) (v XOR (w AND high_mask 32 n)) = 0"
    by (simp add: Contains_def has_zone_def)
  then show ?thesis unfolding drop_bit_high_mask .
qed

lemma Contains_V4_V6: "\<not> Contains \<lparr>pfx_addr = V4 w, pfx_bits = b\<rparr> (V6 v z)"
  by (simp add: Contains_def)

lemma small_numbers:
  "n \<le> 32 \<Longrightarrow> Atoi (to_base 10 (int n)) = Some (int n) \<and> CHR ''/'' \<notin> set (to_base 10 (int n)) \<and>
     \<not> (1 < length (to_base 10 (int n)) \<and> (ord (hd (to_base 10 (int n))) < 49 \<or> 57 < ord (hd (to_base 10 (int n)))))"
proof -
  have "list_all (\<lambda>n. Atoi (to_base 10 n) = Some n \<and> CHR ''/'' \<notin> set (to_base 10 n) \<and>
     \<not> (1 < length (to_base 10 n) \<and> (ord (hd (to_base 10 n)) < 49 \<or> 57 < ord (hd (to_base 10 n))))) [0..32]"
    by code_simp
  moreover assume "n \<le> 32"
  then have "int n \<in> set [0..32]" by simp
  ultimately show ?thesis unfolding list_all_iff by blast
qed

lemma ParsePrefix_cidr4:
  assumes "n \<le> 32"
  shows "ParsePrefix (string4 w @ ''/'' @ to_base 10 (int n)) = Some (PrefixFrom (V4 w) (int n))"
proof -
  have slash: "CHR ''/'' \<notin> set (string4 w)"
    using string4_chars [of "CHR ''/''" w] by (auto simp: is_digit_def)
  have "takeWhile (\<lambda>c. c \<noteq> CHR ''/'') (rev (to_base 10 (int n)) @ CHR ''/'' # rev (string4 w)) = rev (to_base 10 (int n))"
    using small_numbers [OF assms] by (subst takeWhile_append2) auto
  then show ?thesis
    using small_numbers [OF assms] assms
    by (simp add: ParsePrefix_def Let_def ParseAddr_string4 has_zone_def BitLen_def)
qed

section \<open>Properties\<close>

text \<open>
  Property C15. The profile of a query is the one of a valid metadata label, then the one
  of the view, then the one of the longest client subnet the client is in, the first
  configured among equally long ones, and then the default; an invalid label counts but
  does not route.
\<close>

theorem profile_precedence:
  "fst (profileFor label view (n\<lparr>n_clientProfiles := sort_profiles cps\<rparr>) st) =
     (case label of
        Some p \<Rightarrow> if p \<noteq> [] \<and> validRoute p = None then p
          else fst (profileFor None view (n\<lparr>n_clientProfiles := sort_profiles cps\<rparr>) st)
      | None \<Rightarrow>
          (case (if view = [] then None else map_of (n_viewProfiles n) view) of
             Some p \<Rightarrow> p
           | None \<Rightarrow>
               (case (case clientAddr (rq_ip st) of None \<Rightarrow> None | Some a \<Rightarrow> longest_match cps a) of
                  Some cp \<Rightarrow> cp_profile cp
                | None \<Rightarrow> n_profile n)))"
proof -
  have "length (sort_profiles cps) = length cps" by (simp add: sort_profiles_def)
  moreover have "longest_match [] a = None" for a by (simp add: longest_match_def)
  moreover have "map_of (n_viewProfiles n) view = None" if "n_viewProfiles n = []" using that by simp
  ultimately show ?thesis
    by (auto simp: profileFor_def configured_route_def client_route_def first_match_longest
      split: option.splits)
qed

text \<open>
  Under a configuration the option parser accepts, the profile of a query is
  always passthrough or 4 to 64 letters and digits, whatever label another plugin sets, so
  nothing unchecked reaches the URL path.
\<close>

theorem routed_profile_is_valid:
  assumes "routing_ok n"
  shows "fst (profileFor label view n st) = passthrough \<or> profile_ok (fst (profileFor label view n st))"
  using profileFor_valid [OF assms] by (simp add: validRoute_None)

definition sample_routing :: routing where
  "sample_routing = \<lparr>n_profile = ''abc123'', n_viewProfiles = [(''guests'', ''guests1'')],
     n_clientProfiles = sort_profiles
       [\<lparr>cp_prefix = PrefixFrom (V4 0x0A000000) 8, cp_profile = ''wide1''\<rparr>,
        \<lparr>cp_prefix = PrefixFrom (V4 0x0A000000) 24, cp_profile = ''-''\<rparr>],
     n_badProfile = False\<rparr>"

lemma sample_routing_ok: "routing_ok sample_routing"
  by code_simp

theorem routed_profile_is_valid_witness:
  "fst (profileFor (Some ''../x'') [] sample_routing sample_query) = passthrough \<and>
   profile_ok (fst (profileFor (Some ''../x'') ''guests'' sample_routing sample_query))"
proof -
  have "fst (profileFor (Some ''../x'') [] sample_routing sample_query) = passthrough"
    and "fst (profileFor (Some ''../x'') ''guests'' sample_routing sample_query) \<noteq> passthrough"
    by code_simp+
  with routed_profile_is_valid [OF sample_routing_ok, of "Some ''../x''" "''guests''" sample_query]
  show ?thesis by simp
qed

text \<open>
  The routes counted for the warning about the cache plugin are complete and
  distinct: without a valid metadata label, no query of a block bound to that view is
  routed anywhere else.
\<close>

theorem reachable_routes_complete:
  assumes "routing_ok n" and "label = None \<or> label = Some p \<and> validRoute p \<noteq> None"
  shows "fst (profileFor label view n st) \<in> set (reachableRoutes view n) \<and> distinct (reachableRoutes view n)"
proof -
  have "fst (profileFor label view n st) = configured_route view n st"
    using assms(2) by (auto simp: profileFor_def)
  with configured_route_reachable [OF assms(1)] show ?thesis by (simp add: distinct_reachableRoutes)
qed

theorem reachable_routes_complete_witness:
  "''-'' \<in> set (reachableRoutes [] sample_routing) \<and> distinct (reachableRoutes [] sample_routing)"
proof -
  have "fst (profileFor (Some ''no'') [] sample_routing sample_query) = ''-''" by code_simp
  moreover have "validRoute ''no'' \<noteq> None" by code_simp
  ultimately show ?thesis
    using reachable_routes_complete [OF sample_routing_ok, of "Some ''no''" "''no''" "[]" sample_query] by simp
qed

text \<open>
  A client subnet written as an IPv4 CIDR matches exactly the addresses that
  agree with it in its leading bits, and a bare address only itself; neither matches an IPv6
  client.
\<close>

theorem parsePrefix_ipv4:
  assumes "n \<le> 32"
  shows "(\<exists>p. parsePrefix (string4 w @ ''/'' @ to_base 10 (int n)) = Inr p \<and> pfx_bits p = int n \<and>
      (\<forall>v. Contains p (V4 v) \<longleftrightarrow> drop_bit (32 - n) v = drop_bit (32 - n) w) \<and> (\<forall>v z. \<not> Contains p (V6 v z))) \<and>
    (\<exists>p. parsePrefix (string4 w) = Inr p \<and> (\<forall>a. Contains p a \<longleftrightarrow> a = V4 w))"
proof
  have "parsePrefix (string4 w @ ''/'' @ to_base 10 (int n)) =
      Inr (PrefixFrom (V4 (w AND high_mask 32 n)) (int n))"
    using assms by (simp add: parsePrefix_def ParsePrefix_cidr4 [OF assms, simplified] PrefixFrom_def BitLen_def Masked_def)
  moreover have "PrefixFrom (V4 (w AND high_mask 32 n)) (int n) = \<lparr>pfx_addr = V4 (w AND high_mask 32 n), pfx_bits = int n\<rparr>"
    using assms by (simp add: PrefixFrom_def BitLen_def)
  ultimately show "\<exists>p. parsePrefix (string4 w @ ''/'' @ to_base 10 (int n)) = Inr p \<and> pfx_bits p = int n \<and>
      (\<forall>v. Contains p (V4 v) \<longleftrightarrow> drop_bit (32 - n) v = drop_bit (32 - n) w) \<and> (\<forall>v z. \<not> Contains p (V6 v z))"
    using Contains_V4 [of w n] Contains_V4_V6 by auto
  have "CHR ''/'' \<notin> set (string4 w)"
    using string4_chars [of "CHR ''/''" w] by (auto simp: is_digit_def)
  then have "parsePrefix (string4 w) = Inr (PrefixFrom (V4 w) 32)"
    by (simp add: parsePrefix_def ParsePrefix_def ParseAddr_string4 BitLen_def)
  then show "\<exists>p. parsePrefix (string4 w) = Inr p \<and> (\<forall>a. Contains p a \<longleftrightarrow> a = V4 w)"
    by (auto simp: PrefixFrom_def BitLen_def Contains_def has_zone_def xor_eq_zero split: addr.splits)
qed

theorem parsePrefix_ipv4_witness:
  "\<exists>p. parsePrefix ''10.1.2.3/24'' = Inr p \<and> Contains p (V4 0x0A0102FF) \<and> \<not> Contains p (V4 0x0A010300)"
proof -
  have s: "string4 0x0A010203 @ ''/'' @ to_base 10 (int 24) = ''10.1.2.3/24''" by code_simp
  have "drop_bit 8 (0x0A0102FF :: 32 word) = drop_bit 8 0x0A010203"
    and "drop_bit 8 (0x0A010300 :: 32 word) \<noteq> drop_bit 8 0x0A010203" by simp_all
  then show ?thesis
    using parsePrefix_ipv4 [of 24 "0x0A010203", unfolded s] by auto
qed

text \<open>
  Property C27. A subnet written in v4-mapped form is silently misread: its length still
  counts the 96 mapped bits when the address is unmapped, so beyond 32 the rule is accepted
  and matches no client at all, and up to 32 it becomes an IPv4 subnet of that length.
\<close>

theorem mapped_subnet_misread:
  assumes "ParsePrefix s = Some p" and "pfx_addr p = V6 w z" and "Is4In6 (pfx_addr p)" and "0 \<le> pfx_bits p"
  shows "if 32 < pfx_bits p then \<exists>q. parsePrefix s = Inr q \<and> (\<forall>a. \<not> Contains q a)
     else parsePrefix s = Inr (Masked \<lparr>pfx_addr = V4 (ucast w), pfx_bits = pfx_bits p\<rparr>)"
proof -
  have "Unmap (pfx_addr p) = V4 (ucast w)" using assms(2,3) by (simp add: Unmap_def)
  then show ?thesis
    using assms(1,4) by (auto simp: parsePrefix_def PrefixFrom_def BitLen_def Masked_def Contains_def no_prefix_def)
qed

theorem mapped_subnet_misread_witness:
  "(\<exists>q. parsePrefix ''::ffff:10.0.0.0/104'' = Inr q \<and> (\<forall>a. \<not> Contains q a)) \<and>
   parsePrefix ''::ffff:10.1.2.3/8'' = Inr \<lparr>pfx_addr = V4 0x0A000000, pfx_bits = 8\<rparr>"
proof -
  have a: "ParsePrefix ''::ffff:10.0.0.0/104'' = Some \<lparr>pfx_addr = V6 0xffff0a000000 [], pfx_bits = 104\<rparr>"
    and b: "ParsePrefix ''::ffff:10.1.2.3/8'' = Some \<lparr>pfx_addr = V6 0xffff0a010203 [], pfx_bits = 8\<rparr>"
    and c: "Is4In6 (V6 0xffff0a000000 [])" "Is4In6 (V6 0xffff0a010203 [])"
    and m: "Masked \<lparr>pfx_addr = V4 (ucast (0xffff0a010203 :: 128 word)), pfx_bits = 8\<rparr> = \<lparr>pfx_addr = V4 0x0A000000, pfx_bits = 8\<rparr>"
    by code_simp+
  show ?thesis
    using mapped_subnet_misread [OF a] mapped_subnet_misread [OF b] c m by simp
qed

end
