(* ===== verification/Handler.thy ===== *)
theory Handler
  imports MsgCache Discovery Doh Routes
begin

text \<open>
  \<open>nextdns.go\<close>: the handler. \<open>serve\<close> is one run of \<open>ServeDNS\<close> from its first line to its
  return: it takes the instance and the state of the discoverer and returns what the code
  returns, what it did on the way as a list of events, and both states. What lies outside
  the repository is collected in \<open>services\<close>: the hash, the wire format, the HTTP round trip,
  the next plugin and the few functions of the DNS and CoreDNS libraries the handler calls.
  Timing metrics are left out; counters are events.
\<close>

section \<open>The instance\<close>

record nextdns = routing +
  n_client :: dohClient
  n_devices :: deviceDB
  n_cache :: "msgCache option"
  n_maxConcurrent :: int
  n_concurrent :: int

record 'd services =
  sv_sum64 :: "bytes \<Rightarrow> u64"
  sv_minimalTTL :: "msg \<Rightarrow> time \<Rightarrow> duration"
  sv_pack :: "msg \<Rightarrow> string + bytes"
  sv_post :: "string \<Rightarrow> header \<Rightarrow> bytes \<Rightarrow> string + http_response"
  sv_unpack :: "bytes \<Rightarrow> string + msg"
  sv_parse_time :: "string \<Rightarrow> time option"
  sv_cancelled :: "nat \<Rightarrow> bool"
  sv_discover :: "bool \<Rightarrow> addr \<Rightarrow> 'd \<Rightarrow> string \<times> 'd"
  sv_next :: "msg \<Rightarrow> (int \<times> string option) \<times> msg list"
  sv_client_write :: "int \<Rightarrow> bool"
  sv_set_rcode :: "msg \<Rightarrow> int \<Rightarrow> msg"
  sv_match :: "request \<Rightarrow> msg \<Rightarrow> bool"

text \<open>A query as the handler gets it, with the context values it reads.\<close>

record query =
  qu_state :: request
  qu_ctx :: context_values
  qu_label :: "string option"
  qu_view :: string
  qu_metadata :: bool
  qu_now :: time
  qu_later :: time
  qu_victim :: nat

datatype event =
    NextPlugin
  | Write msg
  | Publish "(string \<times> string) list"
  | Count string
  | Warn string
  | Upstream string
  | Put nat time string request msg

datatype serve_error = NextError string | MaxConcurrent | ExchangeError exchange_error | NilDereference

type_synonym served = "(int \<times> serve_error option) \<times> event list"

section \<open>The steps of a query\<close>

definition call_next :: "'d services \<Rightarrow> msg \<Rightarrow> served" where
  "call_next sv r =
     (let ((rc, err), ws) = sv_next sv r
      in ((rc, map_option NextError err), NextPlugin # map Write ws))"

text \<open>A reverse lookup of the plugin's own that has come back around.\<close>

definition serve_discovery :: "'d services \<Rightarrow> msg \<Rightarrow> served" where
  "serve_discovery sv r =
     (let ((rc, err), evs) = call_next sv r in
      if err = None \<or> sv_client_write sv rc then ((rc, None), evs)
      else ((RcodeSuccess, None), evs @ [Write (sv_set_rcode sv r RcodeNameError)]))"

definition publish :: "bool \<Rightarrow> string \<Rightarrow> ClientInfo \<Rightarrow> event list" where
  "publish metadata profile ci =
     (if \<not> metadata then []
      else [Publish ((''nextdns/profile-used'', profile) #
        filter (\<lambda>(label, v). v \<noteq> [])
          [(''nextdns/device-id'', ci_ID ci), (''nextdns/device-name'', ci_Name ci),
           (''nextdns/device-model'', ci_Model ci), (''nextdns/device-ip'', ci_IP ci)])])"

definition reply :: "request \<Rightarrow> msg \<Rightarrow> served" where
  "reply st m = ((RcodeSuccess, None), [Count ''responses'', Write (m\<lparr>m_id := m_id (rq_req st)\<rparr>)])"

definition cached_reply :: "'d services \<Rightarrow> string \<Rightarrow> query \<Rightarrow> nextdns \<Rightarrow> msg option" where
  "cached_reply sv profile q n =
     (case n_cache n of
        None \<Rightarrow> None
      | Some mc \<Rightarrow> hit_msg (cache_get (sv_sum64 sv) (qu_now q) (confChangedAt (n_client n) profile)
                     profile (qu_state q) mc))"

text \<open>\<open>n.cache.put\<close>, and the event that records it.\<close>

definition put_reply :: "'d services \<Rightarrow> string \<Rightarrow> query \<Rightarrow> msg \<Rightarrow> nextdns \<Rightarrow> event list \<times> nextdns" where
  "put_reply sv profile q m n =
     (case n_cache n of
        None \<Rightarrow> ([], n)
      | Some mc \<Rightarrow>
          ([Put (qu_victim q) (qu_later q) profile (qu_state q) m],
           n\<lparr>n_cache := Some (cache_put (sv_sum64 sv) (sv_minimalTTL sv) (qu_victim q) (qu_later q)
                                 profile (qu_state q) m mc)\<rparr>))"

text \<open>
  From the exchange on, for a query that was given a slot. A missing reply without an error
  would be a nil dereference.
\<close>

definition serve_upstream ::
  "'d services \<Rightarrow> string \<Rightarrow> query \<Rightarrow> ClientInfo \<Rightarrow> nextdns \<Rightarrow> served \<times> nextdns" where
  "serve_upstream sv profile q ci n =
     (let r = rq_req (qu_state q);
          ((m, err), client) = exchange (sv_pack sv) (sv_post sv) (sv_unpack sv) (sv_parse_time sv)
                                 (sv_cancelled sv) profile r ci (n_client n);
          n = n\<lparr>n_client := client\<rparr>
      in case err of
          Some e \<Rightarrow> (((RcodeServerFailure, Some (ExchangeError e)), [Upstream profile]), n)
        | None \<Rightarrow>
            (case m of
               None \<Rightarrow> (((RcodeServerFailure, Some NilDereference), [Upstream profile]), n)
             | Some m \<Rightarrow>
                 if \<not> sv_match sv (qu_state q) m then
                   (((RcodeSuccess, None),
                     [Upstream profile, Count ''mismatches'', Write (sv_set_rcode sv r RcodeFormatError)]), n)
                 else
                   let (puts, n) = put_reply sv profile q m n; (res, evs) = reply (qu_state q) m
                   in ((res, Upstream profile # puts @ evs), n)))"

text \<open>
  The slot: the counter goes up, the query is refused if that takes it past the limit, and
  the deferred decrement runs on every return. Both are single atomic additions.
\<close>

definition take_slot :: "nextdns \<Rightarrow> bool \<times> nextdns" where
  "take_slot n =
     (let n = n\<lparr>n_concurrent := n_concurrent n + 1\<rparr> in (\<not> n_maxConcurrent n < n_concurrent n, n))"

definition give_slot :: "nextdns \<Rightarrow> nextdns" where
  "give_slot n = n\<lparr>n_concurrent := n_concurrent n - 1\<rparr>"

definition with_slot ::
  "(nextdns \<Rightarrow> served \<times> nextdns) \<Rightarrow> nextdns \<Rightarrow> served \<times> nextdns" where
  "with_slot body n =
     (if n_maxConcurrent n \<le> 0 then body n
      else
        let (admitted, n) = take_slot n;
            (res, n) = (if \<not> admitted
                        then (((RcodeRefused, Some MaxConcurrent), [Count ''max_concurrent_rejects'']), n)
                        else body n)
        in (res, give_slot n))"

definition look_up ::
  "'d services \<Rightarrow> bool \<Rightarrow> string \<Rightarrow> query \<Rightarrow> nextdns \<Rightarrow> 'd \<Rightarrow> ClientInfo \<times> 'd" where
  "look_up sv mayHold profile q n d =
     lookup (sv_sum64 sv) (sv_discover sv mayHold) (n_devices n) (qu_state q) profile d"

text \<open>
  \<open>ServeDNS\<close> up to the cache: a query that is dealt with there has its result, any other goes
  on with its profile.
\<close>

definition arrive ::
  "'d services \<Rightarrow> query \<Rightarrow> nextdns \<times> 'd \<Rightarrow> (served + string \<times> event list) \<times> nextdns \<times> 'd" where
  "arrive sv q s =
     (let (n, d) = s; r = rq_req (qu_state q) in
      if isDiscovery (qu_ctx q) then (Inl (serve_discovery sv r), n, d)
      else
        let (profile, n', bad, warned) = profileFor (qu_label q) (qu_view q) (routing.truncate n) (qu_state q);
            n = n\<lparr>n_badProfile := n_badProfile n'\<rparr>;
            evs = replicate bad (Count ''invalid_profiles'') @ (if warned then [Warn (the (qu_label q))] else [])
        in if profile = [] \<or> profile = passthrough then
             (let (res, nx) = call_next sv r in (Inl (res, evs @ nx), n, d))
           else case cached_reply sv profile q n of
             Some m \<Rightarrow>
               (let (ci, d) = look_up sv False profile q n d;
                    (res, rp) = reply (qu_state q) m
                in (Inl (res, evs @ [Count ''cache_hits''] @ publish (qu_metadata q) profile ci @ rp), n, d))
           | None \<Rightarrow>
               (Inr (profile, evs @ (if n_cache n = None then [] else [Count ''cache_misses''])), n, d))"

text \<open>The device the query came from, for which it may be held.\<close>

definition identify ::
  "'d services \<Rightarrow> string \<Rightarrow> query \<Rightarrow> nextdns \<Rightarrow> 'd \<Rightarrow> ClientInfo \<times> event list \<times> 'd" where
  "identify sv profile q n d =
     (let (ci, d) = look_up sv True profile q n d in (ci, publish (qu_metadata q) profile ci, d))"

definition serve :: "'d services \<Rightarrow> query \<Rightarrow> nextdns \<times> 'd \<Rightarrow> served \<times> nextdns \<times> 'd" where
  "serve sv q s =
     (case arrive sv q s of
        (Inl r, s) \<Rightarrow> (r, s)
      | (Inr (profile, evs), n, d) \<Rightarrow>
          (let (ci, pub, d) = identify sv profile q n d;
               ((res, up), n) = with_slot (serve_upstream sv profile q ci) n
           in ((res, evs @ pub @ up), n, d)))"

text \<open>A sequence of queries, each served before the next one starts.\<close>

fun serve_all :: "'d services \<Rightarrow> query list \<Rightarrow> nextdns \<times> 'd \<Rightarrow> event list \<times> nextdns \<times> 'd" where
  "serve_all sv [] s = ([], s)"
| "serve_all sv (q # qs) s =
     (let ((_, evs), s) = serve sv q s; (more, s) = serve_all sv qs s in (evs @ more, s))"

text \<open>
  The discoverer as the handler calls it: \<open>meanwhile\<close> is whatever other queries and lookups do
  to the world while this query is held, \<open>wk\<close> what ends the hold.
\<close>

definition discover_name ::
  "time \<Rightarrow> (world \<Rightarrow> world) \<Rightarrow> wake \<Rightarrow> bool \<Rightarrow> addr \<Rightarrow> world option \<Rightarrow> string \<times> world option" where
  "discover_name now meanwhile wk mayHold a w =
     (case w of
        None \<Rightarrow> ([], None)
      | Some w \<Rightarrow>
          let w' = query_step now mayHold a w in
          case fst (name_locked now mayHold (w_next w) a (w_disc w)) of
            Answer s \<Rightarrow> (s, Some w')
          | Hold c \<Rightarrow>
              let w'' = meanwhile w'
              in (hold wk a (w_disc w''), Some (w''\<lparr>w_holds := remove1 (c, a) (w_holds w'')\<rparr>)))"

section \<open>The four ways a query goes\<close>

definition routed :: "query \<Rightarrow> nextdns \<Rightarrow> string" where
  "routed q n = fst (profileFor (qu_label q) (qu_view q) (routing.truncate n) (qu_state q))"

definition quiet :: "event \<Rightarrow> bool" where
  "quiet e = (case e of Count s \<Rightarrow> s \<noteq> ''cache_hits'' | Warn _ \<Rightarrow> True | Publish _ \<Rightarrow> True | _ \<Rightarrow> False)"

lemma quiet_publish: "list_all quiet (publish md p ci)"
  by (simp add: publish_def quiet_def)

lemma quiet_parts: "quiet (Count ''invalid_profiles'')" "quiet (Warn s)" "quiet (Count ''cache_misses'')"
  by (simp_all add: quiet_def)

lemma quiet_replicate: "list_all quiet (replicate k (Count ''invalid_profiles''))"
  by (simp add: list_all_iff quiet_parts)

lemma cached_reply_bad [simp]: "cached_reply sv p q (n\<lparr>n_badProfile := b\<rparr>) = cached_reply sv p q n"
  by (simp add: cached_reply_def split: option.splits)

lemma look_up_bad [simp]: "look_up sv mh p q (n\<lparr>n_badProfile := b\<rparr>) d = look_up sv mh p q n d"
  by (simp add: look_up_def)

lemma arrive_cases:
  assumes "arrive sv q (n, d) = (r, n', d')"
  obtains
    (own) "isDiscovery (qu_ctx q)" and "r = Inl (serve_discovery sv (rq_req (qu_state q)))"
      and "n' = n" and "d' = d"
  | (other) pre b where "\<not> isDiscovery (qu_ctx q)" and "routed q n = [] \<or> routed q n = passthrough"
      and "list_all quiet pre"
      and "r = Inl (fst (call_next sv (rq_req (qu_state q))), pre @ snd (call_next sv (rq_req (qu_state q))))"
      and "n' = n\<lparr>n_badProfile := b\<rparr>" and "d' = d"
  | (hit) pre b m where "\<not> isDiscovery (qu_ctx q)" and "routed q n \<noteq> []" and "routed q n \<noteq> passthrough"
      and "cached_reply sv (routed q n) q n = Some m" and "list_all quiet (filter (\<lambda>e. e \<noteq> Count ''cache_hits'') pre)"
      and "Count ''cache_hits'' \<in> set pre"
      and "r = Inl (fst (reply (qu_state q) m), pre @ snd (reply (qu_state q) m))"
      and "n' = n\<lparr>n_badProfile := b\<rparr>" and "d' = snd (look_up sv False (routed q n) q n d)"
  | (miss) pre b where "\<not> isDiscovery (qu_ctx q)" and "routed q n \<noteq> []" and "routed q n \<noteq> passthrough"
      and "cached_reply sv (routed q n) q n = None" and "list_all quiet pre"
      and "r = Inr (routed q n, pre)" and "n' = n\<lparr>n_badProfile := b\<rparr>" and "d' = d"
proof (cases "isDiscovery (qu_ctx q)")
  case True
  with assms own show ?thesis by (simp add: arrive_def)
next
  case False
  obtain p nr bad warned where p: "profileFor (qu_label q) (qu_view q) (routing.truncate n) (qu_state q) = (p, nr, bad, warned)"
    by (metis surj_pair)
  then have r: "routed q n = p" by (simp add: routed_def)
  let ?evs = "replicate bad (Count ''invalid_profiles'') @ (if warned then [Warn (the (qu_label q))] else [])"
  have ev: "list_all quiet ?evs" by (simp add: quiet_replicate quiet_parts)
  show ?thesis
  proof (cases "p = [] \<or> p = passthrough")
    case True
    show ?thesis
      by (rule other [of ?evs "n_badProfile nr"])
        (use assms False True p ev in \<open>auto simp: arrive_def r split: prod.splits\<close>)
  next
    case np: False
    obtain ci1 d1 where l1: "look_up sv False p q n d = (ci1, d1)" by (metis surj_pair)
    show ?thesis
    proof (cases "cached_reply sv p q n")
      case (Some m)
      show ?thesis
      proof (rule hit [of m "?evs @ [Count ''cache_hits''] @ publish (qu_metadata q) p ci1" "n_badProfile nr"])
        show "list_all quiet (filter (\<lambda>e. e \<noteq> Count ''cache_hits'')
            (?evs @ [Count ''cache_hits''] @ publish (qu_metadata q) p ci1))"
          using ev quiet_publish [of "qu_metadata q" p ci1] by (auto simp: list_all_iff)
      qed (use assms False np p l1 Some in \<open>auto simp: arrive_def r reply_def\<close>)
    next
      case None
      show ?thesis
        by (rule miss [of "?evs @ (if n_cache n = None then [] else [Count ''cache_misses''])" "n_badProfile nr"])
          (use assms False np p None ev in \<open>auto simp: arrive_def r quiet_parts\<close>)
    qed
  qed
qed

lemma serve_cases:
  assumes "serve sv q (n, d) = ((res, evs), n', d')"
  obtains
    (own) "isDiscovery (qu_ctx q)" and "(res, evs) = serve_discovery sv (rq_req (qu_state q))"
      and "n' = n" and "d' = d"
  | (other) pre b where "\<not> isDiscovery (qu_ctx q)" and "routed q n = [] \<or> routed q n = passthrough"
      and "list_all quiet pre" and "res = fst (call_next sv (rq_req (qu_state q)))"
      and "evs = pre @ snd (call_next sv (rq_req (qu_state q)))"
      and "n' = n\<lparr>n_badProfile := b\<rparr>" and "d' = d"
  | (hit) pre b m where "\<not> isDiscovery (qu_ctx q)" and "routed q n \<noteq> []" and "routed q n \<noteq> passthrough"
      and "cached_reply sv (routed q n) q n = Some m" and "list_all quiet (filter (\<lambda>e. e \<noteq> Count ''cache_hits'') pre)"
      and "Count ''cache_hits'' \<in> set pre"
      and "res = fst (reply (qu_state q) m)" and "evs = pre @ snd (reply (qu_state q) m)"
      and "n' = n\<lparr>n_badProfile := b\<rparr>" and "d' = snd (look_up sv False (routed q n) q n d)"
  | (miss) pre b ci up where "\<not> isDiscovery (qu_ctx q)" and "routed q n \<noteq> []" and "routed q n \<noteq> passthrough"
      and "cached_reply sv (routed q n) q n = None" and "list_all quiet pre"
      and "with_slot (serve_upstream sv (routed q n) q ci) (n\<lparr>n_badProfile := b\<rparr>) = ((res, up), n')"
      and "evs = pre @ up" and "(ci, d') = look_up sv True (routed q n) q n d"
proof -
  obtain r n1 d1 where a: "arrive sv q (n, d) = (r, n1, d1)" by (metis surj_pair)
  from a show ?thesis
  proof (cases rule: arrive_cases)
    case o: own
    then show ?thesis using assms a own by (simp add: serve_def)
  next
    case o: (other pre b)
    show ?thesis by (rule other [of pre b]) (use assms a o in \<open>simp_all add: serve_def\<close>)
  next
    case h: (hit pre b m)
    show ?thesis by (rule hit [of m pre b]) (use assms a h in \<open>simp_all add: serve_def\<close>)
  next
    case m: (miss pre b)
    obtain ci d2 where l: "look_up sv True (routed q n) q n d = (ci, d2)" by (metis surj_pair)
    let ?pub = "publish (qu_metadata q) (routed q n) ci"
    obtain res' up n2 where w: "with_slot (serve_upstream sv (routed q n) q ci) (n\<lparr>n_badProfile := b\<rparr>) = ((res', up), n2)"
      by (metis surj_pair)
    show ?thesis
      by (rule miss [of "pre @ ?pub" ci b up])
        (use assms a m l w quiet_publish [of "qu_metadata q" "routed q n" ci] in
          \<open>simp_all add: serve_def identify_def\<close>)
  qed
qed

lemma put_reply_frame:
  "put_reply sv p q m n = (puts, n') \<Longrightarrow>
     n_concurrent n' = n_concurrent n \<and> n_maxConcurrent n' = n_maxConcurrent n \<and>
     routing.truncate n' = routing.truncate n \<and> n_client n' = n_client n \<and>
     puts \<in> {[], [Put (qu_victim q) (qu_later q) p (qu_state q) m]}"
  by (auto simp: put_reply_def routing.truncate_def split: option.splits)

lemma serve_upstream_cases:
  assumes "serve_upstream sv p q ci n = ((res, evs), n')"
  obtains
    (failed) e client where "res = (RcodeServerFailure, Some e)" and "evs = [Upstream p]" and "n' = n\<lparr>n_client := client\<rparr>"
      and "snd (fst (exchange (sv_pack sv) (sv_post sv) (sv_unpack sv) (sv_parse_time sv) (sv_cancelled sv) p
             (rq_req (qu_state q)) ci (n_client n))) \<noteq> None \<or> e = NilDereference"
  | (mismatch) m client where "res = (RcodeSuccess, None)" and "n' = n\<lparr>n_client := client\<rparr>"
      and "evs = [Upstream p, Count ''mismatches'', Write (sv_set_rcode sv (rq_req (qu_state q)) RcodeFormatError)]"
  | (answered) m client puts where "res = (RcodeSuccess, None)" and "sv_match sv (qu_state q) m"
      and "exchange (sv_pack sv) (sv_post sv) (sv_unpack sv) (sv_parse_time sv) (sv_cancelled sv) p
             (rq_req (qu_state q)) ci (n_client n) = ((Some m, None), client)"
      and "put_reply sv p q m (n\<lparr>n_client := client\<rparr>) = (puts, n')"
      and "evs = Upstream p # puts @ [Count ''responses'', Write (m\<lparr>m_id := m_id (rq_req (qu_state q))\<rparr>)]"
proof -
  obtain mo err client where x: "exchange (sv_pack sv) (sv_post sv) (sv_unpack sv) (sv_parse_time sv)
      (sv_cancelled sv) p (rq_req (qu_state q)) ci (n_client n) = ((mo, err), client)"
    by (metis surj_pair)
  show ?thesis
  proof (cases err)
    case (Some e)
    show ?thesis
      by (rule failed [of "ExchangeError e" client])
        (use assms x Some in \<open>simp_all add: serve_upstream_def\<close>)
  next
    case None
    show ?thesis
    proof (cases mo)
      case None
      show ?thesis
        by (rule failed [of NilDereference client])
          (use assms x \<open>err = None\<close> None in \<open>simp_all add: serve_upstream_def\<close>)
    next
      case (Some m)
      show ?thesis
      proof (cases "sv_match sv (qu_state q) m")
        case False
        show ?thesis
          by (rule mismatch [of client])
            (use assms x \<open>err = None\<close> Some False in \<open>simp_all add: serve_upstream_def\<close>)
      next
        case True
        obtain puts n1 where pr: "put_reply sv p q m (n\<lparr>n_client := client\<rparr>) = (puts, n1)" by (metis surj_pair)
        show ?thesis
          by (rule answered [of m client puts])
            (use assms x \<open>err = None\<close> Some True pr in \<open>auto simp: serve_upstream_def reply_def\<close>)
      qed
    qed
  qed
qed

lemma serve_upstream_frame:
  "serve_upstream sv p q ci n = ((res, evs), n') \<Longrightarrow>
     n_concurrent n' = n_concurrent n \<and> n_maxConcurrent n' = n_maxConcurrent n \<and>
     routing.truncate n' = routing.truncate n"
  by (erule serve_upstream_cases) (auto simp: routing.truncate_def dest: put_reply_frame)

text \<open>A slot changes nothing but whether the body runs at all.\<close>

lemma with_slot_cases:
  assumes "with_slot (serve_upstream sv p q ci) n = ((res, evs), n')"
  obtains
    (rejected) "0 < n_maxConcurrent n" and "n_maxConcurrent n < n_concurrent n + 1" and "n' = n"
      and "res = (RcodeRefused, Some MaxConcurrent)" and "evs = [Count ''max_concurrent_rejects'']"
  | (admitted) k n1 where "n_maxConcurrent n \<le> 0 \<or> n_concurrent n + 1 \<le> n_maxConcurrent n"
      and "serve_upstream sv p q ci (n\<lparr>n_concurrent := k\<rparr>) = ((res, evs), n1)"
      and "n' = n1\<lparr>n_concurrent := n_concurrent n\<rparr>"
proof (cases "n_maxConcurrent n \<le> 0")
  case True
  obtain res1 evs1 n1 where b: "serve_upstream sv p q ci n = ((res1, evs1), n1)" by (metis surj_pair)
  show ?thesis
  proof (rule admitted [of "n_concurrent n" n1])
    show "n' = n1\<lparr>n_concurrent := n_concurrent n\<rparr>"
      using assms True b serve_upstream_frame [OF b] by (simp add: with_slot_def take_slot_def give_slot_def)
  qed (use assms True b in \<open>simp_all add: with_slot_def take_slot_def give_slot_def\<close>)
next
  case False
  show ?thesis
  proof (cases "n_maxConcurrent n < n_concurrent n + 1")
    case True
    show ?thesis
      by (rule rejected) (use assms False True in \<open>auto simp: with_slot_def take_slot_def give_slot_def Let_def\<close>)
  next
    case room: False
    obtain res1 evs1 n1 where b:
      "serve_upstream sv p q ci (n\<lparr>n_concurrent := n_concurrent n + 1\<rparr>) = ((res1, evs1), n1)" by (metis surj_pair)
    show ?thesis
      by (rule admitted [of "n_concurrent n + 1" n1])
        (use assms False room b serve_upstream_frame [OF b] in \<open>auto simp: with_slot_def take_slot_def give_slot_def Let_def\<close>)
  qed
qed

section \<open>The cache is what was put into it\<close>

context answer_cache
begin

lemma offers_append: "offers (a @ b) c = offers b (offers a c)"
  by (induction a c rule: offers.induct) simp_all

end

fun puts_of :: "event list \<Rightarrow> (nat \<times> time \<times> string \<times> request \<times> msg) list" where
  "puts_of [] = []"
| "puts_of (Put v t p st m # evs) = (v, t, p, st, m) # puts_of evs"
| "puts_of (_ # evs) = puts_of evs"

lemma puts_of_append [simp]: "puts_of (a @ b) = puts_of a @ puts_of b"
  by (induction a rule: puts_of.induct) simp_all

lemma puts_of_iff: "(v, t, p, st, m) \<in> set (puts_of evs) \<longleftrightarrow> Put v t p st m \<in> set evs"
  by (induction evs rule: puts_of.induct) auto

lemma puts_of_none: "(\<And>v t p st m. Put v t p st m \<notin> set evs) \<Longrightarrow> puts_of evs = []"
  by (induction evs rule: puts_of.induct) (auto, blast)

lemma quiet_no: "list_all quiet pre \<Longrightarrow> e \<in> set pre \<Longrightarrow> quiet e"
  by (simp add: list_all_iff)

lemma puts_of_quiet: "list_all quiet pre \<Longrightarrow> puts_of pre = []"
  by (rule puts_of_none) (auto dest!: quiet_no simp: quiet_def)

lemma puts_of_quiet': "list_all quiet (filter (\<lambda>e. e \<noteq> Count ''cache_hits'') pre) \<Longrightarrow> puts_of pre = []"
  by (rule puts_of_none) (auto simp: list_all_iff quiet_def)

lemma call_next_events: "e \<in> set (snd (call_next sv r)) \<Longrightarrow> e = NextPlugin \<or> (\<exists>m. e = Write m)"
  by (auto simp: call_next_def split: prod.splits)

lemma puts_of_next [simp]: "puts_of (snd (call_next sv r)) = []"
  by (rule puts_of_none) (auto dest!: call_next_events)

lemma serve_discovery_events:
  "serve_discovery sv r = (res, evs) \<Longrightarrow> e \<in> set evs \<Longrightarrow> e = NextPlugin \<or> (\<exists>m. e = Write m)"
  using call_next_events [of e sv r] by (auto simp: serve_discovery_def split: prod.splits if_splits)

lemma puts_of_discovery: "serve_discovery sv r = (res, evs) \<Longrightarrow> puts_of evs = []"
  by (rule puts_of_none) (auto dest: serve_discovery_events)

abbreviation offers_of :: "'d services \<Rightarrow> event list \<Rightarrow> msgCache \<Rightarrow> msgCache" where
  "offers_of sv evs \<equiv> mcache.offers (sv_sum64 sv) (sv_minimalTTL sv) (puts_of evs)"

lemma put_reply_cache:
  "put_reply sv p q m n = (puts, n') \<Longrightarrow> n_cache n = Some mc \<Longrightarrow> n_cache n' = Some (offers_of sv puts mc)"
  by (auto simp: put_reply_def)

lemma serve_upstream_cache:
  "serve_upstream sv p q ci n = ((res, evs), n') \<Longrightarrow> n_cache n = Some mc \<Longrightarrow> n_cache n' = Some (offers_of sv evs mc)"
  by (erule serve_upstream_cases) (auto dest: put_reply_cache)

lemma serve_upstream_no_cache:
  "serve_upstream sv p q ci n = ((res, evs), n') \<Longrightarrow> n_cache n = None \<Longrightarrow> n_cache n' = None"
  by (erule serve_upstream_cases) (auto simp: put_reply_def)

lemma serve_cache:
  assumes "serve sv q (n, d) = ((res, evs), n', d')" and "n_cache n = Some mc"
  shows "n_cache n' = Some (offers_of sv evs mc)"
  using assms(1)
proof (cases rule: serve_cases)
  case own
  with assms(2) puts_of_discovery [OF own(2) [symmetric]] show ?thesis by simp
next
  case (other pre b)
  with assms(2) show ?thesis by (simp add: puts_of_quiet)
next
  case (hit pre b m)
  with assms(2) show ?thesis by (simp add: puts_of_quiet' reply_def)
next
  case (miss pre b ci up)
  from miss(6) show ?thesis
  proof (cases rule: with_slot_cases)
    case rejected
    with miss assms(2) show ?thesis by (simp add: puts_of_quiet)
  next
    case (admitted k n1)
    with serve_upstream_cache [OF admitted(2), of mc] miss assms(2) show ?thesis by (simp add: puts_of_quiet)
  qed
qed

section \<open>What the events say\<close>

lemma upstream_events:
  "serve_upstream sv p q ci n = ((res, evs), n') \<Longrightarrow> NextPlugin \<notin> set evs \<and> Count ''cache_hits'' \<notin> set evs
     \<and> (\<forall>p'. Upstream p' \<in> set evs \<longleftrightarrow> p' = p)"
  by (erule serve_upstream_cases) (auto dest!: put_reply_frame)

lemma slot_events:
  assumes "with_slot (serve_upstream sv p q ci) n = ((res, evs), n')"
  shows "NextPlugin \<notin> set evs \<and> Count ''cache_hits'' \<notin> set evs \<and> (\<forall>p'. Upstream p' \<in> set evs \<longrightarrow> p' = p)"
  using assms by (cases rule: with_slot_cases) (auto dest!: upstream_events)

lemma quiet_simps [simp]: "\<not> quiet NextPlugin" "\<not> quiet (Write m)" "\<not> quiet (Upstream p)"
  "\<not> quiet (Put v t p st m)" "\<not> quiet (Count ''cache_hits'')"
  by (simp_all add: quiet_def)

lemma quiet_not_in: "list_all quiet pre \<Longrightarrow> \<not> quiet e \<Longrightarrow> e \<notin> set pre"
  by (auto simp: list_all_iff)

lemma quiet_not_in': "list_all quiet (filter (\<lambda>e. e \<noteq> Count ''cache_hits'') pre) \<Longrightarrow> \<not> quiet e \<Longrightarrow>
    e \<noteq> Count ''cache_hits'' \<Longrightarrow> e \<notin> set pre"
  by (auto simp: list_all_iff)

lemma serve_hit:
  assumes "serve sv q (n, d) = ((res, evs), n', d')" and "Count ''cache_hits'' \<in> set evs"
  shows "\<not> isDiscovery (qu_ctx q) \<and> (\<exists>m. cached_reply sv (routed q n) q n = Some m \<and> res = (RcodeSuccess, None)
    \<and> (\<forall>w. Write w \<in> set evs \<longleftrightarrow> w = m\<lparr>m_id := m_id (rq_req (qu_state q))\<rparr>)
    \<and> d' = snd (look_up sv False (routed q n) q n d) \<and> NextPlugin \<notin> set evs \<and> (\<forall>p. Upstream p \<notin> set evs))"
  using assms(1)
proof (cases rule: serve_cases)
  case own
  from serve_discovery_events [OF own(2) [symmetric] assms(2)] show ?thesis by simp
next
  case (other pre b)
  then have "Count ''cache_hits'' \<notin> set evs"
    by (auto dest!: call_next_events quiet_not_in [where e = "Count ''cache_hits''"])
  with assms(2) show ?thesis by simp
next
  case (hit pre b m)
  have "Write w \<notin> set pre" "NextPlugin \<notin> set pre" "Upstream p \<notin> set pre" for w p
    using quiet_not_in' [OF hit(5)] by simp_all
  with hit show ?thesis by (auto simp: reply_def)
next
  case (miss pre b ci up)
  then have "Count ''cache_hits'' \<notin> set evs"
    using quiet_not_in [OF miss(5), of "Count ''cache_hits''"] slot_events [OF miss(6)] by simp
  with assms(2) show ?thesis by simp
qed

definition writes :: "event list \<Rightarrow> msg list" where
  "writes evs = List.map_filter (\<lambda>e. case e of Write m \<Rightarrow> Some m | _ \<Rightarrow> None) evs"

lemma writes_append [simp]: "writes (a @ b) = writes a @ writes b"
  by (simp add: writes_def List.map_filter_def)

lemma writes_simps [simp]:
  "writes [] = []" "writes (Write m # evs) = m # writes evs" "writes (Upstream p # evs) = writes evs"
  "writes (Count s # evs) = writes evs" "writes (Put v t p st x # evs) = writes evs"
  by (simp_all add: writes_def List.map_filter_simps)

lemma writes_none: "(\<And>m. Write m \<notin> set evs) \<Longrightarrow> writes evs = []"
  by (induction evs) (auto simp: writes_def List.map_filter_simps split: event.splits)

lemma writes_put: "put_reply sv p q m n = (puts, n') \<Longrightarrow> writes puts = []"
  by (auto dest!: put_reply_frame)


lemma exchange_endpoints: "dh_endpoints (snd (exchange pk po un pt ca p r ci c)) = dh_endpoints c"
  by (auto simp: exchange_def updateLastMod_def split: sum.splits option.splits prod.splits)

lemma exchange_replies:
  assumes "dh_endpoints c \<noteq> []"
  shows "(\<exists>m. fst (exchange pk po un pt ca p r ci c) = (Some m, None)) \<or>
    (\<exists>e. fst (exchange pk po un pt ca p r ci c) = (None, Some e))"
proof (cases "pk (r\<lparr>m_id := 0\<rparr>)")
  case (Inr wire)
  let ?ask = "\<lambda>ep. do_post po un ep p wire ci"
  have e: "fst (try_endpoints ?ask ca 0 (dh_endpoints c) None) =
      map_sum Some id (first_answer ?ask (within ca 0 (dh_endpoints c)) None (PackFailed []))"
    using assms by (intro try_endpoints_first) simp
  show ?thesis
    unfolding exchange_def Inr sum.case e
    by (cases "first_answer ?ask (within ca 0 (dh_endpoints c)) None (PackFailed [])") auto
qed (simp add: exchange_def)

lemma name_locked_no_hold: "fst (name_locked now False ch a d) \<noteq> Hold c"
  by (simp add: name_locked_def Let_def split: option.splits)

lemma query_step_no_hold: "w_holds (query_step now False a w) = w_holds w"
proof -
  obtain out sp dd where o: "name_locked now False (w_next w) a (w_disc w) = (out, sp, dd)" by (metis surj_pair)
  then obtain s where "out = Answer s" using name_locked_no_hold [of now "w_next w" a "w_disc w"] by (cases out) auto
  with o show ?thesis by (simp add: query_step_def)
qed

lemma discover_no_hold:
  "map_option w_holds (snd (discover_name now meanwhile wk False a w)) = map_option w_holds w"
  using name_locked_no_hold [of now _ a]
  by (auto simp: discover_name_def query_step_no_hold Let_def split: option.splits outcome.splits)

lemma look_up_state:
  "snd (look_up sv mh p q n d) = d \<or> (\<exists>a. snd (look_up sv mh p q n d) = snd (sv_discover sv mh a d))"
proof (cases "clientAddr (rq_ip (qu_state q))")
  case (Some a)
  then show ?thesis
    by (cases "sv_discover sv mh a d") (auto simp: look_up_def lookup_def Let_def intro!: exI [of _ a])
qed (simp add: look_up_def lookup_def)


lemma serve_upstream_endpoints:
  "serve_upstream sv p q ci n = ((res, evs), n') \<Longrightarrow> dh_endpoints (n_client n') = dh_endpoints (n_client n)"
  using exchange_endpoints [of "sv_pack sv" "sv_post sv" "sv_unpack sv" "sv_parse_time sv" "sv_cancelled sv" p
      "rq_req (qu_state q)" ci "n_client n"]
  by (auto simp: serve_upstream_def put_reply_def reply_def Let_def split: prod.splits option.splits if_splits)

lemma serve_upstream_not_nil:
  assumes "serve_upstream sv p q ci n = ((res, evs), n')" and "dh_endpoints (n_client n) \<noteq> []"
  shows "snd res \<noteq> Some NilDereference \<and> snd res \<noteq> Some MaxConcurrent"
  using assms(1) exchange_replies [OF assms(2), of "sv_pack sv" "sv_post sv" "sv_unpack sv" "sv_parse_time sv"
      "sv_cancelled sv" p "rq_req (qu_state q)" ci]
  by (auto simp: serve_upstream_def reply_def Let_def split: prod.splits option.splits if_splits)

lemma serve_not_nil:
  assumes "serve sv q (n, d) = ((res, evs), n', d')" and "dh_endpoints (n_client n) \<noteq> []"
  shows "snd res \<noteq> Some NilDereference \<and>
    (snd res = Some MaxConcurrent \<longrightarrow> 0 < n_maxConcurrent n \<and> n_maxConcurrent n < n_concurrent n + 1)"
  using assms(1)
proof (cases rule: serve_cases)
  case own
  then show ?thesis by (auto simp: serve_discovery_def call_next_def split: prod.splits if_splits)
next
  case (other pre b)
  then show ?thesis by (auto simp: call_next_def split: prod.splits)
next
  case (hit pre b m)
  then show ?thesis by (simp add: reply_def)
next
  case (miss pre b ci up)
  from miss(6) show ?thesis
  proof (cases rule: with_slot_cases)
    case (admitted k n1)
    with serve_upstream_not_nil [OF admitted(2)] assms(2) show ?thesis by simp
  qed simp
qed

lemma upstream_is_routed:
  assumes "routing_ok (routing.truncate n)" and "serve sv q (n, d) = ((res, evs), n', d')"
    and "Upstream p \<in> set evs"
  shows "\<not> isDiscovery (qu_ctx q) \<and> p = routed q n \<and> profile_ok p \<and> cached_reply sv p q n = None"
  using assms(2)
proof (cases rule: serve_cases)
  case own
  from serve_discovery_events [OF own(2) [symmetric] assms(3)] show ?thesis by simp
next
  case (other pre b)
  then have "Upstream p \<notin> set evs"
    by (auto dest!: call_next_events quiet_not_in [where e = "Upstream p"])
  with assms(3) show ?thesis by simp
next
  case (hit pre b m)
  then have "Upstream p \<notin> set evs"
    by (auto simp: reply_def dest!: quiet_not_in' [where e = "Upstream p"])
  with assms(3) show ?thesis by simp
next
  case (miss pre b ci up)
  then have "Upstream p \<in> set up" using assms(3) quiet_not_in [OF miss(5), of "Upstream p"] by simp
  then have "p = routed q n" using slot_events [OF miss(6)] by blast
  moreover have "validRoute (routed q n) = None"
    unfolding routed_def by (rule profileFor_valid [OF assms(1)])
  ultimately show ?thesis using miss by (simp add: validRoute_None)
qed

section \<open>A concrete instance\<close>

definition sample_services :: "world option services" where
  "sample_services =
     \<lparr>sv_sum64 = (\<lambda>_. 0), sv_minimalTTL = (\<lambda>_ _. 60 * second), sv_pack = (\<lambda>_. Inr [0]),
      sv_post = (\<lambda>u h w. Inr \<lparr>rs_status = 200, rs_header = [], rs_body = ([1], None)\<rparr>),
      sv_unpack = (\<lambda>_. Inr example_answer), sv_parse_time = (\<lambda>_. None), sv_cancelled = (\<lambda>_. False),
      sv_discover = discover_name 0 (\<lambda>w. w) Elapsed,
      sv_next = (\<lambda>m. ((2, Some ''no next plugin found''), [])), sv_client_write = (\<lambda>rc. rc = 0 \<or> rc = 3),
      sv_set_rcode = (\<lambda>r c. r\<lparr>m_rcode := c\<rparr>), sv_match = (\<lambda>_ _. True)\<rparr>"

definition sample_instance :: "msgCache option \<Rightarrow> nextdns" where
  "sample_instance cache =
     \<lparr>n_profile = ''abc123'', n_viewProfiles = [], n_clientProfiles = [], n_badProfile = False,
      n_client = sample_client\<lparr>dh_lastMod := [(''abc123'', 0)]\<rparr>, n_devices = newDeviceDB,
      n_cache = cache, n_maxConcurrent = 1, n_concurrent = 0\<rparr>"

definition sample_asked :: query where
  "sample_asked = \<lparr>qu_state = example_query, qu_ctx = \<lparr>cx_discovery = None\<rparr>,
     qu_label = None, qu_view = [], qu_metadata = True, qu_now = second, qu_later = 0, qu_victim = 0\<rparr>"

definition cold :: "world option" where
  "cold = Some (world_of newDiscoverer)"

lemma sample_routed: "routed sample_asked (sample_instance c) = ''abc123''"
  by (simp add: routed_def profileFor_def configured_route_def client_route_def sample_asked_def
    sample_instance_def routing.truncate_def)

lemma sample_not_own: "\<not> isDiscovery (qu_ctx sample_asked)"
  by (simp add: isDiscovery_def sample_asked_def)

lemma sample_exchange:
  "exchange (sv_pack sample_services) (sv_post sample_services) (sv_unpack sample_services)
     (sv_parse_time sample_services) (sv_cancelled sample_services) p r ci
     (n_client (sample_instance c)) = ((Some example_answer, None), n_client (sample_instance c))"
  by (simp add: exchange_def sample_services_def sample_instance_def sample_client_def do_post_def StatusOK_def
    read_limited_def MaxMsgSize_def header_get_def updateLastMod_def)

text \<open>A first query of the instance goes upstream and comes back with the answer.\<close>

lemma sample_served:
  assumes "serve sample_services sample_asked (sample_instance c, d) = ((res, evs), n', d')"
    and "cached_reply sample_services ''abc123'' sample_asked (sample_instance c) = None"
  shows "res = (RcodeSuccess, None) \<and> writes evs = [example_answer\<lparr>m_id := 7\<rparr>] \<and>
    Upstream ''abc123'' \<in> set evs \<and> NextPlugin \<notin> set evs \<and>
    puts_of evs = (case c of None \<Rightarrow> [] | Some _ \<Rightarrow> example_hist) \<and> n_client n' = n_client (sample_instance c) \<and>
    routed sample_asked n' = ''abc123''"
  using assms(1)
proof (cases rule: serve_cases)
  case (miss pre b ci up)
  note pre = quiet_not_in [OF miss(5)] puts_of_quiet [OF miss(5)]
  have w: "writes pre = []" using pre by (intro writes_none) simp
  from miss(6) show ?thesis
  proof (cases rule: with_slot_cases)
    case rejected
    then show ?thesis by (simp add: sample_instance_def)
  next
    case (admitted k n1)
    have x: "exchange (sv_pack sample_services) (sv_post sample_services) (sv_unpack sample_services)
        (sv_parse_time sample_services) (sv_cancelled sample_services) (routed sample_asked (sample_instance c))
        (rq_req (qu_state sample_asked)) ci (n_client (sample_instance c\<lparr>n_badProfile := b, n_concurrent := k\<rparr>))
      = ((Some example_answer, None), n_client (sample_instance c))"
      using sample_exchange [of "routed sample_asked (sample_instance c)" "rq_req (qu_state sample_asked)" ci c] by simp
    have id: "m_id (rq_req (qu_state sample_asked)) = 7" by (simp add: sample_asked_def example_query_def)
    have put: "puts_of (fst (put_reply sample_services ''abc123'' sample_asked example_answer
          (sample_instance c\<lparr>n_badProfile := b, n_concurrent := k, n_client := n_client (sample_instance c)\<rparr>))) =
        (case c of None \<Rightarrow> [] | Some _ \<Rightarrow> example_hist)"
      by (simp add: put_reply_def sample_instance_def sample_asked_def example_hist_def split: option.splits)
    have m: "sv_match sample_services (qu_state sample_asked) example_answer" by (simp add: sample_services_def)
    obtain puts n2 where p: "put_reply sample_services (routed sample_asked (sample_instance c)) sample_asked
        example_answer (sample_instance c\<lparr>n_badProfile := b, n_concurrent := k, n_client := n_client (sample_instance c)\<rparr>)
      = (puts, n2)" by (metis surj_pair)
    have up: "res = (RcodeSuccess, None)" "n1 = n2"
        "up = Upstream ''abc123'' # puts @ [Count ''responses'', Write (example_answer\<lparr>m_id := 7\<rparr>)]"
      using admitted(2) x m p id by (simp_all add: serve_upstream_def reply_def sample_routed)
    note fr = put_reply_frame [OF p]
    have pw: "writes puts = []" "NextPlugin \<notin> set puts" using fr by auto
    have "n_client n' = n_client (sample_instance c)" using admitted(3) up fr by simp
    moreover have "routing.truncate n' = (routing.truncate (sample_instance c))\<lparr>n_badProfile := b\<rparr>"
      using admitted(3) up fr by (simp add: routing.truncate_def)
    then have "routed sample_asked n' = ''abc123''"
      by (simp add: routed_def profileFor_def configured_route_def client_route_def sample_asked_def
        sample_instance_def routing.truncate_def)
    moreover have "puts_of puts = (case c of None \<Rightarrow> [] | Some _ \<Rightarrow> example_hist)"
      using put p by (simp add: sample_routed)
    ultimately show ?thesis using miss(7) up pre w pw by simp
  qed
qed (use assms(2) sample_routed [of c] sample_not_own in \<open>auto simp: passthrough_def\<close>)

lemma sample_config: "routing_ok (routing.truncate (sample_instance c))"
  by (simp add: routing_ok_def sample_instance_def routing.truncate_def profile_ok_def is_alnum_def is_lower_def
    is_digit_def is_upper_def)

lemma sample_cold: "cached_reply sample_services ''abc123'' sample_asked (sample_instance None) = None"
  by (simp add: cached_reply_def sample_instance_def)

lemma sample_cold': "cached_reply sample_services ''abc123'' sample_asked (sample_instance (Some example_cache)) = None"
  by (simp add: cached_reply_def sample_instance_def example_cache_def configured_cache_def newMsgCache_def
    Let_def cache_get_def Get_newStore hit_msg_def)

text \<open>The second time the instance with a cache is asked, it answers from the cache.\<close>

lemma sample_warm:
  obtains evs n d res evs' n' d' w where
    "serve_all sample_services [sample_asked] (sample_instance (Some example_cache), cold) = (evs, n, d)"
    and "serve sample_services sample_asked (n, d) = ((res, evs'), n', d')"
    and "Count ''cache_hits'' \<in> set evs'" and "Write w \<in> set evs'" and "routed sample_asked n = ''abc123''"
proof -
  obtain res e1 n1 d1 where s1: "serve sample_services sample_asked (sample_instance (Some example_cache), cold)
      = ((res, e1), n1, d1)" by (metis surj_pair)
  then have all: "serve_all sample_services [sample_asked] (sample_instance (Some example_cache), cold) = (e1, n1, d1)"
    by simp
  obtain res2 e2 n2 d2 where s2: "serve sample_services sample_asked (n1, d1) = ((res2, e2), n2, d2)"
    by (metis surj_pair)
  note f = sample_served [OF s1 sample_cold']
  have c0: "n_cache (sample_instance (Some example_cache)) = Some example_cache" by (simp add: sample_instance_def)
  have "cached_reply sample_services ''abc123'' sample_asked n1 = hit_msg (cache_get (\<lambda>_. 0) second 0 ''abc123''
      example_query (mcache.offers (\<lambda>_. 0) (\<lambda>_ _. 60 * second) example_hist example_cache))"
    using serve_cache [OF s1 c0] f
    by (simp add: cached_reply_def sample_asked_def sample_services_def sample_instance_def confChangedAt_def)
  with example_hit obtain m where c: "cached_reply sample_services ''abc123'' sample_asked n1 = Some m" by auto
  have "Count ''cache_hits'' \<in> set e2 \<and> Write (m\<lparr>m_id := m_id (rq_req (qu_state sample_asked))\<rparr>) \<in> set e2"
    using s2
  proof (cases rule: serve_cases)
    case (hit pre b m')
    with c f show ?thesis by (simp add: reply_def)
  qed (use c f sample_not_own in \<open>auto simp: passthrough_def\<close>)
  with that all s2 f show ?thesis by blast
qed

section \<open>Properties\<close>

text \<open>
  Only a query routed to a profile goes upstream: never a reverse lookup of the
  plugin's own, a passthrough query or one the cache answers, and always under the routed
  profile, which is 4 to 64 letters and digits.
\<close>

theorem upstream_only_when_routed:
  assumes "routing_ok (routing.truncate n)" and "serve sv q (n, d) = ((res, evs), n', d')"
    and "Upstream p \<in> set evs"
  shows "\<not> isDiscovery (qu_ctx q) \<and> p = routed q n \<and> profile_ok p \<and> cached_reply sv p q n = None"
  by (rule upstream_is_routed [OF assms])

theorem upstream_only_when_routed_witness:
  "routed sample_asked (sample_instance None) = ''abc123'' \<and> profile_ok ''abc123'' \<and>
   cached_reply sample_services ''abc123'' sample_asked (sample_instance None) = None"
proof -
  obtain res evs n' d' where s: "serve sample_services sample_asked (sample_instance None, cold) = ((res, evs), n', d')"
    by (metis surj_pair)
  have "Upstream ''abc123'' \<in> set evs" using sample_served [OF s sample_cold] by simp
  from upstream_only_when_routed [OF sample_config s this] sample_routed [of None] show ?thesis by auto
qed

text \<open>
  Property C23. A query the plugin deals with itself is answered exactly once if it returns
  without an error and not at all if it returns one, and every answer carries the client's
  ID.
\<close>

theorem answered_exactly_once:
  assumes "\<And>r c. m_id (sv_set_rcode sv r c) = m_id r"
    and "serve sv q (n, d) = ((res, evs), n', d')" and "NextPlugin \<notin> set evs"
  shows "length (writes evs) = (if snd res = None then 1 else 0) \<and>
    (\<forall>m \<in> set (writes evs). m_id m = m_id (rq_req (qu_state q)))"
  using assms(2)
proof (cases rule: serve_cases)
  case own
  then have "NextPlugin \<in> set evs"
    by (auto simp: serve_discovery_def call_next_def split: prod.splits if_splits)
  with assms(3) show ?thesis by simp
next
  case (other pre b)
  then have "NextPlugin \<in> set evs" by (auto simp: call_next_def split: prod.splits)
  with assms(3) show ?thesis by simp
next
  case (hit pre b m)
  have "writes pre = []" using quiet_not_in' [OF hit(5)] by (intro writes_none) simp
  with hit show ?thesis by (simp add: reply_def)
next
  case (miss pre b ci up)
  have pre: "writes pre = []" using quiet_not_in [OF miss(5)] by (intro writes_none) simp
  from miss(6) show ?thesis
  proof (cases rule: with_slot_cases)
    case rejected
    with pre miss show ?thesis by simp
  next
    case (admitted k n1)
    from admitted(2) show ?thesis
    proof (cases rule: serve_upstream_cases)
      case (answered m client puts)
      with pre miss writes_put [OF answered(4)] show ?thesis by simp
    qed (use pre miss assms(1) in auto)
  qed
qed

theorem answered_exactly_once_witness:
  "\<exists>res evs s. serve sample_services sample_asked (sample_instance None, cold) = ((res, evs), s) \<and>
     length (writes evs) = 1 \<and> (\<forall>m \<in> set (writes evs). m_id m = 7)"
proof -
  obtain res evs n' d' where s: "serve sample_services sample_asked (sample_instance None, cold) = ((res, evs), n', d')"
    by (metis surj_pair)
  note f = sample_served [OF s sample_cold]
  have id: "m_id (sv_set_rcode sample_services r c) = m_id r" for r c by (simp add: sample_services_def)
  have q: "m_id (rq_req (qu_state sample_asked)) = 7" by (simp add: sample_asked_def example_query_def)
  have r: "snd res = None" and np: "NextPlugin \<notin> set evs" using f by simp_all
  note all = answered_exactly_once [OF id s np]
  have "length (writes evs) = 1" using conjunct1 [OF all] unfolding r by (simp only: simp_thms if_True)
  moreover have "\<forall>m \<in> set (writes evs). m_id m = 7" using conjunct2 [OF all] unfolding q .
  ultimately show ?thesis using s by blast
qed

text \<open>
  Property C24. Whatever happens to a query, it gives its slot back; it is refused exactly
  when it would go upstream while the limit is reached, and then nothing is sent, written
  or cached for it.
\<close>

theorem slots_are_returned:
  assumes "serve sv q (n, d) = ((res, evs), n', d')"
  shows "n_concurrent n' = n_concurrent n \<and> n_maxConcurrent n' = n_maxConcurrent n \<and>
    (snd res = Some MaxConcurrent \<longleftrightarrow> \<not> isDiscovery (qu_ctx q) \<and> routed q n \<noteq> [] \<and> routed q n \<noteq> passthrough \<and>
       cached_reply sv (routed q n) q n = None \<and> 0 < n_maxConcurrent n \<and> n_maxConcurrent n \<le> n_concurrent n) \<and>
    (snd res = Some MaxConcurrent \<longrightarrow> fst res = RcodeRefused \<and> writes evs = [] \<and> puts_of evs = [] \<and> (\<forall>p. Upstream p \<notin> set evs))"
  using assms
proof (cases rule: serve_cases)
  case own
  then have "snd res \<noteq> Some MaxConcurrent"
    by (auto simp: serve_discovery_def call_next_def split: prod.splits if_splits)
  with own show ?thesis by simp
next
  case (other pre b)
  then have "snd res \<noteq> Some MaxConcurrent" by (auto simp: call_next_def split: prod.splits)
  with other show ?thesis by auto
next
  case (hit pre b m)
  then show ?thesis by (simp add: reply_def)
next
  case (miss pre b ci up)
  have pre: "writes pre = []" "puts_of pre = []" "Upstream p \<notin> set pre" for p
    using quiet_not_in [OF miss(5)] puts_of_quiet [OF miss(5)] by (auto intro: writes_none)
  from miss(6) show ?thesis
  proof (cases rule: with_slot_cases)
    case rejected
    with pre miss show ?thesis by simp
  next
    case (admitted k n1)
    have "snd res \<noteq> Some MaxConcurrent"
      using admitted(2) by (auto simp: serve_upstream_def reply_def Let_def split: prod.splits option.splits if_splits)
    with admitted miss serve_upstream_frame [OF admitted(2)] show ?thesis by auto
  qed
qed

theorem slots_are_returned_witness:
  "\<exists>evs s. serve sample_services sample_asked (sample_instance None\<lparr>n_concurrent := 1\<rparr>, cold) =
     ((( RcodeRefused, Some MaxConcurrent), evs), s) \<and> writes evs = [] \<and> n_concurrent (fst s) = 1"
proof -
  let ?n = "sample_instance None\<lparr>n_concurrent := 1\<rparr>"
  obtain res evs n' d' where s: "serve sample_services sample_asked (?n, cold) = ((res, evs), n', d')"
    by (metis surj_pair)
  have r: "routed sample_asked ?n = ''abc123''"
    using sample_routed [of None] by (simp add: routed_def routing.truncate_def)
  have full: "cached_reply sample_services ''abc123'' sample_asked ?n = None" "n_maxConcurrent ?n = 1"
    by (simp_all add: cached_reply_def sample_instance_def)
  have "res = (RcodeRefused, Some MaxConcurrent) \<and> writes evs = [] \<and> n_concurrent n' = 1"
    using slots_are_returned [OF s] r full sample_not_own by (cases res) (simp add: passthrough_def)
  then show ?thesis using s by auto
qed


text \<open>
  Discovery cannot recurse: a reverse lookup of the plugin's own never goes
  upstream, is never enriched, published or cached and changes no state; it never fails,
  being answered with NXDOMAIN when nothing behind the plugin could answer it.
\<close>

theorem own_lookups_stop_here:
  assumes "isDiscovery (qu_ctx q)" and "serve sv q (n, d) = ((res, evs), n', d')"
  shows "n' = n \<and> d' = d \<and> snd res = None \<and>
    (\<forall>e \<in> set evs. e = NextPlugin \<or> (\<exists>m. e = Write m)) \<and>
    writes evs = snd (sv_next sv (rq_req (qu_state q))) @
      (if snd (fst (sv_next sv (rq_req (qu_state q)))) = None
          \<or> sv_client_write sv (fst (fst (sv_next sv (rq_req (qu_state q)))))
       then [] else [sv_set_rcode sv (rq_req (qu_state q)) RcodeNameError])"
proof -
  have s: "serve_discovery sv (rq_req (qu_state q)) = (res, evs)" and st: "n' = n" "d' = d"
    using assms by (simp_all add: serve_def arrive_def)
  have map_w: "writes (map Write ws) = ws" for ws by (induction ws) simp_all
  have nx: "writes (NextPlugin # evs) = writes evs" for evs
    by (simp add: writes_def List.map_filter_simps)
  have "snd res = None \<and> writes evs = snd (sv_next sv (rq_req (qu_state q))) @
      (if snd (fst (sv_next sv (rq_req (qu_state q)))) = None
          \<or> sv_client_write sv (fst (fst (sv_next sv (rq_req (qu_state q)))))
       then [] else [sv_set_rcode sv (rq_req (qu_state q)) RcodeNameError])"
    using s by (auto simp: serve_discovery_def call_next_def map_w nx split: prod.splits if_splits)
  with st serve_discovery_events [OF s] show ?thesis by blast
qed

theorem own_lookups_stop_here_witness:
  "\<exists>evs. serve sample_services (sample_asked\<lparr>qu_ctx := withDiscovery (qu_ctx sample_asked)\<rparr>) (sample_instance None, cold) =
     ((( RcodeSuccess, None), evs), sample_instance None, cold) \<and> writes evs = [(rq_req example_query)\<lparr>m_rcode := 3\<rparr>]"
proof -
  let ?q = "sample_asked\<lparr>qu_ctx := withDiscovery (qu_ctx sample_asked)\<rparr>"
  have own: "isDiscovery (qu_ctx ?q)" by (simp add: isDiscovery_def withDiscovery_def)
  obtain res evs n' d' where s: "serve sample_services ?q (sample_instance None, cold) = ((res, evs), n', d')"
    by (metis surj_pair)
  have "fst res = RcodeSuccess"
    using s own by (auto simp: serve_def arrive_def serve_discovery_def call_next_def sample_services_def RcodeSuccess_def)
  moreover have "writes evs = [(rq_req example_query)\<lparr>m_rcode := 3\<rparr>]" and "snd res = None"
    and "n' = sample_instance None" and "d' = cold"
    using own_lookups_stop_here [OF own s] by (simp_all add: sample_services_def sample_asked_def RcodeNameError_def)
  ultimately show ?thesis using s by (cases res) auto
qed

text \<open>
  Property C25. What becomes of a query that gets a slot: a failed exchange is reported as
  SERVFAIL with its error, a reply to another question is answered with FORMERR, and only a
  reply to the question asked is sent on and offered to the cache. No other outcome exists
  for a client that has an endpoint; in particular there is no nil dereference.
\<close>

theorem upstream_outcomes:
  assumes "dh_endpoints (n_client n) \<noteq> []"
    and "exchange (sv_pack sv) (sv_post sv) (sv_unpack sv) (sv_parse_time sv) (sv_cancelled sv) p
      (rq_req (qu_state q)) ci (n_client n) = (r, client)"
    and "serve_upstream sv p q ci n = ((res, evs), n')"
  shows "(\<exists>e. r = (None, Some e) \<and> res = (RcodeServerFailure, Some (ExchangeError e)) \<and> writes evs = [] \<and> n_cache n' = n_cache n) \<or>
    (\<exists>m. r = (Some m, None) \<and> \<not> sv_match sv (qu_state q) m \<and> res = (RcodeSuccess, None) \<and>
       writes evs = [sv_set_rcode sv (rq_req (qu_state q)) RcodeFormatError] \<and> n_cache n' = n_cache n) \<or>
    (\<exists>m. r = (Some m, None) \<and> sv_match sv (qu_state q) m \<and> res = (RcodeSuccess, None) \<and>
       writes evs = [m\<lparr>m_id := m_id (rq_req (qu_state q))\<rparr>] \<and>
       n_cache n' = map_option (cache_put (sv_sum64 sv) (sv_minimalTTL sv) (qu_victim q) (qu_later q) p (qu_state q) m) (n_cache n))"
proof -
  consider m where "r = (Some m, None)" | e where "r = (None, Some e)"
    using exchange_replies [OF assms(1), of "sv_pack sv" "sv_post sv" "sv_unpack sv" "sv_parse_time sv"
      "sv_cancelled sv" p "rq_req (qu_state q)" ci] assms(2) by auto
  then show ?thesis
  proof cases
    case (1 m)
    with assms(2,3) show ?thesis
      by (cases "sv_match sv (qu_state q) m")
        (auto simp: serve_upstream_def put_reply_def reply_def Let_def split: option.splits)
  next
    case (2 e)
    with assms(2,3) show ?thesis by (auto simp: serve_upstream_def)
  qed
qed

theorem upstream_outcomes_witness:
  "\<exists>res evs n'. serve_upstream (sample_services\<lparr>sv_match := \<lambda>_ _. False\<rparr>) ''abc123'' sample_asked no_client (sample_instance None)
     = ((res, evs), n') \<and> writes evs = [(rq_req example_query)\<lparr>m_rcode := 1\<rparr>]"
proof -
  let ?sv = "sample_services\<lparr>sv_match := \<lambda>_ _. False\<rparr>"
  obtain res evs n' where s: "serve_upstream ?sv ''abc123'' sample_asked no_client (sample_instance None) = ((res, evs), n')"
    by (metis surj_pair)
  have e: "dh_endpoints (n_client (sample_instance None)) \<noteq> []" by (simp add: sample_instance_def sample_client_def)
  have x: "exchange (sv_pack ?sv) (sv_post ?sv) (sv_unpack ?sv) (sv_parse_time ?sv) (sv_cancelled ?sv) ''abc123''
      (rq_req (qu_state sample_asked)) no_client (n_client (sample_instance None))
      = ((Some example_answer, None), n_client (sample_instance None))"
    using sample_exchange [of "''abc123''" "rq_req (qu_state sample_asked)" no_client None] by simp
  from upstream_outcomes [OF e x s] have "writes evs = [(rq_req example_query)\<lparr>m_rcode := 1\<rparr>]"
    by (simp add: sample_services_def sample_asked_def RcodeFormatError_def)
  with s show ?thesis by blast
qed

text \<open>
  A query the cache answers is never held for its device name: the lookup it
  makes of the discoverer leaves the held queries as they were, whatever lookup it starts,
  and nothing is sent upstream for it.
\<close>

theorem cache_hits_are_not_held:
  assumes "sv_discover sv = discover_name now meanwhile wk" and "serve sv q (n, d) = ((res, evs), n', d')"
    and "Count ''cache_hits'' \<in> set evs"
  shows "map_option w_holds d' = map_option w_holds d \<and> (\<forall>p. Upstream p \<notin> set evs)"
proof -
  from serve_hit [OF assms(2,3)] have "d' = snd (look_up sv False (routed q n) q n d)" and "\<forall>p. Upstream p \<notin> set evs"
    by blast+
  moreover from look_up_state [of sv False "routed q n" q n d]
  have "map_option w_holds (snd (look_up sv False (routed q n) q n d)) = map_option w_holds d"
    using discover_no_hold assms(1) by metis
  ultimately show ?thesis by simp
qed

theorem cache_hits_are_not_held_witness:
  "\<exists>evs n d res evs' n' d'.
     serve_all sample_services [sample_asked] (sample_instance (Some example_cache), cold) = (evs, n, d) \<and>
     serve sample_services sample_asked (n, d) = ((res, evs'), n', d') \<and> Count ''cache_hits'' \<in> set evs' \<and>
     map_option w_holds d' = map_option w_holds d"
proof -
  obtain evs n d res evs' n' d' where
    all: "serve_all sample_services [sample_asked] (sample_instance (Some example_cache), cold) = (evs, n, d)"
    and s: "serve sample_services sample_asked (n, d) = ((res, evs'), n', d')"
    and hit: "Count ''cache_hits'' \<in> set evs'"
    by (rule sample_warm)
  have disc: "sv_discover sample_services = discover_name 0 (\<lambda>w. w) Elapsed" by (simp add: sample_services_def)
  show ?thesis using cache_hits_are_not_held [OF disc s hit] all s hit by blast
qed

section \<open>Slots under concurrency\<close>

text \<open>
  Queries interleave between the two atomic additions: how many are running in a slot, and
  how many have been refused but have not yet given back the count they took.
\<close>

inductive slot_step :: "nextdns \<times> nat \<times> nat \<Rightarrow> nextdns \<times> nat \<times> nat \<Rightarrow> bool" where
  admit: "take_slot n = (True, n') \<Longrightarrow> slot_step (n, running, refused) (n', Suc running, refused)"
| refuse: "take_slot n = (False, n') \<Longrightarrow> slot_step (n, running, refused) (n', running, Suc refused)"
| finish_running: "slot_step (n, Suc running, refused) (give_slot n, running, refused)"
| finish_refused: "slot_step (n, running, Suc refused) (give_slot n, running, refused)"

inductive_cases slot_stepE: "slot_step s s'"

definition slots_ok :: "int \<Rightarrow> nextdns \<times> nat \<times> nat \<Rightarrow> bool" where
  "slots_ok limit s =
     (case s of (n, running, refused) \<Rightarrow>
        n_maxConcurrent n = limit \<and> n_concurrent n = int running + int refused \<and> int running \<le> limit)"

lemma slots_ok_step: "slot_step s s' \<Longrightarrow> slots_ok limit s \<Longrightarrow> slots_ok limit s'"
  by (erule slot_stepE) (auto simp: slots_ok_def take_slot_def give_slot_def Let_def)

text \<open>
  However the queries interleave, at most \<open>max_concurrent\<close> of them are upstream at
  a time, the counter is exactly the queries that hold a count, and so it is back at zero
  whenever none is being served.
\<close>

theorem concurrency_is_limited:
  assumes "slot_step\<^sup>*\<^sup>* (n0, 0, 0) (n, running, refused)" and "n_concurrent n0 = 0" and "0 < n_maxConcurrent n0"
  shows "int running \<le> n_maxConcurrent n0 \<and> n_concurrent n = int running + int refused \<and>
    (running = 0 \<and> refused = 0 \<longrightarrow> n_concurrent n = 0)"
proof -
  have "slots_ok (n_maxConcurrent n0) (n0, 0, 0)" using assms(2,3) by (simp add: slots_ok_def)
  with assms(1) have "slots_ok (n_maxConcurrent n0) (n, running, refused)"
    by (induction rule: rtranclp_induct) (auto intro: slots_ok_step)
  then show ?thesis by (simp add: slots_ok_def)
qed

theorem concurrency_is_limited_witness:
  "\<exists>n. slot_step\<^sup>*\<^sup>* (sample_instance None, 0, 0) (n, 1, 1) \<and> n_concurrent n = 2 \<and> int 1 \<le> n_maxConcurrent (sample_instance None)"
proof -
  let ?n0 = "sample_instance None"
  let ?n1 = "?n0\<lparr>n_concurrent := 1\<rparr>" and ?n2 = "?n0\<lparr>n_concurrent := 2\<rparr>"
  have "slot_step (?n0, 0, 0) (?n1, Suc 0, 0)" and "slot_step (?n1, Suc 0, 0) (?n2, Suc 0, Suc 0)"
    by (auto intro!: slot_step.intros simp: take_slot_def sample_instance_def)
  then have s: "slot_step\<^sup>*\<^sup>* (?n0, 0, 0) (?n2, 1, 1)" by (simp add: converse_rtranclp_into_rtranclp)
  have "n_concurrent ?n0 = 0" "0 < n_maxConcurrent ?n0" by (simp_all add: sample_instance_def)
  from concurrency_is_limited [OF s this] s show ?thesis by (intro exI [of _ ?n2]) simp
qed

end
