(* ===== verification/OwnLookups.thy ===== *)
theory OwnLookups
  imports Addresses Handler
begin

text \<open>
  A reverse lookup of the plugin's own, from the goroutine that starts it back to the handler:
  the response writer it presents (\<open>discoveryWriter\<close>), the body of \<open>discoverer.lookup\<close>, and what
  becomes of it when it comes around to \<open>ServeDNS\<close> and nothing can answer. \<open>reverse\<close> is
  \<open>dns.ReverseAddr\<close>, \<open>resolve\<close> the configured resolver, and \<open>up\<close> the internal lookup of CoreDNS,
  which hands back the last message that the chain has written.
\<close>

section \<open>The writer\<close>

record udp_addr =
  ua_IP :: bytes
  ua_Port :: int
  ua_Zone :: string

text \<open>\<open>net.IP.String\<close> of 4 and of 16 bytes, and \<open>net.UDPAddr.String\<close>.\<close>

definition ip_String :: "bytes \<Rightarrow> string" where
  "ip_String bs =
     (if length bs = 4 then string4 (word_of_int (be_value (map uint bs)))
      else let w = word_of_int (be_value (map uint bs)) in
        if Is4In6 (V6 w []) then string4 (ucast w) else string6 w)"

definition udp_String :: "udp_addr \<Rightarrow> string" where
  "udp_String ua = JoinHostPort (ip_String (ua_IP ua) @ zone_suffix (ua_Zone ua)) (to_base 10 (ua_Port ua))"

record discoveryWriter =
  dw_local :: string
  dw_remote :: udp_addr

definition LocalAddr :: "discoveryWriter \<Rightarrow> string" where
  "LocalAddr w = dw_local w"

definition RemoteAddr :: "discoveryWriter \<Rightarrow> udp_addr" where
  "RemoteAddr w = dw_remote w"

text \<open>What is written is dropped, and that is no error.\<close>

definition WriteMsg :: "discoveryWriter \<Rightarrow> msg \<Rightarrow> string option \<times> discoveryWriter" where
  "WriteMsg w m = (None, w)"

definition Write_bytes :: "discoveryWriter \<Rightarrow> bytes \<Rightarrow> (nat \<times> string option) \<times> discoveryWriter" where
  "Write_bytes w b = ((length b, None), w)"

section \<open>The body of a lookup\<close>

definition writer_for :: "addr \<Rightarrow> string \<Rightarrow> discoveryWriter" where
  "writer_for a local = \<lparr>dw_local = local, dw_remote = \<lparr>ua_IP = AsSlice a, ua_Port = 0, ua_Zone = []\<rparr>\<rparr>"

definition lookup_body ::
  "(string \<Rightarrow> string option) \<Rightarrow> (context_values \<Rightarrow> string \<Rightarrow> discoveryWriter \<Rightarrow> resolve_error + string)
     \<Rightarrow> context_values \<Rightarrow> addr \<Rightarrow> string \<Rightarrow> Discovery.result" where
  "lookup_body reverse resolve ctx a local =
     (case reverse (addr_String a) of
        None \<Rightarrow> NoReverse
      | Some arpa \<Rightarrow>
          (case resolve (withDiscovery ctx) arpa (writer_for a local) of
             Inl e \<Rightarrow> Failed
           | Inr name \<Rightarrow> Resolved name))"

text \<open>The internal resolver: the question it builds, \<open>set_question\<close> being \<open>dns.Msg.SetQuestion\<close>.\<close>

definition internal_resolve ::
  "(string \<Rightarrow> u16 \<Rightarrow> msg) \<Rightarrow> (context_values \<Rightarrow> discoveryWriter \<Rightarrow> msg \<Rightarrow> string + msg option)
     \<Rightarrow> context_values \<Rightarrow> string \<Rightarrow> discoveryWriter \<Rightarrow> resolve_error + string" where
  "internal_resolve set_question up ctx arpa w =
     (let req = set_question arpa TypePTR in internalResolver (\<lambda>_. up ctx w req) arpa)"

section \<open>Addresses through the writer\<close>

lemma map_uint_be_bytes: "map uint (map (word_of_int :: int \<Rightarrow> u8) (be_bytes k n)) = be_bytes k n"
  using be_bytes_range [of _ k n] by (simp add: map_idI uint_word_of_int)

lemma ip_String_AsSlice:
  assumes "a \<noteq> NoAddr" and "\<not> has_zone a" and "\<not> Is4In6 a"
  shows "ip_String (AsSlice a) = addr_String a"
proof (cases a)
  case NoAddr
  with assms show ?thesis by simp
next
  case (V4 v)
  have "be_value (be_bytes 4 (uint v)) = uint v" using uint_lt2p [of v] by (simp add: be_value_be_bytes)
  then show ?thesis
    unfolding ip_String_def by (simp add: V4 AsSlice_def addr_String_def map_uint_be_bytes del: map_map)
next
  case (V6 v z)
  with assms show ?thesis
    unfolding ip_String_def by (simp add: AsSlice_def addr_String_def has_zone_def zone_suffix_def Let_def
      Is4In6_def map_uint_be_bytes del: map_map)
qed

lemma takeWhile_sep: "c \<notin> set h \<Longrightarrow> takeWhile (\<lambda>x. x \<noteq> c) (h @ c # r) = h"
  by (induction h) auto

lemma LastIndexByte_sep: "c \<notin> set port \<Longrightarrow> LastIndexByte (h @ c # port) c = int (length h)"
  using takeWhile_sep [of c "rev port" "rev h"] by (simp add: LastIndexByte_def)

lemma IndexByte_sep: "c \<notin> set h \<Longrightarrow> IndexByte (h @ c # r) c = int (length h)"
  by (simp add: IndexByte_def takeWhile_sep)

text \<open>A host without brackets and a port are taken apart again.\<close>

lemma SplitHostPort_Join:
  assumes h: "CHR ''['' \<notin> set h" "CHR '']'' \<notin> set h" "h \<noteq> []"
    and port: "CHR '':'' \<notin> set port" "CHR ''['' \<notin> set port" "CHR '']'' \<notin> set port"
  shows "SplitHostPort (JoinHostPort h port) = Some (h, port)"
proof (cases "CHR '':'' \<in> set h")
  case True
  let ?hp = "CHR ''['' # h @ CHR '']'' # CHR '':'' # port"
  have hp: "JoinHostPort h port = ?hp" using True by (simp add: JoinHostPort_def)
  have i: "LastIndexByte ?hp CHR '':'' = int (length h + 2)"
    using LastIndexByte_sep [OF port(1), of "CHR ''['' # h @ [CHR '']'']"] by simp
  have e: "IndexByte ?hp CHR '']'' = int (length h + 1)"
    using IndexByte_sep [of "CHR '']''" "CHR ''['' # h" "CHR '':'' # port"] h(2) by simp
  show ?thesis
    unfolding hp SplitHostPort_def i e Let_def nat_int using h port by simp
next
  case False
  let ?hp = "h @ CHR '':'' # port"
  have hp: "JoinHostPort h port = ?hp" using False by (simp add: JoinHostPort_def)
  have i: "LastIndexByte ?hp CHR '':'' = int (length h)" by (rule LastIndexByte_sep [OF port(1)])
  have "hd ?hp \<noteq> CHR ''[''" using h by (cases h) auto
  then show ?thesis
    unfolding hp SplitHostPort_def i Let_def using h port False by simp
qed

lemma addr_String_Nil: "addr_String a \<noteq> []"
proof (cases a)
  case (V6 w z)
  have "string6 w \<noteq> []" using ParseAddr_string6 [of w] by (auto simp: ParseAddr_def)
  then show ?thesis by (simp add: V6 addr_String_def)
next
  case (V4 w)
  then show ?thesis using dropWhile_string4 [of w] by (auto simp: addr_String_def)
qed (simp add: addr_String_def)

section \<open>Properties\<close>

text \<open>
  Property C40. A reverse lookup is made on the device's behalf: the address its writer presents, taken
  apart and parsed as the plugin (and any view that routes by client address) does with a
  query, is the address of the device, be it IPv4 or IPv6.
\<close>

theorem lookups_present_the_device:
  assumes "clientAddr ip = Some a"
  shows "SplitHostPort (udp_String (RemoteAddr (writer_for a local))) = Some (addr_String a, ''0'')
    \<and> clientAddr (addr_String a) = Some a"
proof -
  note n = clientAddr_normal [OF assms]
  have p: "ParseAddr (addr_String a) = Some a" using n by (intro ParseAddr_String) auto
  have zero: "to_base 10 0 = ''0''" by code_simp
  have "\<not> is_alnum CHR ''[''" "\<not> is_alnum CHR '']''" by (simp_all add: is_alnum_def is_digit_def is_lower_def is_upper_def)
  then have "CHR ''['' \<notin> set (addr_String a)" "CHR '']'' \<notin> set (addr_String a)"
    using addr_String_chars [of a "CHR ''[''"] addr_String_chars [of a "CHR '']''"] n by auto
  then have "SplitHostPort (JoinHostPort (addr_String a) ''0'') = Some (addr_String a, ''0'')"
    by (intro SplitHostPort_Join) (simp_all add: addr_String_Nil)
  then have "SplitHostPort (udp_String (RemoteAddr (writer_for a local))) = Some (addr_String a, ''0'')"
    using n by (simp add: udp_String_def RemoteAddr_def writer_for_def zero zone_suffix_def ip_String_AsSlice)
  moreover have "clientAddr (addr_String a) = Some a"
    using n p by (simp add: clientAddr_def Unmap_id WithZone_id)
  ultimately show ?thesis by simp
qed

theorem lookups_present_the_device_witness:
  "udp_String (RemoteAddr (writer_for (V6 0xfd000000000000000000000000000007 []) [])) = ''[fd00::7]:0''
   \<and> clientAddr ''fd00::7'' = Some (V6 0xfd000000000000000000000000000007 [])"
proof -
  have a: "clientAddr ''FD00:0:0::0007%eth0'' = Some (V6 0xfd000000000000000000000000000007 [])" by code_simp
  have "addr_String (V6 0xfd000000000000000000000000000007 []) = ''fd00::7''" by code_simp
  moreover have "udp_String (RemoteAddr (writer_for (V6 0xfd000000000000000000000000000007 []) [])) = ''[fd00::7]:0''" by code_simp
  ultimately show ?thesis using lookups_present_the_device [OF a, of "[]"] by simp
qed

text \<open>
  Property C39. Discovery does not loop. The lookup hands its context to the internal resolver
  with its mark on it, and CoreDNS hands context and question to the chain: if they come around
  to the handler as the query \<open>query_of\<close> makes of them, and nothing behind the plugin answers,
  the handler changes no state, holds nothing and sends nothing upstream; the lookup ends without
  a name rather than as a failure; and as long as what it records stays in the table, the
  device is not looked up again before the retry interval is over.
\<close>

theorem own_lookups_do_not_loop:
  assumes "\<And>ctx w m. qu_ctx (query_of ctx w m) = ctx"
    and "\<And>ctx w m res evs n' d'. serve sv (query_of ctx w m) (n, d) = ((res, evs), n', d') \<Longrightarrow>
      up ctx w m = Inr (if writes evs = [] then None else Some (last (writes evs)))"
    and "reverse (addr_String a) = Some arpa"
    and "q = query_of (withDiscovery ctx) (writer_for a local) (set_question arpa TypePTR)"
    and "sv_next sv (rq_req (qu_state q)) = ((rc, Some e), ws)" and "\<not> sv_client_write sv rc"
    and "m_rcode (sv_set_rcode sv (rq_req (qu_state q)) RcodeNameError) = RcodeNameError"
    and "m_answer (sv_set_rcode sv (rq_req (qu_state q)) RcodeNameError) = []"
    and "found = lookup_body reverse (internal_resolve set_question up) ctx a local"
  shows "(\<exists>res evs. serve sv q (n, d) = ((res, evs), n, d) \<and> snd res = None \<and> (\<forall>p. Upstream p \<notin> set evs))
    \<and> found = Resolved []
    \<and> (\<forall>later t h ch. map_of (dc_entries later) a = map_of (dc_entries (record_result c now a found disc)) a
          \<and> t < now + dc_retry disc \<longrightarrow> name_locked t h ch a later = (Answer [], False, later))"
proof -
  have own: "isDiscovery (qu_ctx q)" by (simp add: assms(1,4) isDiscovery_def withDiscovery_def)
  obtain res evs n' d' where s: "serve sv q (n, d) = ((res, evs), n', d')" by (metis surj_pair)
  from own_lookups_stop_here [OF own s]
  have frame: "n' = n" "d' = d" "snd res = None" "\<forall>e \<in> set evs. e = NextPlugin \<or> (\<exists>m. e = Write m)"
    and w: "writes evs = ws @ [sv_set_rcode sv (rq_req (qu_state q)) RcodeNameError]"
    using assms(5,6) by auto
  have "up (withDiscovery ctx) (writer_for a local) (set_question arpa TypePTR)
      = Inr (Some (sv_set_rcode sv (rq_req (qu_state q)) RcodeNameError))"
    using assms(2) [OF s [unfolded assms(4)]] by (simp add: w)
  then have found: "found = Resolved []"
    using assms(3,7,8) by (simp add: assms(9) lookup_body_def internal_resolve_def internalResolver_def ptrName_def
      List.map_filter_simps)
  have "name_locked t h ch a later = (Answer [], False, later)"
    if "map_of (dc_entries later) a = map_of (dc_entries (record_result c now a found disc)) a" "t < now + dc_retry disc"
    for later t h ch
    using that by (simp add: found record_result_def store_def name_locked_def entry_at_def Let_def)
  with s frame found show ?thesis by auto
qed

text \<open>The chain of CoreDNS with nothing but the plugin in it, and the question as it puts it.\<close>

definition asked_in_chain :: "context_values \<Rightarrow> discoveryWriter \<Rightarrow> msg \<Rightarrow> query" where
  "asked_in_chain ctx w m =
     sample_asked\<lparr>qu_ctx := ctx, qu_state := example_query\<lparr>rq_req := m, rq_qtype := TypePTR\<rparr>\<rparr>"

definition bare_chain :: "context_values \<Rightarrow> discoveryWriter \<Rightarrow> msg \<Rightarrow> string + msg option" where
  "bare_chain ctx w m =
     (let ((res, evs), _) = serve sample_services (asked_in_chain ctx w m) (sample_instance None, cold)
      in Inr (if writes evs = [] then None else Some (last (writes evs))))"

definition ptr_question :: "string \<Rightarrow> u16 \<Rightarrow> msg" where
  "ptr_question arpa t = (rq_req example_query)\<lparr>m_question := [\<lparr>q_name = arpa, q_type = t, q_class = 1\<rparr>]\<rparr>"

theorem own_lookups_do_not_loop_witness:
  "lookup_body (\<lambda>s. Some (s @ ''.arpa.'')) (internal_resolve ptr_question bare_chain) \<lparr>cx_discovery = None\<rparr> device [] = Resolved []
   \<and> name_locked 299999999999 True 9 device (record_result 0 0 device (Resolved []) newDiscoverer)
       = (Answer [], False, record_result 0 0 device (Resolved []) newDiscoverer)"
proof -
  let ?q = "asked_in_chain (withDiscovery \<lparr>cx_discovery = None\<rparr>) (writer_for device [])
    (ptr_question (addr_String device @ ''.arpa.'') TypePTR)"
  have ctx: "qu_ctx (asked_in_chain ctx w m) = ctx" for ctx w m by (simp add: asked_in_chain_def)
  have up: "bare_chain ctx w m = Inr (if writes evs = [] then None else Some (last (writes evs)))"
    if "serve sample_services (asked_in_chain ctx w m) (sample_instance None, cold) = ((res, evs), n, d)" for ctx w m res evs n d
    by (simp add: bare_chain_def that)
  have "sv_next sample_services (rq_req (qu_state ?q)) = ((2, Some ''no next plugin found''), [])"
    "\<not> sv_client_write sample_services 2"
    "m_rcode (sv_set_rcode sample_services (rq_req (qu_state ?q)) RcodeNameError) = RcodeNameError"
    "m_answer (sv_set_rcode sample_services (rq_req (qu_state ?q)) RcodeNameError) = []"
    by (simp_all add: sample_services_def asked_in_chain_def ptr_question_def example_query_def)
  note held = own_lookups_do_not_loop [where reverse = "\<lambda>s. Some (s @ ''.arpa.'')" and disc = newDiscoverer and now = 0 and c = 0
      and set_question = ptr_question and ctx = "\<lparr>cx_discovery = None\<rparr>" and a = device and local = "[]"
      and query_of = asked_in_chain and up = bare_chain, OF ctx up refl refl this refl]
  have "(299999999999 :: int) < 0 + dc_retry newDiscoverer"
    by code_simp
  with held show ?thesis by auto
qed

end
