(* ===== verification/System.thy ===== *)
theory System
  imports Handler
begin

text \<open>
  The running plugin: any number of queries served at once, with refreshes, dials and reverse
  lookups going on beside them. A step is what one goroutine does to the shared state between
  two points where others can get in: a query arriving and consulting the cache, its client
  being identified and its slot taken, its exchange ending. What the network and the next
  plugin do may differ at every step; what is fixed is the library: the hash, the lifetime of
  an answer and whether a reply matches a question. Serving queries one after the other, as
  \<open>serve\<close> does, is a special case.

  The pieces of \<open>Handler\<close> are the steps: \<open>arrive\<close> up to the cache miss, \<open>identify\<close> and
  \<open>take_slot\<close>, \<open>serve_upstream\<close> and \<open>give_slot\<close>. Within a step the code touches state behind
  different locks (the cache and the configuration times, the client and the cache); that
  they are seen together is an abstraction, which \<open>Concurrent\<close> removes for the cache. \<open>refreshed\<close> and \<open>discovered\<close> let the device table
  and the discoverer change arbitrarily, which covers whatever their goroutines do.
\<close>

section \<open>States and steps\<close>

type_synonym result = "int \<times> serve_error option"

text \<open>
  The instance and the discoverer, the queries waiting for the name of their client, those
  upstream, how many refused ones still hold a count, and what has been done and returned.
\<close>

record 'd system =
  sy_n :: nextdns
  sy_d :: 'd
  sy_asking :: "(query \<times> string) list"
  sy_upstream :: "(query \<times> string \<times> ClientInfo) list"
  sy_refused :: nat
  sy_log :: "event list"
  sy_results :: "result list"

definition same_library :: "'d services \<Rightarrow> 'd services \<Rightarrow> bool" where
  "same_library sv sv' \<longleftrightarrow> sv_sum64 sv' = sv_sum64 sv \<and> sv_minimalTTL sv' = sv_minimalTTL sv
     \<and> sv_match sv' = sv_match sv"

inductive sys_step :: "'d services \<Rightarrow> 'd system \<Rightarrow> 'd system \<Rightarrow> bool" for sv where
  answered:
    "same_library sv sv' \<Longrightarrow> arrive sv' q (sy_n s, sy_d s) = (Inl (res, evs), n, d) \<Longrightarrow>
       sys_step sv s (s\<lparr>sy_n := n, sy_d := d, sy_log := sy_log s @ evs, sy_results := res # sy_results s\<rparr>)"
| missed:
    "same_library sv sv' \<Longrightarrow> arrive sv' q (sy_n s, sy_d s) = (Inr (p, evs), n, d) \<Longrightarrow>
       sys_step sv s (s\<lparr>sy_n := n, sy_d := d, sy_asking := (q, p) # sy_asking s, sy_log := sy_log s @ evs\<rparr>)"
| unlimited:
    "same_library sv sv' \<Longrightarrow> (q, p) \<in> set (sy_asking s) \<Longrightarrow> identify sv' p q (sy_n s) (sy_d s) = (ci, pub, d) \<Longrightarrow>
     n_maxConcurrent (sy_n s) \<le> 0 \<Longrightarrow>
       sys_step sv s (s\<lparr>sy_d := d, sy_asking := remove1 (q, p) (sy_asking s),
         sy_upstream := (q, p, ci) # sy_upstream s, sy_log := sy_log s @ pub\<rparr>)"
| admitted:
    "same_library sv sv' \<Longrightarrow> (q, p) \<in> set (sy_asking s) \<Longrightarrow> identify sv' p q (sy_n s) (sy_d s) = (ci, pub, d) \<Longrightarrow>
     0 < n_maxConcurrent (sy_n s) \<Longrightarrow> take_slot (sy_n s) = (True, n) \<Longrightarrow>
       sys_step sv s (s\<lparr>sy_n := n, sy_d := d, sy_asking := remove1 (q, p) (sy_asking s),
         sy_upstream := (q, p, ci) # sy_upstream s, sy_log := sy_log s @ pub\<rparr>)"
| refused:
    "same_library sv sv' \<Longrightarrow> (q, p) \<in> set (sy_asking s) \<Longrightarrow> identify sv' p q (sy_n s) (sy_d s) = (ci, pub, d) \<Longrightarrow>
     0 < n_maxConcurrent (sy_n s) \<Longrightarrow> take_slot (sy_n s) = (False, n) \<Longrightarrow>
       sys_step sv s (s\<lparr>sy_n := n, sy_d := d, sy_asking := remove1 (q, p) (sy_asking s),
         sy_refused := Suc (sy_refused s), sy_log := sy_log s @ pub @ [Count ''max_concurrent_rejects'']\<rparr>)"
| released:
    "sy_refused s = Suc k \<Longrightarrow>
       sys_step sv s (s\<lparr>sy_n := give_slot (sy_n s), sy_refused := k,
         sy_results := (RcodeRefused, Some MaxConcurrent) # sy_results s\<rparr>)"
| finished:
    "same_library sv sv' \<Longrightarrow> (q, p, ci) \<in> set (sy_upstream s) \<Longrightarrow>
     serve_upstream sv' p (q\<lparr>qu_later := t, qu_victim := v\<rparr>) ci (sy_n s) = ((res, evs), n) \<Longrightarrow>
       sys_step sv s (s\<lparr>sy_n := (if n_maxConcurrent n \<le> 0 then n else give_slot n),
         sy_upstream := remove1 (q, p, ci) (sy_upstream s), sy_log := sy_log s @ evs,
         sy_results := res # sy_results s\<rparr>)"
| refreshed: "sys_step sv s (s\<lparr>sy_n := (sy_n s)\<lparr>n_devices := db\<rparr>\<rparr>)"
| dialled:
    "dial (dialer :: string \<Rightarrow> string + unit) network addr (n_client (sy_n s)) = (r, targets, lg, c) \<Longrightarrow>
       sys_step sv s (s\<lparr>sy_n := (sy_n s)\<lparr>n_client := c\<rparr>\<rparr>)"
| discovered: "sys_step sv s (s\<lparr>sy_d := d\<rparr>)"

inductive_cases sys_stepE: "sys_step sv s s'"

definition booted :: "nextdns \<Rightarrow> 'd \<Rightarrow> 'd system" where
  "booted n d = \<lparr>sy_n = n, sy_d = d, sy_asking = [], sy_upstream = [], sy_refused = 0, sy_log = [], sy_results = []\<rparr>"

abbreviation runs_to :: "'d services \<Rightarrow> 'd system \<Rightarrow> 'd system \<Rightarrow> bool" where
  "runs_to sv \<equiv> (sys_step sv)\<^sup>*\<^sup>*"

lemma same_library_refl [simp]: "same_library sv sv"
  by (simp add: same_library_def)

section \<open>What the parts of a query leave alone\<close>

lemma arrive_frame:
  assumes "arrive sv q (n, d) = (r, n', d')"
  shows "\<exists>b. n' = n\<lparr>n_badProfile := b\<rparr>"
  using assms by (cases rule: arrive_cases) (auto intro: exI [of _ "n_badProfile n"])

lemma take_slot_simps:
  "take_slot n = (b, n') \<longleftrightarrow> b = (n_concurrent n + 1 \<le> n_maxConcurrent n) \<and> n' = n\<lparr>n_concurrent := n_concurrent n + 1\<rparr>"
  by (auto simp: take_slot_def Let_def)

lemma noteBootstrap_frame:
  "noteBootstrap h f c = (c', lg) \<Longrightarrow> dh_endpoints c' = dh_endpoints c \<and> dh_lastMod c' = dh_lastMod c"
  by (auto simp: noteBootstrap_def Let_def split: if_splits)

lemma collect_boot_length:
  "collect_boot network host eps = (boot, declared, eps') \<Longrightarrow> length eps' = length eps"
  by (induction eps arbitrary: boot declared eps') (auto simp: Let_def split: prod.splits if_splits)

lemma dial_frame:
  assumes "dial dialer network addr c = (r, targets, lg, c')"
  shows "length (dh_endpoints c') = length (dh_endpoints c) \<and> dh_lastMod c' = dh_lastMod c"
  using assms noteBootstrap_frame collect_boot_length
  by (fastforce simp: dial_def Let_def split: option.splits prod.splits if_splits sum.splits)

section \<open>Invariants\<close>

text \<open>
  The counter is exactly what the queries upstream and the refused ones hold, and the limit is
  kept; without a limit nothing is counted.
\<close>

definition slots_inv :: "int \<Rightarrow> 'd system \<Rightarrow> bool" where
  "slots_inv limit s \<longleftrightarrow> n_maxConcurrent (sy_n s) = limit \<and>
     (if 0 < limit
      then n_concurrent (sy_n s) = int (length (sy_upstream s)) + int (sy_refused s) \<and> int (length (sy_upstream s)) \<le> limit
      else n_concurrent (sy_n s) = 0 \<and> sy_refused s = 0)"

lemma length_remove1_pos: "x \<in> set xs \<Longrightarrow> int (length (remove1 x xs)) = int (length xs) - 1"
  using length_pos_if_in_set [of x xs] by (simp add: length_remove1 of_nat_diff Suc_le_eq)

lemma in_remove1: "x \<in> set (remove1 y xs) \<Longrightarrow> x \<in> set xs"
  by (meson notin_set_remove1)

lemma slots_inv_step:
  assumes "sys_step sv s s'" and "slots_inv limit s"
  shows "slots_inv limit s'"
  using assms(1)
proof cases
  case (answered sv' q res evs n d)
  with assms(2) arrive_frame [OF answered(3)] show ?thesis by (auto simp: slots_inv_def)
next
  case (missed sv' q p evs n d)
  with assms(2) arrive_frame [OF missed(3)] show ?thesis by (auto simp: slots_inv_def)
next
  case (finished sv' q p ci t v res evs n)
  from serve_upstream_frame [OF finished(4)] assms(2) show ?thesis
    by (auto simp: slots_inv_def finished(1) give_slot_def length_remove1_pos [OF finished(3)])
qed (use assms(2) in \<open>auto simp: slots_inv_def take_slot_simps give_slot_def split: if_splits\<close>)

text \<open>
  The configuration stays what it was, and whatever is upstream, or ever was, is under a
  well-formed profile; no reply that is missing is dereferenced.
\<close>

definition profiles_inv :: "'d system \<Rightarrow> bool" where
  "profiles_inv s \<longleftrightarrow> routing_ok (routing.truncate (sy_n s)) \<and> dh_endpoints (n_client (sy_n s)) \<noteq> []
     \<and> (\<forall>q p. (q, p) \<in> set (sy_asking s) \<longrightarrow> profile_ok p)
     \<and> (\<forall>q p ci. (q, p, ci) \<in> set (sy_upstream s) \<longrightarrow> profile_ok p)
     \<and> (\<forall>p. Upstream p \<in> set (sy_log s) \<longrightarrow> profile_ok p)
     \<and> (\<forall>rc. (rc, Some NilDereference) \<notin> set (sy_results s))"

lemma routing_ok_badProfile [simp]:
  "routing_ok (routing.truncate (n\<lparr>n_badProfile := b\<rparr>)) = routing_ok (routing.truncate n)"
  by (simp add: routing_ok_def routing.truncate_def)

lemma routing_ok_other [simp]:
  "routing.truncate (n\<lparr>n_concurrent := c\<rparr>) = routing.truncate n"
  "routing.truncate (n\<lparr>n_devices := db\<rparr>) = routing.truncate n"
  "routing.truncate (n\<lparr>n_client := dh\<rparr>) = routing.truncate n"
  by (simp_all add: routing.truncate_def)

lemma routed_ok: "routing_ok (routing.truncate n) \<Longrightarrow> routed q n \<noteq> passthrough \<Longrightarrow> profile_ok (routed q n)"
  using profileFor_valid [of "routing.truncate n" "qu_label q" "qu_view q" "qu_state q"]
  by (simp add: routed_def validRoute_None)

lemma arrive_answers:
  assumes "arrive sv q (n, d) = (Inl (res, evs), n', d')"
  shows "snd res \<noteq> Some NilDereference \<and> snd res \<noteq> Some MaxConcurrent \<and> (\<forall>p. Upstream p \<notin> set evs) \<and> puts_of evs = []"
  using assms
proof (cases rule: arrive_cases)
  case own
  then have d: "serve_discovery sv (rq_req (qu_state q)) = (res, evs)" by simp
  then have "snd res = None" by (auto simp: serve_discovery_def call_next_def split: prod.splits if_splits)
  with serve_discovery_events [OF d] puts_of_discovery [OF d] show ?thesis by auto
next
  case (other pre b)
  then have "snd res \<noteq> Some NilDereference" "snd res \<noteq> Some MaxConcurrent"
    by (auto simp: call_next_def split: prod.splits)
  moreover have "Upstream p \<notin> set evs" for p
    using other by (auto dest!: call_next_events quiet_not_in [where e = "Upstream p"])
  moreover have "puts_of evs = []" using other by (simp add: puts_of_quiet)
  ultimately show ?thesis by blast
next
  case (hit pre b m)
  then have "Upstream p \<notin> set evs" for p
    by (auto simp: reply_def dest!: quiet_not_in' [where e = "Upstream p"])
  with hit show ?thesis by (auto simp: reply_def puts_of_quiet')
next
  case (miss pre b)
  then show ?thesis by simp
qed

lemma arrive_misses:
  assumes "arrive sv q (n, d) = (Inr (p, evs), n', d')"
  shows "p = routed q n \<and> p \<noteq> passthrough \<and> (\<forall>p. Upstream p \<notin> set evs) \<and> puts_of evs = []"
  using assms
proof (cases rule: arrive_cases)
  case (miss pre b)
  then show ?thesis by (auto simp: puts_of_quiet dest!: quiet_not_in)
qed simp_all

lemma identify_events:
  assumes "identify sv p q n d = (ci, pub, d')"
  shows "puts_of pub = [] \<and> (\<forall>p. Upstream p \<notin> set pub)"
proof -
  have "list_all quiet pub"
    using assms quiet_publish by (auto simp: identify_def split: prod.splits)
  then show ?thesis by (auto simp: puts_of_quiet dest!: quiet_not_in)
qed

lemma profiles_inv_step:
  assumes "sys_step sv s s'" and "profiles_inv s"
  shows "profiles_inv s'"
  using assms(1)
proof cases
  case (answered sv' q res evs n d)
  with assms(2) arrive_frame [OF answered(3)] arrive_answers [OF answered(3)] show ?thesis
    by (auto simp: profiles_inv_def)
next
  case (missed sv' q p evs n d)
  have "profile_ok p" using arrive_misses [OF missed(3)] assms(2) routed_ok by (auto simp: profiles_inv_def)
  with missed assms(2) arrive_frame [OF missed(3)] arrive_misses [OF missed(3)] show ?thesis
    by (auto simp: profiles_inv_def)
next
  case (unlimited sv' q p ci pub d)
  with assms(2) identify_events [OF unlimited(4)] show ?thesis
    by (auto simp: profiles_inv_def dest: in_remove1)
next
  case (admitted sv' q p ci pub d n)
  with assms(2) identify_events [OF admitted(4)] show ?thesis
    by (auto simp: profiles_inv_def take_slot_simps dest: in_remove1)
next
  case (refused sv' q p ci pub d n)
  with assms(2) identify_events [OF refused(4)] show ?thesis
    by (auto simp: profiles_inv_def take_slot_simps dest: in_remove1)
next
  case (finished sv' q p ci t v res evs n)
  have n: "routing.truncate n = routing.truncate (sy_n s)" "dh_endpoints (n_client n) = dh_endpoints (n_client (sy_n s))"
    using serve_upstream_frame [OF finished(4)] serve_upstream_endpoints [OF finished(4)] by auto
  have "snd res \<noteq> Some NilDereference"
    using serve_upstream_not_nil [OF finished(4)] assms(2) by (simp add: profiles_inv_def)
  moreover have "\<forall>p'. Upstream p' \<in> set evs \<longrightarrow> p' = p" using upstream_events [OF finished(4)] by blast
  moreover have "profile_ok p" using finished(3) assms(2) unfolding profiles_inv_def by blast
  moreover have "profile_ok p'" if "(q', p', ci') \<in> set (remove1 (q, p, ci) (sy_upstream s))" for q' p' ci'
    using in_remove1 [OF that] assms(2) unfolding profiles_inv_def by blast
  ultimately show ?thesis
    using assms(2) finished(1) n by (auto simp: profiles_inv_def give_slot_def)
next
  case (dialled dialer network addr r targets lg c)
  with assms(2) dial_frame [OF dialled(2)] show ?thesis by (auto simp: profiles_inv_def)
qed (use assms(2) in \<open>auto simp: profiles_inv_def give_slot_def RcodeRefused_def\<close>)

text \<open>The cache is what was put into it, all of it replies to the question asked.\<close>

definition cache_inv :: "'d services \<Rightarrow> msgCache \<Rightarrow> 'd system \<Rightarrow> bool" where
  "cache_inv sv mc s \<longleftrightarrow> n_cache (sy_n s) = Some (offers_of sv (sy_log s) mc)
     \<and> (\<forall>v t p st m. Put v t p st m \<in> set (sy_log s) \<longrightarrow> Upstream p \<in> set (sy_log s) \<and> sv_match sv st m)"

lemma offers_of_library: "same_library sv sv' \<Longrightarrow> offers_of sv' evs mc = offers_of sv evs mc"
  by (simp add: same_library_def)

lemma offers_of_none: "puts_of evs = [] \<Longrightarrow> offers_of sv (log @ evs) mc = offers_of sv log mc"
  by (simp add: mcache.offers_append)

lemma upstream_put:
  assumes "serve_upstream sv p q ci n = ((res, evs), n')" and "Put v t p' st m \<in> set evs"
  shows "p' = p \<and> st = qu_state q \<and> sv_match sv st m \<and> Upstream p \<in> set evs"
  using assms(1)
proof (cases rule: serve_upstream_cases)
  case (answered m' client puts)
  with assms(2) show ?thesis by (auto dest!: put_reply_frame)
qed (use assms(2) in auto)

lemma cache_inv_quiet:
  assumes "cache_inv sv mc s" and "n_cache (sy_n s') = n_cache (sy_n s)" and "sy_log s' = sy_log s @ evs" and "puts_of evs = []"
  shows "cache_inv sv mc s'"
proof -
  have "Put v t p st m \<notin> set evs" for v t p st m
    using puts_of_iff [of v t p st m evs] assms(4) by simp
  then show ?thesis using assms by (auto simp: cache_inv_def mcache.offers_append)
qed

lemma cache_inv_step:
  assumes "sys_step sv s s'" and "cache_inv sv mc s"
  shows "cache_inv sv mc s'"
  using assms(1)
proof cases
  case (answered sv' q res evs n d)
  show ?thesis
    by (rule cache_inv_quiet [OF assms(2), of _ evs])
      (use answered(1) arrive_frame [OF answered(3)] arrive_answers [OF answered(3)] in auto)
next
  case (missed sv' q p evs n d)
  show ?thesis
    by (rule cache_inv_quiet [OF assms(2), of _ evs])
      (use missed(1) arrive_frame [OF missed(3)] arrive_misses [OF missed(3)] in auto)
next
  case (unlimited sv' q p ci pub d)
  show ?thesis
    by (rule cache_inv_quiet [OF assms(2), of _ pub])
      (use unlimited(1) identify_events [OF unlimited(4)] in auto)
next
  case (admitted sv' q p ci pub d n)
  show ?thesis
    by (rule cache_inv_quiet [OF assms(2), of _ pub])
      (use admitted(1,6) identify_events [OF admitted(4)] in \<open>auto simp: take_slot_simps\<close>)
next
  case (refused sv' q p ci pub d n)
  show ?thesis
    by (rule cache_inv_quiet [OF assms(2), of _ "pub @ [Count ''max_concurrent_rejects'']"])
      (use refused(1,6) identify_events [OF refused(4)] in \<open>auto simp: take_slot_simps\<close>)
next
  case (finished sv' q p ci t v res evs n)
  have "n_cache n = Some (offers_of sv' evs (offers_of sv (sy_log s) mc))"
    using serve_upstream_cache [OF finished(4)] assms(2) by (simp add: cache_inv_def)
  then have "n_cache n = Some (offers_of sv (sy_log s @ evs) mc)"
    using finished(2) by (simp add: mcache.offers_append same_library_def)
  moreover have "sv_match sv st m \<and> Upstream p' \<in> set evs" if "Put v' t' p' st m \<in> set evs" for v' t' p' st m
    using upstream_put [OF finished(4) that] finished(2) unfolding same_library_def by metis
  ultimately show ?thesis
    using assms(2) finished(1) by (fastforce simp: cache_inv_def give_slot_def)
qed (rule cache_inv_quiet [OF assms(2), of _ "[]"]; simp add: give_slot_def)+

lemma runs_keep:
  assumes "runs_to sv s s'" and "P s" and "\<And>s s'. sys_step sv s s' \<Longrightarrow> P s \<Longrightarrow> P s'"
  shows "P s'"
  using assms(1,2) by (induction rule: rtranclp_induct) (auto intro: assms(3))


section \<open>Queries one after the other\<close>

text \<open>One run of \<open>ServeDNS\<close> from start to end is a run of the system.\<close>

lemma serve_upstream_max: "serve_upstream sv p q ci n = (r, n') \<Longrightarrow> n_maxConcurrent n' = n_maxConcurrent n"
  by (cases r) (auto dest: serve_upstream_frame)

lemma two_steps: "sys_step sv a b \<Longrightarrow> sys_step sv b c \<Longrightarrow> sys_step sv c e \<Longrightarrow> runs_to sv a e"
  by (meson converse_rtranclp_into_rtranclp r_into_rtranclp)

lemma serve_runs:
  assumes "serve sv q (sy_n s, sy_d s) = ((res, evs), n, d)"
  shows "runs_to sv s (s\<lparr>sy_n := n, sy_d := d, sy_log := sy_log s @ evs, sy_results := res # sy_results s\<rparr>)"
proof -
  obtain r n1 d1 where a: "arrive sv q (sy_n s, sy_d s) = (r, n1, d1)" by (metis surj_pair)
  show ?thesis
  proof (cases r)
    case (Inl x)
    with a assms have "arrive sv q (sy_n s, sy_d s) = (Inl (res, evs), n, d)" by (simp add: serve_def)
    from answered [OF same_library_refl this] show ?thesis by blast
  next
    case (Inr x)
    obtain p pre where x: "x = (p, pre)" by (metis surj_pair)
    obtain ci pub d2 where i: "identify sv p q n1 d1 = (ci, pub, d2)" by (metis surj_pair)
    obtain res' up n2 where w: "with_slot (serve_upstream sv p q ci) n1 = ((res', up), n2)" by (metis surj_pair)
    have out: "res = res'" "evs = pre @ pub @ up" "n = n2" "d = d2" using assms a Inr x i w by (simp_all add: serve_def)
    let ?s1 = "s\<lparr>sy_n := n1, sy_d := d1, sy_asking := (q, p) # sy_asking s, sy_log := sy_log s @ pre\<rparr>"
    have s1: "sys_step sv s ?s1" by (rule missed [OF same_library_refl a [unfolded Inr x]])
    have ask: "(q, p) \<in> set (sy_asking ?s1)" and i1: "identify sv p q (sy_n ?s1) (sy_d ?s1) = (ci, pub, d2)"
      using i by simp_all
    obtain admit n3 where t: "take_slot n1 = (admit, n3)" by (metis surj_pair)
    let ?up = "\<lambda>m. ?s1\<lparr>sy_n := m, sy_d := d2, sy_asking := remove1 (q, p) (sy_asking ?s1),
        sy_upstream := (q, p, ci) # sy_upstream ?s1, sy_log := sy_log ?s1 @ pub\<rparr>"
    have fin: "sys_step sv (?up m) ((?up m)\<lparr>sy_n := (if n_maxConcurrent m' \<le> 0 then m' else give_slot m'),
        sy_upstream := sy_upstream s, sy_log := sy_log s @ evs, sy_results := res # sy_results s\<rparr>)"
      if "serve_upstream sv p q ci m = ((res, up), m')" for m m'
      using finished [OF same_library_refl, where sv = sv and q = q and p = p and ci = ci and s = "?up m" and t = "qu_later q"
          and v = "qu_victim q" and res = res and evs = up and n = m'] that out(2)
      by simp
    consider (unlimited) "n_maxConcurrent n1 \<le> 0" | (admitted) "0 < n_maxConcurrent n1" admit
      | (refused) "0 < n_maxConcurrent n1" "\<not> admit" by linarith
    then show ?thesis
    proof cases
      case unlimited
      then have u: "serve_upstream sv p q ci n1 = ((res, up), n)" using w out by (simp add: with_slot_def)
      have s2: "sys_step sv ?s1 (?up n1)"
        using sys_step.unlimited [OF same_library_refl ask i1] unlimited by simp
      show ?thesis
        using two_steps [OF s1 s2 fin [OF u]] serve_upstream_max [OF u] unlimited out(4) by (cases s) simp
    next
      case admitted
      then obtain m where u: "serve_upstream sv p q ci n3 = ((res, up), m)" and n: "n = give_slot m"
        using w out t by (auto simp: with_slot_def split: prod.splits)
      have s2: "sys_step sv ?s1 (?up n3)"
        using sys_step.admitted [OF same_library_refl ask i1, of n3] admitted t by simp
      have "n_maxConcurrent m = n_maxConcurrent n1"
        using serve_upstream_max [OF u] t by (simp add: take_slot_simps)
      then show ?thesis
        using two_steps [OF s1 s2 fin [OF u]] admitted n out(4) by (cases s) simp
    next
      case refused
      then have r: "res = (RcodeRefused, Some MaxConcurrent)" "up = [Count ''max_concurrent_rejects'']" "n = give_slot n3"
        using w out t by (auto simp: with_slot_def)
      let ?s2 = "?s1\<lparr>sy_n := n3, sy_d := d2, sy_asking := remove1 (q, p) (sy_asking ?s1),
        sy_refused := Suc (sy_refused ?s1), sy_log := sy_log ?s1 @ pub @ [Count ''max_concurrent_rejects'']\<rparr>"
      have s2: "sys_step sv ?s1 ?s2"
        using sys_step.refused [OF same_library_refl ask i1, of n3] refused t by simp
      have s3: "sys_step sv ?s2 (?s2\<lparr>sy_n := n, sy_refused := sy_refused s, sy_results := res # sy_results s\<rparr>)"
        using released [of ?s2 "sy_refused s" sv] r by simp
      show ?thesis using two_steps [OF s1 s2 s3] r out by (cases s) simp
    qed
  qed
qed

lemma serve_all_runs:
  "serve_all sv qs (sy_n s, sy_d s) = (evs, n, d) \<Longrightarrow>
     \<exists>rs. runs_to sv s (s\<lparr>sy_n := n, sy_d := d, sy_log := sy_log s @ evs, sy_results := rs\<rparr>)"
proof (induction qs arbitrary: s evs)
  case Nil
  then have "s\<lparr>sy_n := n, sy_d := d, sy_log := sy_log s @ evs, sy_results := sy_results s\<rparr> = s" by simp
  then show ?case by (metis rtranclp.rtrancl_refl)
next
  case (Cons q qs)
  obtain res e1 n1 d1 where s: "serve sv q (sy_n s, sy_d s) = ((res, e1), n1, d1)" by (metis surj_pair)
  obtain e2 n2 d2 where r: "serve_all sv qs (n1, d1) = (e2, n2, d2)" by (metis surj_pair)
  let ?s1 = "s\<lparr>sy_n := n1, sy_d := d1, sy_log := sy_log s @ e1, sy_results := res # sy_results s\<rparr>"
  have "serve_all sv qs (sy_n ?s1, sy_d ?s1) = (e2, n, d)" and "evs = e1 @ e2" using Cons.prems s r by auto
  with Cons.IH [of ?s1 e2] serve_runs [OF s] show ?case by (auto intro: rtranclp_trans)
qed

section \<open>Answers from the cache\<close>

lemma arrive_hit:
  assumes "arrive sv q (n, d) = (Inl (res, evs), n', d')" and "Count ''cache_hits'' \<in> set evs"
  shows "\<exists>m. cached_reply sv (routed q n) q n = Some m
    \<and> (\<forall>w. Write w \<in> set evs \<longleftrightarrow> w = m\<lparr>m_id := m_id (rq_req (qu_state q))\<rparr>)"
  using assms(1)
proof (cases rule: arrive_cases)
  case own
  then have d: "serve_discovery sv (rq_req (qu_state q)) = (res, evs)" by simp
  from serve_discovery_events [OF d assms(2)] show ?thesis by simp
next
  case (other pre b)
  then have "Count ''cache_hits'' \<notin> set evs"
    by (auto dest!: call_next_events quiet_not_in [where e = "Count ''cache_hits''"])
  with assms(2) show ?thesis by simp
next
  case (hit pre b m)
  have "Write w \<notin> set pre" for w using quiet_not_in' [OF hit(5)] by simp
  with hit show ?thesis by (auto simp: reply_def)
qed simp_all

lemma serve_hit_arrives:
  assumes "serve sv q (n, d) = ((res, evs), n', d')" and "Count ''cache_hits'' \<in> set evs"
  shows "arrive sv q (n, d) = (Inl (res, evs), n', d')"
proof -
  obtain r n1 d1 where a: "arrive sv q (n, d) = (r, n1, d1)" by (metis surj_pair)
  show ?thesis
  proof (cases r)
    case (Inl x)
    with a assms(1) show ?thesis by (simp add: serve_def)
  next
    case (Inr x)
    then show ?thesis using a serve_hit [OF assms]
      by (cases rule: arrive_cases [OF a]) auto
  qed
qed

section \<open>What holds of every run\<close>

lemma slots_inv_runs:
  assumes "runs_to sv (booted n d) s" and "n_concurrent n = 0"
  shows "slots_inv (n_maxConcurrent n) s"
  by (rule runs_keep [OF assms(1) _ slots_inv_step]) (simp add: slots_inv_def booted_def assms(2))

lemma profiles_inv_runs:
  assumes "runs_to sv (booted n d) s" and "routing_ok (routing.truncate n)" and "dh_endpoints (n_client n) \<noteq> []"
  shows "profiles_inv s"
  by (rule runs_keep [OF assms(1) _ profiles_inv_step]) (simp add: profiles_inv_def booted_def assms(2,3))

lemma cache_inv_runs:
  assumes "runs_to sv (booted n d) s" and "n_cache n = Some mc"
  shows "cache_inv sv mc s"
  by (rule runs_keep [OF assms(1) _ cache_inv_step]) (simp_all add: cache_inv_def booted_def assms(2))

lemma no_cache_step: "sys_step sv s s' \<Longrightarrow> n_cache (sy_n s) = None \<Longrightarrow> n_cache (sy_n s') = None"
  by (erule sys_stepE) (auto simp: take_slot_simps give_slot_def dest: arrive_frame serve_upstream_no_cache)

lemma no_cache_runs:
  assumes "runs_to sv (booted n d) s" and "n_cache n = None"
  shows "n_cache (sy_n s) = None"
  by (rule runs_keep [OF assms(1) _ no_cache_step]) (simp_all add: booted_def assms(2))

text \<open>The cache holds nothing but the logged insertions, so a hit is one of those.\<close>

lemma hit_is_logged:
  assumes "cache_inv sv mc s" and "cache_ok mc" and "\<forall>p i m t. \<not> held mc p i m t" and "same_library sv sv'"
    and "cached_reply sv' p q (sy_n s) = Some m'"
  shows "\<exists>v t st m. Put v t p st m \<in> set (sy_log s) \<and> Upstream p \<in> set (sy_log s) \<and> sv_match sv st m
    \<and> identity st = identity (qu_state q) \<and> \<not> t < confChangedAt (n_client (sy_n s)) p
    \<and> served_as (qu_state q) m m'"
proof -
  have "hit_msg (cache_get (sv_sum64 sv) (qu_now q) (confChangedAt (n_client (sy_n s)) p) p (qu_state q)
      (offers_of sv (sy_log s) mc)) = Some m'"
    using assms(1,4,5) by (simp add: cached_reply_def cache_inv_def same_library_def)
  from mcache.lookup_offers [OF assms(2) _ this] assms(3)
  obtain m t where "mcache.offered (puts_of (sy_log s)) p (identity (qu_state q)) m t"
    and "\<not> t < confChangedAt (n_client (sy_n s)) p" and "served_as (qu_state q) m m'"
    by blast
  moreover from this(1) obtain v st where "Put v t p st m \<in> set (sy_log s)" and "identity st = identity (qu_state q)"
    by (auto simp: mcache.offered_def puts_of_iff)
  ultimately show ?thesis using assms(1) unfolding cache_inv_def by blast
qed

section \<open>Properties\<close>

text \<open>
  Property C2. Answers never leak between profiles, however queries, refreshes, dials and
  reverse lookups interleave and whatever the network answers: an answer served from the cache
  is a reply NextDNS gave earlier, under the very profile this query is routed to, to a query
  with the same name, type, class and flags, stored no earlier than the profile's configuration
  last changed; only its lifetimes, its question's spelling and its ID are rewritten.
\<close>

theorem interleaved_answers_never_leak:
  assumes "n_cache n0 = Some mc" and "cache_ok mc" and "\<forall>p i m t. \<not> held mc p i m t"
    and "runs_to sv (booted n0 d0) s" and "same_library sv sv'"
    and "arrive sv' q (sy_n s, sy_d s) = (Inl (res, evs), n, d)"
    and "Count ''cache_hits'' \<in> set evs" and "Write w \<in> set evs"
  shows "\<exists>v t st m m'. Put v t (routed q (sy_n s)) st m \<in> set (sy_log s) \<and> Upstream (routed q (sy_n s)) \<in> set (sy_log s)
    \<and> sv_match sv st m \<and> identity st = identity (qu_state q)
    \<and> \<not> t < confChangedAt (n_client (sy_n s)) (routed q (sy_n s))
    \<and> served_as (qu_state q) m m' \<and> w = m'\<lparr>m_id := m_id (rq_req (qu_state q))\<rparr>"
proof -
  obtain m' where c: "cached_reply sv' (routed q (sy_n s)) q (sy_n s) = Some m'"
    and w: "w = m'\<lparr>m_id := m_id (rq_req (qu_state q))\<rparr>"
    using arrive_hit [OF assms(6,7)] assms(8) by blast
  from hit_is_logged [OF cache_inv_runs [OF assms(4,1)] assms(2,3,5) c] w show ?thesis by blast
qed

lemma sample_run:
  obtains s q res evs n d w where "runs_to sample_services (booted (sample_instance (Some example_cache)) cold) s"
    and "arrive sample_services sample_asked (sy_n s, sy_d s) = (Inl (res, evs), n, d)"
    and "Count ''cache_hits'' \<in> set evs" and "Write w \<in> set evs" and "routed sample_asked (sy_n s) = ''abc123''"
proof -
  obtain evs n d res evs' n' d' w where
    all: "serve_all sample_services [sample_asked] (sample_instance (Some example_cache), cold) = (evs, n, d)"
    and s: "serve sample_services sample_asked (n, d) = ((res, evs'), n', d')"
    and hit: "Count ''cache_hits'' \<in> set evs'" "Write w \<in> set evs'" and r: "routed sample_asked n = ''abc123''"
    by (rule sample_warm)
  let ?start = "booted (sample_instance (Some example_cache)) cold"
  have "serve_all sample_services [sample_asked] (sy_n ?start, sy_d ?start) = (evs, n, d)" using all by (simp add: booted_def)
  from serve_all_runs [OF this] obtain rs where
    run: "runs_to sample_services ?start (?start\<lparr>sy_n := n, sy_d := d, sy_log := sy_log ?start @ evs, sy_results := rs\<rparr>)" ..
  show ?thesis by (rule that [OF run _ hit]) (use serve_hit_arrives [OF s hit(1)] r in simp_all)
qed

theorem interleaved_answers_never_leak_witness:
  "\<exists>s res evs n d. runs_to sample_services (booted (sample_instance (Some example_cache)) cold) s \<and>
     arrive sample_services sample_asked (sy_n s, sy_d s) = (Inl (res, evs), n, d) \<and> Count ''cache_hits'' \<in> set evs \<and>
     (\<exists>v t st m. Put v t ''abc123'' st m \<in> set (sy_log s) \<and> identity st = identity example_query)"
proof -
  obtain s q res evs n d w where run: "runs_to sample_services (booted (sample_instance (Some example_cache)) cold) s"
    and a: "arrive sample_services sample_asked (sy_n s, sy_d s) = (Inl (res, evs), n, d)"
    and hit: "Count ''cache_hits'' \<in> set evs" "Write w \<in> set evs" and r: "routed sample_asked (sy_n s) = ''abc123''"
    by (rule sample_run)
  have c0: "n_cache (sample_instance (Some example_cache)) = Some example_cache" by (simp add: sample_instance_def)
  have empty: "\<forall>p i m t. \<not> held example_cache p i m t" using held_configured by (simp add: example_cache_def)
  have "qu_state sample_asked = example_query" by (simp add: sample_asked_def)
  with interleaved_answers_never_leak [OF c0 example_cache_ok empty run same_library_refl a hit] run a hit(1) r
  show ?thesis by metis
qed

text \<open>
  For queries served one after the other: answers never leak, through any sequence of queries from an
  empty cache: an answer served from the cache is a reply NextDNS gave earlier, under the
  very profile this query is routed to, to a query with the same name, type, class and
  flags, not before the profile's configuration last changed; only its lifetimes, its
  question's spelling and its ID are rewritten.
\<close>

theorem cached_answers_never_leak:
  assumes "n_cache n0 = Some mc" and "cache_ok mc" and "\<And>p i m t. \<not> held mc p i m t"
    and "serve_all sv qs (n0, d0) = (evs, n, d)"
    and "serve sv q (n, d) = ((res, evs'), n', d')"
    and "Count ''cache_hits'' \<in> set evs'" and "Write w \<in> set evs'"
  shows "\<exists>v t st m m'. Put v t (routed q n) st m \<in> set evs \<and> Upstream (routed q n) \<in> set evs \<and> sv_match sv st m
    \<and> identity st = identity (qu_state q) \<and> \<not> t < confChangedAt (n_client n) (routed q n)
    \<and> served_as (qu_state q) m m' \<and> w = m'\<lparr>m_id := m_id (rq_req (qu_state q))\<rparr>"
proof -
  let ?b = "booted n0 d0"
  have "serve_all sv qs (sy_n ?b, sy_d ?b) = (evs, n, d)" using assms(4) by (simp add: booted_def)
  from serve_all_runs [OF this] obtain rs where
    run: "runs_to sv ?b (?b\<lparr>sy_n := n, sy_d := d, sy_log := sy_log ?b @ evs, sy_results := rs\<rparr>)" ..
  obtain m' where c: "cached_reply sv (routed q n) q n = Some m'"
    and w: "w = m'\<lparr>m_id := m_id (rq_req (qu_state q))\<rparr>"
    using serve_hit [OF assms(5,6)] assms(7) by blast
  have "\<exists>v t st m. Put v t (routed q n) st m \<in> set evs \<and> Upstream (routed q n) \<in> set evs \<and> sv_match sv st m
    \<and> identity st = identity (qu_state q) \<and> \<not> t < confChangedAt (n_client n) (routed q n) \<and> served_as (qu_state q) m m'"
    using hit_is_logged [OF cache_inv_runs [OF run assms(1)] assms(2) _ same_library_refl, of "routed q n" q m'] assms(3) c
    by (simp add: booted_def)
  with w show ?thesis by blast
qed

theorem cached_answers_never_leak_witness:
  "\<exists>evs n d res evs' n' d'.
     serve_all sample_services [sample_asked] (sample_instance (Some example_cache), cold) = (evs, n, d) \<and>
     serve sample_services sample_asked (n, d) = ((res, evs'), n', d') \<and> Count ''cache_hits'' \<in> set evs' \<and>
     (\<exists>v t st m. Put v t ''abc123'' st m \<in> set evs \<and> identity st = identity example_query)"
proof -
  have c0: "n_cache (sample_instance (Some example_cache)) = Some example_cache" by (simp add: sample_instance_def)
  obtain evs n d res evs' n' d' w where
    all: "serve_all sample_services [sample_asked] (sample_instance (Some example_cache), cold) = (evs, n, d)"
    and s: "serve sample_services sample_asked (n, d) = ((res, evs'), n', d')"
    and hit: "Count ''cache_hits'' \<in> set evs'" "Write w \<in> set evs'" and r: "routed sample_asked n = ''abc123''"
    by (rule sample_warm)
  have "\<exists>v t st m. Put v t (routed sample_asked n) st m \<in> set evs \<and> identity st = identity (qu_state sample_asked)"
    using cached_answers_never_leak [OF c0 example_cache_ok _ all s hit] held_configured
    by (auto simp: example_cache_def)
  then show ?thesis using all s hit(1) r by (auto simp: sample_asked_def)
qed

text \<open>
  Property C7. However the steps interleave, at most \<open>max_concurrent\<close> queries are upstream at a
  time and the counter is exactly the counts that are held; every query goes upstream under a
  well-formed profile; and no query ends in the dereference of a missing reply.
\<close>

theorem running_system_is_bounded:
  assumes "routing_ok (routing.truncate n0)" and "dh_endpoints (n_client n0) \<noteq> []" and "n_concurrent n0 = 0"
    and "runs_to sv (booted n0 d0) s"
  shows "(0 < n_maxConcurrent n0 \<longrightarrow> int (length (sy_upstream s)) \<le> n_maxConcurrent n0 \<and>
      n_concurrent (sy_n s) = int (length (sy_upstream s)) + int (sy_refused s)) \<and>
    (\<forall>p. Upstream p \<in> set (sy_log s) \<longrightarrow> profile_ok p) \<and> (\<forall>rc. (rc, Some NilDereference) \<notin> set (sy_results s))"
  using slots_inv_runs [OF assms(4,3)] profiles_inv_runs [OF assms(4,1,2)]
  by (auto simp: slots_inv_def profiles_inv_def)

lemma sample_start:
  "routing_ok (routing.truncate (sample_instance c))" "dh_endpoints (n_client (sample_instance c)) \<noteq> []"
  "n_concurrent (sample_instance c) = 0" "0 < n_maxConcurrent (sample_instance c)"
  using sample_config [of c] by (simp_all add: sample_instance_def sample_client_def)

theorem running_system_is_bounded_witness:
  "\<exists>s. runs_to sample_services (booted (sample_instance (Some example_cache)) cold) s \<and>
     int (length (sy_upstream s)) \<le> 1 \<and> (\<forall>p. Upstream p \<in> set (sy_log s) \<longrightarrow> profile_ok p)"
proof -
  obtain s q res evs n d w where run: "runs_to sample_services (booted (sample_instance (Some example_cache)) cold) s"
    by (rule sample_run)
  have "n_maxConcurrent (sample_instance (Some example_cache)) = 1" by (simp add: sample_instance_def)
  with running_system_is_bounded [OF sample_start(1-3) run] run show ?thesis by auto
qed

text \<open>
  \<open>ServeDNS\<close> called for one query at a time is one of the interleavings: its result
  and events, and the states it leaves, are those of a run of the system.
\<close>

theorem serving_alone_is_a_run:
  assumes "serve sv q (sy_n s, sy_d s) = ((res, evs), n, d)"
  shows "runs_to sv s (s\<lparr>sy_n := n, sy_d := d, sy_log := sy_log s @ evs, sy_results := res # sy_results s\<rparr>)"
  by (rule serve_runs [OF assms])

theorem serving_alone_is_a_run_witness:
  "\<exists>s. runs_to sample_services (booted (sample_instance None) cold) s \<and> length (sy_results s) = 1"
proof -
  let ?s = "booted (sample_instance None) cold"
  obtain res evs n d where s: "serve sample_services sample_asked (sy_n ?s, sy_d ?s) = ((res, evs), n, d)"
    by (metis surj_pair)
  show ?thesis
    by (rule exI, rule conjI, rule serving_alone_is_a_run [OF s]) (simp add: booted_def)
qed

end
