(* ===== verification/Options.thy ===== *)
theory Options
  imports Handler
begin

text \<open>
  The options of \<open>setup.go\<close>: the values they take, the state of \<open>parseNextDNS\<close>, and a setter per
  case of its \<open>switch\<close>. The property names form a table that gives each one the way it reads its
  arguments and what it does with them. \<open>time.ParseDuration\<close> is modelled except for the
  floating-point product of a fraction and its unit, which is a parameter, as are
  \<open>parse.HostPort\<close> of CoreDNS and \<open>url.Parse\<close>. The lemmas say which properties of the state the
  options keep, which part of it each may change, and that lines of different properties
  commute.
\<close>

section \<open>Durations\<close>

fun leadingInt :: "int \<Rightarrow> string \<Rightarrow> (int \<times> string) option" where
  "leadingInt x [] = Some (x, [])"
| "leadingInt x (c # s) =
     (if \<not> is_digit c then Some (x, c # s)
      else if 2 ^ 63 div 10 < x then None
      else let x = x * 10 + (ord c - 48) in if 2 ^ 63 < x then None else leadingInt x s)"

text \<open>The fraction, its number of digits, and the rest; digits that do not fit are dropped.\<close>

fun leadingFraction :: "bool \<Rightarrow> int \<Rightarrow> nat \<Rightarrow> string \<Rightarrow> int \<times> nat \<times> string" where
  "leadingFraction over x k [] = (x, k, [])"
| "leadingFraction over x k (c # s) =
     (if \<not> is_digit c then (x, k, c # s)
      else if over \<or> (2 ^ 63 - 1) div 10 < x \<or> 2 ^ 63 < x * 10 + (ord c - 48)
        then leadingFraction True x k s
      else leadingFraction False (x * 10 + (ord c - 48)) (Suc k) s)"

definition unitMap :: "(string \<times> int) list" where
  "unitMap = [(''ns'', 1), (''us'', 1000), ([CHR 0xC2, CHR 0xB5, CHR ''s''], 1000),
     ([CHR 0xCE, CHR 0xBC, CHR ''s''], 1000), (''ms'', millisecond), (''s'', second),
     (''m'', minute), (''h'', 60 * minute)]"

definition unit_char :: "char \<Rightarrow> bool" where
  "unit_char c \<longleftrightarrow> \<not> (c = CHR ''.'' \<or> is_digit c)"

text \<open>
  A number in its unit, in nanoseconds. \<open>frac f u k\<close> is \<open>uint64(float64(f) * (float64(u) / 10^k))\<close>.
\<close>

definition in_unit :: "(int \<Rightarrow> int \<Rightarrow> nat \<Rightarrow> u64) \<Rightarrow> int \<Rightarrow> int \<Rightarrow> nat \<Rightarrow> string \<Rightarrow> int option" where
  "in_unit frac v f k u =
     (case map_of unitMap u of
        None \<Rightarrow> None
      | Some unit \<Rightarrow>
          if 2 ^ 63 div unit < v then None
          else
            let v = v * unit; w = (if 0 < f then (v + uint (frac f unit k)) mod 2 ^ 64 else v)
            in if 2 ^ 63 < w then None else Some w)"

definition duration_item :: "(int \<Rightarrow> int \<Rightarrow> nat \<Rightarrow> u64) \<Rightarrow> string \<Rightarrow> (int \<times> string) option" where
  "duration_item frac s =
     (case leadingInt 0 s of
        None \<Rightarrow> None
      | Some (v, r) \<Rightarrow>
          let pre = (length r \<noteq> length s);
              dot = (r \<noteq> [] \<and> hd r = CHR ''.'');
              (f, k, r') = (if dot then leadingFraction False 0 0 (tl r) else (0, 0, r));
              post = (dot \<and> length r' \<noteq> length (tl r))
          in if \<not> pre \<and> \<not> post then None
             else map_option (\<lambda>w. (w, dropWhile unit_char r')) (in_unit frac v f k (takeWhile unit_char r')))"

lemma leadingInt_length: "leadingInt x s = Some (v, r) \<Longrightarrow> length r \<le> length s"
  by (induction x s rule: leadingInt.induct) (auto simp: Let_def split: if_splits)

lemma leadingFraction_length: "leadingFraction b x k s = (f, k', r) \<Longrightarrow> length r \<le> length s"
  by (induction b x k s rule: leadingFraction.induct) (auto split: if_splits)

lemma unitMap_nonempty: "map_of unitMap u = Some n \<Longrightarrow> u \<noteq> []"
  by (auto simp: unitMap_def split: if_splits)

lemma length_dropWhile_less: "takeWhile P xs \<noteq> [] \<Longrightarrow> length (dropWhile P xs) < length xs"
  by (cases xs) (auto simp: le_imp_less_Suc length_dropWhile_le split: if_splits)

lemma in_unit_nonempty: "in_unit frac v f k u = Some w \<Longrightarrow> u \<noteq> []"
  using unitMap_nonempty by (auto simp: in_unit_def split: option.splits)

lemma duration_item_length:
  assumes "duration_item frac s = Some (v, r)"
  shows "length r < length s"
proof -
  obtain v1 r1 where l: "leadingInt 0 s = Some (v1, r1)"
    using assms by (auto simp: duration_item_def split: option.splits)
  let ?dot = "r1 \<noteq> [] \<and> hd r1 = CHR ''.''"
  obtain f k r2 where f: "(if ?dot then leadingFraction False 0 0 (tl r1) else (0, 0, r1)) = (f, k, r2)"
    by (metis surj_pair)
  have "length r2 \<le> length r1"
    using f leadingFraction_length [of False 0 0 "tl r1" f k r2] by (auto split: if_splits)
  then have "length r2 \<le> length s" using leadingInt_length [OF l] by simp
  moreover obtain w where "in_unit frac v1 f k (takeWhile unit_char r2) = Some w" and "r = dropWhile unit_char r2"
    using assms unfolding duration_item_def l option.case prod.case Let_def f by (auto split: if_splits)
  ultimately show ?thesis
    using length_dropWhile_less [of unit_char r2] in_unit_nonempty by fastforce
qed

function duration_loop :: "(int \<Rightarrow> int \<Rightarrow> nat \<Rightarrow> u64) \<Rightarrow> int \<Rightarrow> string \<Rightarrow> int option" where
  "duration_loop frac d s =
     (if s = [] then Some d
      else case duration_item frac s of
          None \<Rightarrow> None
        | Some (v, r) \<Rightarrow>
            let d = (d + v) mod 2 ^ 64 in if 2 ^ 63 < d then None else duration_loop frac d r)"
  by pat_completeness auto
termination
  by (relation "measure (\<lambda>(frac, d, s). length s)") (auto dest: duration_item_length)

declare duration_loop.simps [simp del]

definition ParseDuration :: "(int \<Rightarrow> int \<Rightarrow> nat \<Rightarrow> u64) \<Rightarrow> string \<Rightarrow> duration option" where
  "ParseDuration frac s =
     (let neg = (s \<noteq> [] \<and> hd s = CHR ''-'');
          r = (if s \<noteq> [] \<and> (hd s = CHR ''-'' \<or> hd s = CHR ''+'') then tl s else s)
      in if r = ''0'' then Some 0
         else if r = [] then None
         else case duration_loop frac 0 r of
             None \<Rightarrow> None
           | Some d \<Rightarrow> if neg then Some (wrap64 (- d)) else if 2 ^ 63 - 1 < d then None else Some d)"

lemma duration_loop_range:
  "0 \<le> d \<Longrightarrow> d \<le> 2 ^ 63 \<Longrightarrow> duration_loop frac d s = Some x \<Longrightarrow> 0 \<le> x \<and> x \<le> 2 ^ 63"
proof (induction frac d s arbitrary: x rule: duration_loop.induct)
  case (1 frac d s)
  show ?case
  proof (cases "s = []")
    case True
    then show ?thesis using 1(2-4) by (simp add: duration_loop.simps [of frac d "[]"])
  next
    case False
    then obtain v r where i: "duration_item frac s = Some (v, r)"
      using 1(4) by (auto simp: duration_loop.simps [of frac d s] split: option.splits)
    let ?d = "(d + v) mod 2 ^ 64"
    have s: "(if 2 ^ 63 < ?d then None else duration_loop frac ?d r) = Some x"
      using 1(4) unfolding duration_loop.simps [of frac d s] i option.case prod.case Let_def if_not_P [OF False] .
    then have le: "\<not> 2 ^ 63 < ?d" by (metis option.distinct(1))
    with s have r: "duration_loop frac ?d r = Some x" by (metis (full_types))
    have "0 \<le> ?d" by (rule pos_mod_sign) simp
    then show ?thesis by (rule 1(1) [OF False i refl refl le _ leI [OF le] r])
  qed
qed

lemma ParseDuration_int64:
  assumes "ParseDuration frac s = Some d"
  shows "int64 d"
proof -
  define r where "r = (if s \<noteq> [] \<and> (hd s = CHR ''-'' \<or> hd s = CHR ''+'') then tl s else s)"
  show ?thesis
  proof (cases "r = ''0''")
    case True
    then show ?thesis using assms by (simp add: ParseDuration_def Let_def r_def [symmetric] int64_def)
  next
    case False
    then obtain x where x: "duration_loop frac 0 r = Some x"
      and d: "d = (if s \<noteq> [] \<and> hd s = CHR ''-'' then wrap64 (- x) else x)"
      and le: "s \<noteq> [] \<and> hd s = CHR ''-'' \<or> \<not> 2 ^ 63 - 1 < x"
      using assms by (simp add: ParseDuration_def Let_def r_def [symmetric] split: if_splits option.splits)
    have "0 \<le> x" using duration_loop_range [OF _ _ x] by simp
    then show ?thesis using le by (auto simp: d int64_wrap64) (auto simp: int64_def)
  qed
qed
section \<open>The state of the parser\<close>

datatype setup_error =
    ArgErr | OnlyOnce | NoProfile | RouteError route_error | Usage string | BadCapacity string
  | BadLifetime string | LifetimeOrder | ModeError mode_error | BadBool string
  | BadDeviceAddress string | SourceError source_error | BadResolver string string
  | BadDuration string | NotPositive string | CannotBeNegative string | BadNumber string
  | UnknownProperty string | LifetimesNeedCache | ReloadNeedsSource | DiscoveryNeeded
  | EndpointError endpoint_error | MACNeedsSource

datatype resolver = Internal | External "string list"

record environment =
  en_fraction :: "int \<Rightarrow> int \<Rightarrow> nat \<Rightarrow> u64"
  en_HostPort :: "string \<Rightarrow> string \<Rightarrow> string + string"
  en_url_parse :: "string \<Rightarrow> string + url"

text \<open>The variables of \<open>parseNextDNS\<close>, and the fields of the instance it fills in.\<close>

record parsing =
  o_profile :: string
  o_viewProfiles :: "(string, string) gomap"
  o_clientProfiles :: "clientProfile list"
  o_devices :: deviceDB
  o_discovery :: "(discoverer \<times> resolver) option"
  o_maxConcurrent :: int
  o_endpoints :: "string list"
  o_bootstrap :: "string list"
  o_tlsServerName :: string
  o_timeout :: duration
  o_maxIdleConns :: int
  o_cacheOn :: bool
  o_cacheTTLOn :: bool
  o_cacheCap :: int
  o_cacheMin :: duration
  o_cacheMax :: duration
  o_discoveryTTL :: "duration option"
  o_discoveryRetry :: "duration option"
  o_discoveryTimeout :: "duration option"
  o_discoveryWait :: "duration option"
  o_discoveryMax :: "int option"
  o_reloadOn :: bool

text \<open>\<open>New\<close>, and the variables' initial values.\<close>

definition parse_start :: parsing where
  "parse_start =
     \<lparr>o_profile = [], o_viewProfiles = [], o_clientProfiles = [], o_devices = newDeviceDB,
      o_discovery = None, o_maxConcurrent = 0, o_endpoints = [], o_bootstrap = [],
      o_tlsServerName = [], o_timeout = defaultTimeout, o_maxIdleConns = 0, o_cacheOn = False,
      o_cacheTTLOn = False, o_cacheCap = 0, o_cacheMin = defaultCacheMinTTL,
      o_cacheMax = defaultCacheMaxTTL, o_discoveryTTL = None, o_discoveryRetry = None,
      o_discoveryTimeout = None, o_discoveryWait = None, o_discoveryMax = None, o_reloadOn = False\<rparr>"

section \<open>Values\<close>

text \<open>\<open>parseDuration\<close> and \<open>parsePositiveInt\<close> on the argument they read.\<close>

definition parseDuration :: "environment \<Rightarrow> string \<Rightarrow> setup_error + duration" where
  "parseDuration env s =
     (case ParseDuration (en_fraction env) s of None \<Rightarrow> Inl (BadDuration s) | Some d \<Rightarrow> Inr d)"

definition parsePositiveInt :: "string \<Rightarrow> setup_error + int" where
  "parsePositiveInt s =
     (case Atoi s of None \<Rightarrow> Inl (BadNumber s) | Some v \<Rightarrow> if v \<le> 0 then Inl (BadNumber s) else Inr v)"

definition positiveDuration :: "environment \<Rightarrow> string \<Rightarrow> string \<Rightarrow> setup_error + duration" where
  "positiveDuration env name s =
     (case parseDuration env s of
        Inl e \<Rightarrow> Inl e | Inr d \<Rightarrow> if d \<le> 0 then Inl (NotPositive name) else Inr d)"

section \<open>The options\<close>

text \<open>
  What each property does with its argument, or with all the arguments of its line. A setter
  that takes one value is the case's body after \<open>NextArg\<close>.
\<close>

type_synonym 'a setter = "'a \<Rightarrow> parsing \<Rightarrow> setup_error + parsing"

definition set_profile :: "string setter" where
  "set_profile v st =
     (case validProfile v of Some e \<Rightarrow> Inl (RouteError e) | None \<Rightarrow> Inr (st\<lparr>o_profile := v\<rparr>))"

definition set_view_profile :: "string list setter" where
  "set_view_profile args st =
     (if length args \<noteq> 2 then Inl (Usage ''view_profile'')
      else case validRoute (args ! 1) of
          Some e \<Rightarrow> Inl (RouteError e)
        | None \<Rightarrow> Inr (o_viewProfiles_update (AList.update (args ! 0) (args ! 1)) st))"

definition set_client_profile :: "string list setter" where
  "set_client_profile args st =
     (if length args \<noteq> 2 then Inl (Usage ''client_profile'')
      else case parsePrefix (args ! 0) of
          Inl e \<Rightarrow> Inl (RouteError e)
        | Inr prefix \<Rightarrow>
            (case validRoute (args ! 1) of
               Some e \<Rightarrow> Inl (RouteError e)
             | None \<Rightarrow> Inr (o_clientProfiles_update
                 (\<lambda>cps. cps @ [\<lparr>cp_prefix = prefix, cp_profile = args ! 1\<rparr>]) st)))"

definition set_endpoint :: "string list setter" where
  "set_endpoint args st =
     (if length args = 0 then Inl ArgErr else Inr (o_endpoints_update (\<lambda>es. es @ args) st))"

definition set_bootstrap :: "string list setter" where
  "set_bootstrap args st =
     (if length args = 0 then Inl ArgErr else Inr (o_bootstrap_update (\<lambda>bs. bs @ args) st))"

definition set_tls_servername :: "string setter" where
  "set_tls_servername v st = Inr (st\<lparr>o_tlsServerName := v\<rparr>)"

definition set_timeout :: "environment \<Rightarrow> string setter" where
  "set_timeout env v st =
     (case parseDuration env v of Inl e \<Rightarrow> Inl e | Inr d \<Rightarrow> Inr (st\<lparr>o_timeout := d\<rparr>))"

definition set_max_idle_conns :: "string setter" where
  "set_max_idle_conns v st =
     (case parsePositiveInt v of Inl e \<Rightarrow> Inl e | Inr i \<Rightarrow> Inr (st\<lparr>o_maxIdleConns := i\<rparr>))"

definition set_max_concurrent :: "string setter" where
  "set_max_concurrent v st =
     (case parsePositiveInt v of Inl e \<Rightarrow> Inl e | Inr i \<Rightarrow> Inr (st\<lparr>o_maxConcurrent := i\<rparr>))"

definition set_cache :: "string list setter" where
  "set_cache args st =
     (let st = st\<lparr>o_cacheOn := True\<rparr> in
      if length args = 1 then
        (case Atoi (args ! 0) of
           None \<Rightarrow> Inl (BadCapacity (args ! 0))
         | Some v \<Rightarrow> if v \<le> 0 then Inl (BadCapacity (args ! 0)) else Inr (st\<lparr>o_cacheCap := v\<rparr>))
      else if 1 < length args then Inl ArgErr
      else Inr st)"

definition set_cache_ttl :: "environment \<Rightarrow> string list setter" where
  "set_cache_ttl env args st =
     (if length args \<noteq> 2 then Inl (Usage ''cache_ttl'')
      else case ParseDuration (en_fraction env) (args ! 0) of
          None \<Rightarrow> Inl (BadLifetime (args ! 0))
        | Some lo \<Rightarrow>
            (case ParseDuration (en_fraction env) (args ! 1) of
               None \<Rightarrow> Inl (BadLifetime (args ! 1))
             | Some hi \<Rightarrow>
                 if lo < 0 \<or> hi < lo then Inl LifetimeOrder
                 else Inr (st\<lparr>o_cacheMin := lo, o_cacheMax := hi, o_cacheTTLOn := True\<rparr>)))"

definition set_device_id :: "string setter" where
  "set_device_id v st =
     (case parseIDMode v of
        Inl e \<Rightarrow> Inl (ModeError e) | Inr mode \<Rightarrow> Inr (o_devices_update (db_mode_update (\<lambda>_. mode)) st))"

definition set_device_model :: "string list setter" where
  "set_device_model args st =
     (if length args \<noteq> 1 then Inl (Usage ''device_model'')
      else case validDeviceModel (args ! 0) of
          Some e \<Rightarrow> Inl (RouteError e)
        | None \<Rightarrow> Inr (o_devices_update (db_model_update (\<lambda>_. args ! 0)) st))"

definition set_device_ip :: "string list setter" where
  "set_device_ip args st =
     (case args of
        [] \<Rightarrow> Inr (o_devices_update (db_sendIP_update (\<lambda>_. True)) st)
      | [a] \<Rightarrow>
          (case ParseBool a of
             None \<Rightarrow> Inl (BadBool a) | Some v \<Rightarrow> Inr (o_devices_update (db_sendIP_update (\<lambda>_. v)) st))
      | _ \<Rightarrow> Inl ArgErr)"

definition set_device_name :: "string list setter" where
  "set_device_name args st =
     (if length args \<noteq> 2 then Inl (Usage ''device_name'')
      else case clientAddr (args ! 0) of
          None \<Rightarrow> Inl (BadDeviceAddress (args ! 0))
        | Some a \<Rightarrow> Inr (o_devices_update (db_static_update (AList.update a (args ! 1))) st))"

definition set_device_names :: "string list setter" where
  "set_device_names args st =
     (if length args \<noteq> 2 then Inl (Usage ''device_names'')
      else case newDeviceFile (args ! 0) (args ! 1) of
          Inl e \<Rightarrow> Inl (SourceError e)
        | Inr f \<Rightarrow> Inr (o_devices_update (db_files_update (\<lambda>fs. fs @ [f])) st))"

fun resolver_addrs :: "environment \<Rightarrow> string list \<Rightarrow> setup_error + string list" where
  "resolver_addrs env [] = Inr []"
| "resolver_addrs env (a # args) =
     (case en_HostPort env a ''53'' of
        Inl e \<Rightarrow> Inl (BadResolver a e)
      | Inr hp \<Rightarrow> (case resolver_addrs env args of Inl e \<Rightarrow> Inl e | Inr hps \<Rightarrow> Inr (hp # hps)))"

definition set_discovery :: "environment \<Rightarrow> string list setter" where
  "set_discovery env args st =
     (if length args = 0 then Inl (Usage ''discovery'')
      else
        let d = newDiscoverer in
        if length args = 1 \<and> args ! 0 = ''internal'' then Inr (st\<lparr>o_discovery := Some (d, Internal)\<rparr>)
        else case resolver_addrs env args of
            Inl e \<Rightarrow> Inl e
          | Inr hps \<Rightarrow> Inr (st\<lparr>o_discovery := Some (d, External hps)\<rparr>))"

definition set_discovery_ttl :: "environment \<Rightarrow> string setter" where
  "set_discovery_ttl env v st =
     (case positiveDuration env ''discovery_ttl'' v of
        Inl e \<Rightarrow> Inl e | Inr d \<Rightarrow> Inr (st\<lparr>o_discoveryTTL := Some d\<rparr>))"

definition set_discovery_retry :: "environment \<Rightarrow> string setter" where
  "set_discovery_retry env v st =
     (case positiveDuration env ''discovery_retry'' v of
        Inl e \<Rightarrow> Inl e | Inr d \<Rightarrow> Inr (st\<lparr>o_discoveryRetry := Some d\<rparr>))"

definition set_discovery_wait :: "environment \<Rightarrow> string setter" where
  "set_discovery_wait env v st =
     (case parseDuration env v of
        Inl e \<Rightarrow> Inl e
      | Inr d \<Rightarrow> if d < 0 then Inl (CannotBeNegative ''discovery_wait'')
          else Inr (st\<lparr>o_discoveryWait := Some d\<rparr>))"

definition set_discovery_timeout :: "environment \<Rightarrow> string setter" where
  "set_discovery_timeout env v st =
     (case positiveDuration env ''discovery_timeout'' v of
        Inl e \<Rightarrow> Inl e | Inr d \<Rightarrow> Inr (st\<lparr>o_discoveryTimeout := Some d\<rparr>))"

definition set_discovery_max :: "string setter" where
  "set_discovery_max v st =
     (case parsePositiveInt v of Inl e \<Rightarrow> Inl e | Inr i \<Rightarrow> Inr (st\<lparr>o_discoveryMax := Some i\<rparr>))"

definition set_arp :: "string list setter" where
  "set_arp args st =
     (let st = o_devices_update (db_useARP_update (\<lambda>_. True)) st in
      if length args = 1 then Inr (o_devices_update (db_arpPath_update (\<lambda>_. args ! 0)) st)
      else if 1 < length args then Inl ArgErr
      else Inr st)"

definition set_reload :: "environment \<Rightarrow> string setter" where
  "set_reload env v st =
     (case positiveDuration env ''reload'' v of
        Inl e \<Rightarrow> Inl e
      | Inr d \<Rightarrow> Inr (o_reloadOn_update (\<lambda>_. True) (o_devices_update (db_reload_update (\<lambda>_. d)) st)))"

text \<open>A tuned value, or the default.\<close>

definition tuned :: "'a option \<Rightarrow> 'a \<Rightarrow> 'a" where
  "tuned v d = (case v of None \<Rightarrow> d | Some x \<Rightarrow> x)"

section \<open>The table of properties\<close>

text \<open>The cases of the \<open>switch\<close>: one argument through \<open>NextArg\<close>, or all of the line's.\<close>

datatype rule = OneArg "string setter" | AllArgs "string list setter"

definition rules :: "environment \<Rightarrow> (string \<times> rule) list" where
  "rules env =
     [(''profile'', OneArg set_profile), (''view_profile'', AllArgs set_view_profile),
      (''client_profile'', AllArgs set_client_profile), (''endpoint'', AllArgs set_endpoint),
      (''bootstrap'', AllArgs set_bootstrap), (''tls_servername'', OneArg set_tls_servername),
      (''timeout'', OneArg (set_timeout env)), (''max_idle_conns'', OneArg set_max_idle_conns),
      (''max_concurrent'', OneArg set_max_concurrent), (''cache'', AllArgs set_cache),
      (''cache_ttl'', AllArgs (set_cache_ttl env)), (''device_id'', OneArg set_device_id),
      (''device_model'', AllArgs set_device_model), (''device_ip'', AllArgs set_device_ip),
      (''device_name'', AllArgs set_device_name), (''device_names'', AllArgs set_device_names),
      (''discovery'', AllArgs (set_discovery env)), (''discovery_ttl'', OneArg (set_discovery_ttl env)),
      (''discovery_retry'', OneArg (set_discovery_retry env)),
      (''discovery_wait'', OneArg (set_discovery_wait env)),
      (''discovery_timeout'', OneArg (set_discovery_timeout env)),
      (''discovery_max'', OneArg set_discovery_max), (''arp'', AllArgs set_arp),
      (''reload'', OneArg (set_reload env))]"

section \<open>What the options keep\<close>

named_theorems setters \<open>the definitions of the options\<close>

lemmas [setters] = set_profile_def set_view_profile_def set_client_profile_def set_endpoint_def
  set_bootstrap_def set_tls_servername_def set_timeout_def set_max_idle_conns_def
  set_max_concurrent_def set_cache_def set_cache_ttl_def set_device_id_def set_device_model_def
  set_device_ip_def set_device_name_def set_device_names_def set_discovery_def
  set_discovery_ttl_def set_discovery_retry_def set_discovery_wait_def set_discovery_timeout_def
  set_discovery_max_def set_arp_def set_reload_def

lemmas setter_splits = option.splits sum.splits if_splits list.splits

text \<open>A property of the parser's state that every case of the \<open>switch\<close> keeps.\<close>

definition rule_keeps :: "(parsing \<Rightarrow> bool) \<Rightarrow> rule \<Rightarrow> bool" where
  "rule_keeps P r =
     (case r of
        OneArg put \<Rightarrow> \<forall>v st st'. put v st = Inr st' \<longrightarrow> P st \<longrightarrow> P st'
      | AllArgs put \<Rightarrow> \<forall>args st st'. put args st = Inr st' \<longrightarrow> P st \<longrightarrow> P st')"

definition db_config_ok :: "deviceDB \<Rightarrow> bool" where
  "db_config_ok db \<longleftrightarrow> (db_model db = [] \<or> validDeviceModel (db_model db) = None) \<and> 0 < db_reload db
     \<and> wf_map (db_static db) \<and> db_learned db = [] \<and> db_bindings db = [] \<and> db_maxBindings db = maxBindings
     \<and> list_all (\<lambda>f. df_format f \<in> set supportedFormats) (db_files db)"

definition routes_ok :: "parsing \<Rightarrow> bool" where
  "routes_ok st \<longleftrightarrow> (o_profile st = [] \<or> profile_ok (o_profile st))
     \<and> list_all (\<lambda>p. validRoute (snd p) = None) (o_viewProfiles st)
     \<and> list_all (\<lambda>cp. validRoute (cp_profile cp) = None) (o_clientProfiles st)"

definition lifetimes_ok :: "parsing \<Rightarrow> bool" where
  "lifetimes_ok st \<longleftrightarrow> 0 \<le> o_cacheMin st \<and> o_cacheMin st \<le> o_cacheMax st \<and> int64 (o_cacheMax st)
     \<and> 0 \<le> o_maxConcurrent st"

definition positive :: "int option \<Rightarrow> bool" where
  "positive v \<longleftrightarrow> (case v of None \<Rightarrow> True | Some x \<Rightarrow> 0 < x)"

lemma positive_simps [simp]: "positive None" "positive (Some x) = (0 < x)"
  by (simp_all add: positive_def)

definition fresh_discovery :: "(discoverer \<times> resolver) option \<Rightarrow> bool" where
  "fresh_discovery d \<longleftrightarrow> (case d of None \<Rightarrow> True | Some (d, r) \<Rightarrow> d = newDiscoverer)"

lemma fresh_discovery_simps [simp]: "fresh_discovery None" "fresh_discovery (Some (d, r)) = (d = newDiscoverer)"
  by (simp_all add: fresh_discovery_def)

definition tuning_ok :: "parsing \<Rightarrow> bool" where
  "tuning_ok st \<longleftrightarrow> fresh_discovery (o_discovery st) \<and> positive (o_discoveryTTL st)
     \<and> positive (o_discoveryRetry st) \<and> positive (o_discoveryTimeout st)
     \<and> 0 \<le> tuned (o_discoveryWait st) 0 \<and> positive (o_discoveryMax st)"

lemma tuned_simps [simp]: "tuned None d = d" "tuned (Some x) d = x"
  by (simp_all add: tuned_def)

lemma update_values [simp]:
  "list_all (\<lambda>p. validRoute (snd p) = None) m \<Longrightarrow> validRoute x = None \<Longrightarrow>
    list_all (\<lambda>p. validRoute (snd p) = None) (AList.update k x m)"
  by (induction m) auto

lemma positiveDuration_pos: "positiveDuration env n s = Inr d \<Longrightarrow> 0 < d"
  by (auto simp: positiveDuration_def split: sum.splits if_splits)

lemma parsePositiveInt_pos: "parsePositiveInt s = Inr v \<Longrightarrow> 0 < v"
  by (auto simp: parsePositiveInt_def split: option.splits if_splits)

lemma newDeviceFile_format: "newDeviceFile a b = Inr f \<Longrightarrow> df_format f \<in> set supportedFormats"
  by (auto simp: newDeviceFile_def split: if_splits)

lemma set_cache_ttl_lifetimes:
  assumes "set_cache_ttl env args st = Inr st'" and "lifetimes_ok st"
  shows "lifetimes_ok st'"
proof -
  obtain lo hi where p: "ParseDuration (en_fraction env) (args ! 1) = Some hi" "\<not> (lo < 0 \<or> hi < lo)"
    and st': "st' = st\<lparr>o_cacheMin := lo, o_cacheMax := hi, o_cacheTTLOn := True\<rparr>"
    using assms(1) unfolding set_cache_ttl_def by (auto split: setter_splits)
  then show ?thesis using assms(2) ParseDuration_int64 [OF p(1)] by (simp add: lifetimes_ok_def)
qed

lemmas all_rules = rules_def rule_keeps_def list.pred_inject snd_conv rule.case

lemma rules_keep_routes: "list_all (\<lambda>p. rule_keeps routes_ok (snd p)) (rules env)"
  unfolding all_rules
  by (intro conjI allI impI TrueI)
    (auto simp: setters routes_ok_def validProfile_def Let_def split: setter_splits)

lemma rules_keep_lifetimes: "list_all (\<lambda>p. rule_keeps lifetimes_ok (snd p)) (rules env)"
  unfolding all_rules
  by (intro conjI allI impI TrueI; (erule (1) set_cache_ttl_lifetimes)?)
    (auto simp: setters lifetimes_ok_def parsePositiveInt_def Let_def split: setter_splits)

lemma rules_keep_tuning: "list_all (\<lambda>p. rule_keeps tuning_ok (snd p)) (rules env)"
  unfolding all_rules
  by (intro conjI allI impI TrueI)
    (auto simp: setters tuning_ok_def positiveDuration_def parsePositiveInt_def Let_def split: setter_splits)

lemma rules_keep_db: "list_all (\<lambda>p. rule_keeps (\<lambda>st. db_config_ok (o_devices st)) (snd p)) (rules env)"
  unfolding all_rules
  by (intro conjI allI impI TrueI)
    (auto simp: setters db_config_ok_def positiveDuration_def newDeviceFile_def Let_def split: setter_splits)

section \<open>The lines of a block\<close>

text \<open>
  A block as its lines, each a property and its arguments, and what they do one after the
  other.
\<close>

type_synonym line = "string \<times> string list"

definition run_line :: "environment \<Rightarrow> line \<Rightarrow> parsing \<Rightarrow> setup_error + parsing" where
  "run_line env l st =
     (case map_of (rules env) (fst l) of
        None \<Rightarrow> Inl (UnknownProperty (fst l))
      | Some (OneArg put) \<Rightarrow> if snd l = [] then Inl ArgErr else put (hd (snd l)) st
      | Some (AllArgs put) \<Rightarrow> put (snd l) st)"

fun run_lines :: "environment \<Rightarrow> line list \<Rightarrow> parsing \<Rightarrow> setup_error + parsing" where
  "run_lines env [] st = Inr st"
| "run_lines env (l # ls) st = (case run_line env l st of Inl e \<Rightarrow> Inl e | Inr st \<Rightarrow> run_lines env ls st)"

text \<open>
  What each property may change: a set of updates per case of the \<open>switch\<close>, in the order of
  the table.
\<close>

definition in_db :: "(('a \<Rightarrow> 'a) \<Rightarrow> deviceDB \<Rightarrow> deviceDB) \<Rightarrow> (parsing \<Rightarrow> parsing) set" where
  "in_db upd = range (\<lambda>f. o_devices_update (upd f))"

definition families :: "(string \<times> (parsing \<Rightarrow> parsing) set) list" where
  "families =
     [(''profile'', range o_profile_update), (''view_profile'', range o_viewProfiles_update),
      (''client_profile'', range o_clientProfiles_update), (''endpoint'', range o_endpoints_update),
      (''bootstrap'', range o_bootstrap_update), (''tls_servername'', range o_tlsServerName_update),
      (''timeout'', range o_timeout_update), (''max_idle_conns'', range o_maxIdleConns_update),
      (''max_concurrent'', range o_maxConcurrent_update),
      (''cache'', (\<lambda>(f, g). o_cacheCap_update f \<circ> o_cacheOn_update g) ` UNIV),
      (''cache_ttl'', (\<lambda>(f, g, h). o_cacheTTLOn_update f \<circ> o_cacheMax_update g \<circ> o_cacheMin_update h) ` UNIV),
      (''device_id'', in_db db_mode_update), (''device_model'', in_db db_model_update),
      (''device_ip'', in_db db_sendIP_update), (''device_name'', in_db db_static_update),
      (''device_names'', in_db db_files_update), (''discovery'', range o_discovery_update),
      (''discovery_ttl'', range o_discoveryTTL_update), (''discovery_retry'', range o_discoveryRetry_update),
      (''discovery_wait'', range o_discoveryWait_update),
      (''discovery_timeout'', range o_discoveryTimeout_update),
      (''discovery_max'', range o_discoveryMax_update),
      (''arp'', (\<lambda>(f, g). o_devices_update (db_arpPath_update f) \<circ> o_devices_update (db_useARP_update g)) ` UNIV),
      (''reload'', (\<lambda>(f, g). o_reloadOn_update f \<circ> o_devices_update (db_reload_update g)) ` UNIV)]"

definition commute :: "('a \<Rightarrow> 'a) set \<Rightarrow> ('a \<Rightarrow> 'a) set \<Rightarrow> bool" where
  "commute F G \<longleftrightarrow> (\<forall>u \<in> F. \<forall>v \<in> G. \<forall>st. u (v st) = v (u st))"

lemma commute_sym: "commute F G \<Longrightarrow> commute G F"
  by (simp add: commute_def)

lemma families_commute: "sorted_wrt (\<lambda>a b. commute (snd a) (snd b)) families"
  by (simp add: families_def commute_def in_db_def)

definition acts :: "(parsing \<Rightarrow> parsing) set \<Rightarrow> (parsing \<Rightarrow> setup_error + parsing) \<Rightarrow> bool" where
  "acts F p \<longleftrightarrow> (\<exists>e. \<forall>st. p st = Inl e) \<or> (\<exists>u \<in> F. \<forall>st. p st = Inr (u st))"

lemma acts_Inl [simp]: "acts F (\<lambda>st. Inl e)"
  by (simp add: acts_def)

lemma acts_Inr: "u \<in> F \<Longrightarrow> acts F (\<lambda>st. Inr (u st))"
  by (auto simp: acts_def)

definition rule_acts :: "(parsing \<Rightarrow> parsing) set \<Rightarrow> rule \<Rightarrow> bool" where
  "rule_acts F r = (case r of OneArg put \<Rightarrow> \<forall>v. acts F (put v) | AllArgs put \<Rightarrow> \<forall>args. acts F (put args))"

lemma acts_upd [simp]: "acts (range U) (\<lambda>st. Inr (U f st))"
  by (rule acts_Inr) simp

lemma acts_db [simp]: "acts (in_db U) (\<lambda>st. Inr (o_devices_update (U f) st))"
  by (rule acts_Inr) (simp add: in_db_def)

lemma acts_two [simp]: "acts ((\<lambda>(f, g). U f \<circ> V g) ` UNIV) (\<lambda>st. Inr (U f (V g st)))"
  using acts_Inr [of "U f \<circ> V g" "(\<lambda>(f, g). U f \<circ> V g) ` UNIV"] by force

lemma acts_snd:
  assumes "\<And>st. U id st = st"
  shows "acts ((\<lambda>(f, g). U f \<circ> V g) ` UNIV) (\<lambda>st. Inr (V g st))"
  using acts_two [of U V id g] by (simp add: assms)

lemma acts_three [simp]: "acts ((\<lambda>(f, g, h). U f \<circ> V g \<circ> W h) ` UNIV) (\<lambda>st. Inr (U f (V g (W h st))))"
proof -
  have "U f \<circ> V g \<circ> W h \<in> (\<lambda>(f, g, h). U f \<circ> V g \<circ> W h) ` UNIV"
    by (rule range_eqI [of _ _ "(f, g, h)"]) simp
  from acts_Inr [OF this] show ?thesis by simp
qed

lemmas setters_abs = set_profile_def [abs_def] set_view_profile_def [abs_def] set_client_profile_def [abs_def]
  set_endpoint_def [abs_def] set_bootstrap_def [abs_def] set_tls_servername_def [abs_def]
  set_timeout_def [abs_def] set_max_idle_conns_def [abs_def] set_max_concurrent_def [abs_def]
  set_cache_def [abs_def] set_cache_ttl_def [abs_def] set_device_id_def [abs_def]
  set_device_model_def [abs_def] set_device_ip_def [abs_def] set_device_name_def [abs_def]
  set_device_names_def [abs_def] set_discovery_def [abs_def] set_discovery_ttl_def [abs_def]
  set_discovery_retry_def [abs_def] set_discovery_wait_def [abs_def]
  set_discovery_timeout_def [abs_def] set_discovery_max_def [abs_def] set_arp_def [abs_def]
  set_reload_def [abs_def]

lemma acts_route:
  "acts (range o_profile_update) (set_profile v)"
  "acts (range o_viewProfiles_update) (set_view_profile args)"
  by (cases "validProfile v"; simp add: setters_abs)
    (cases "length args = 2"; cases "validRoute (args ! 1)"; simp add: setters_abs)

lemma acts_client_profile: "acts (range o_clientProfiles_update) (set_client_profile args)"
  by (cases "length args = 2"; cases "parsePrefix (args ! 0)"; cases "validRoute (args ! 1)"; simp add: setters_abs)

lemma acts_endpoints:
  "acts (range o_endpoints_update) (set_endpoint args)" "acts (range o_bootstrap_update) (set_bootstrap args)"
  "acts (range o_tlsServerName_update) (set_tls_servername v)"
  by (cases args; simp add: setters_abs)+

lemma acts_numbers:
  "acts (range o_timeout_update) (set_timeout env v)"
  "acts (range o_maxIdleConns_update) (set_max_idle_conns v)"
  "acts (range o_maxConcurrent_update) (set_max_concurrent v)"
  "acts (range o_discoveryMax_update) (set_discovery_max v)"
  by (cases "parseDuration env v"; simp add: setters_abs) (cases "parsePositiveInt v"; simp add: setters_abs)+

lemma o_ids [simp]:
  "o_cacheCap_update id st = st" "o_devices_update (db_arpPath_update id) st = st"
  by simp_all

lemma acts_cache:
  "acts ((\<lambda>(f, g). o_cacheCap_update f \<circ> o_cacheOn_update g) ` UNIV) (set_cache args)"
proof -
  consider "length args = 1" | "1 < length args" | "length args \<noteq> 1" "\<not> 1 < length args" by blast
  then show ?thesis
  proof cases
    case 1
    then show ?thesis
    proof (cases "Atoi (args ! 0)")
      case (Some v)
      with 1 show ?thesis by (cases "v \<le> 0") (simp_all add: setters_abs)
    qed (simp add: setters_abs)
  qed (simp_all add: setters_abs acts_snd)
qed

lemma acts_cache_ttl:
  "acts ((\<lambda>(f, g, h). o_cacheTTLOn_update f \<circ> o_cacheMax_update g \<circ> o_cacheMin_update h) ` UNIV) (set_cache_ttl env args)"
proof (cases "length args = 2 \<and> ParseDuration (en_fraction env) (args ! 0) \<noteq> None
    \<and> ParseDuration (en_fraction env) (args ! 1) \<noteq> None")
  case True
  then obtain lo hi where "ParseDuration (en_fraction env) (args ! 0) = Some lo"
    and "ParseDuration (en_fraction env) (args ! 1) = Some hi" and "length args = 2" by blast
  then show ?thesis by (cases "lo < 0 \<or> hi < lo") (simp_all add: setters_abs)
next
  case False
  then show ?thesis by (cases "length args = 2"; cases "ParseDuration (en_fraction env) (args ! 0)"; simp add: setters_abs)
qed

lemma acts_device_id: "acts (in_db db_mode_update) (set_device_id v)"
  by (cases "parseIDMode v"; simp add: setters_abs)

lemma acts_device_model: "acts (in_db db_model_update) (set_device_model args)"
  by (cases "length args = 1"; cases "validDeviceModel (args ! 0)"; simp add: setters_abs)

lemma acts_device_name: "acts (in_db db_static_update) (set_device_name args)"
  by (cases "length args = 2"; cases "clientAddr (args ! 0)"; simp add: setters_abs)

lemma acts_device_names: "acts (in_db db_files_update) (set_device_names args)"
  by (cases "length args = 2"; cases "newDeviceFile (args ! 0) (args ! 1)"; simp add: setters_abs)

lemma acts_device_ip: "acts (in_db db_sendIP_update) (set_device_ip args)"
proof (cases args rule: remdups_adj.cases)
  case (2 a)
  then show ?thesis by (cases "ParseBool a") (simp_all add: setters_abs)
qed (simp_all add: setters_abs)

lemma acts_discovery: "acts (range o_discovery_update) (set_discovery env args)"
proof (cases "args = [''internal'']")
  case True
  then show ?thesis by (simp add: setters_abs)
next
  case False
  then have "\<not> (length args = 1 \<and> args ! 0 = ''internal'')" by (auto simp: length_Suc_conv)
  then show ?thesis
    by (cases "length args = 0"; cases "resolver_addrs env args") (simp_all only: setters_abs Let_def if_True if_False
      sum.case acts_Inl acts_upd simp_thms)
qed

lemma acts_tuning:
  "acts (range o_discoveryTTL_update) (set_discovery_ttl env v)"
  "acts (range o_discoveryRetry_update) (set_discovery_retry env v)"
  "acts (range o_discoveryTimeout_update) (set_discovery_timeout env v)"
  by (cases "positiveDuration env ''discovery_ttl'' v"; cases "positiveDuration env ''discovery_retry'' v";
      cases "positiveDuration env ''discovery_timeout'' v"; simp add: setters_abs)+

lemma acts_discovery_wait: "acts (range o_discoveryWait_update) (set_discovery_wait env v)"
proof (cases "parseDuration env v")
  case (Inr d)
  then show ?thesis by (cases "d < 0") (simp_all add: setters_abs)
qed (simp add: setters_abs)

lemma acts_arp:
  "acts ((\<lambda>(f, g). o_devices_update (db_arpPath_update f) \<circ> o_devices_update (db_useARP_update g)) ` UNIV) (set_arp args)"
proof -
  consider "length args = 1" | "1 < length args" | "length args \<noteq> 1" "\<not> 1 < length args" by blast
  then show ?thesis
  proof cases
    case 1
    then show ?thesis
      using acts_two [of "\<lambda>f. o_devices_update (db_arpPath_update f)" "\<lambda>g. o_devices_update (db_useARP_update g)"]
      by (simp add: setters_abs Let_def)
  next
    case 2
    then show ?thesis by (simp add: setters_abs Let_def)
  next
    case 3
    then show ?thesis
      using acts_snd [of "\<lambda>f. o_devices_update (db_arpPath_update f)" "\<lambda>g. o_devices_update (db_useARP_update g)"]
      by (simp add: setters_abs Let_def)
  qed
qed

lemma acts_reload:
  "acts ((\<lambda>(f, g). o_reloadOn_update f \<circ> o_devices_update (db_reload_update g)) ` UNIV) (set_reload env v)"
  using acts_two [of o_reloadOn_update "\<lambda>g. o_devices_update (db_reload_update g)"]
  by (cases "positiveDuration env ''reload'' v"; simp add: setters_abs)

lemma rules_act: "list_all2 (\<lambda>p q. fst p = fst q \<and> rule_acts (snd q) (snd p)) (rules env) families"
  by (simp add: rules_def families_def rule_acts_def acts_route acts_client_profile acts_endpoints acts_numbers
    acts_cache acts_cache_ttl acts_device_id acts_device_model acts_device_name acts_device_names acts_device_ip
    acts_discovery acts_tuning acts_discovery_wait acts_arp acts_reload)

lemma list_all2_map_of:
  assumes "list_all2 (\<lambda>p q. fst p = fst q \<and> R (snd p) (snd q)) xs ys" and "map_of xs k = Some x"
  shows "\<exists>y. map_of ys k = Some y \<and> R x y"
  using assms
proof (induction xs ys rule: list_all2_induct)
  case (Cons p xs q ys)
  then show ?case by (cases p; cases q) (auto split: if_splits)
qed simp

lemma run_line_acts:
  assumes "run_line env l st = Inr st'"
  obtains F u where "map_of families (fst l) = Some F" and "u \<in> F" and "\<And>s. run_line env l s = Inr (u s)"
proof -
  obtain r where r: "map_of (rules env) (fst l) = Some r"
    using assms by (auto simp: run_line_def split: option.splits)
  obtain F where F: "map_of families (fst l) = Some F" and act: "rule_acts F r"
    using list_all2_map_of [OF rules_act r] by blast
  have "acts F (run_line env l) \<or> (\<exists>e. run_line env l st = Inl e)"
    using r act by (cases r) (auto simp: run_line_def [abs_def] rule_acts_def)
  then have "\<exists>u \<in> F. \<forall>s. run_line env l s = Inr (u s)" using assms by (auto simp: acts_def)
  with F that show ?thesis by blast
qed

lemma sorted_wrt_map_of:
  assumes "sorted_wrt (\<lambda>a b. R (snd a) (snd b)) xs" and "\<And>a b. R a b \<Longrightarrow> R b a"
    and "map_of xs i = Some a" and "map_of xs j = Some b" and "i \<noteq> j"
  shows "R a b"
  using assms
proof (induction xs)
  case (Cons p xs)
  then show ?case
    using map_of_SomeD [of xs i a] map_of_SomeD [of xs j b] by (cases p) (fastforce split: if_splits)
qed simp

lemma run_lines_swap:
  assumes "fst l1 \<noteq> fst l2" and "run_lines env (l1 # l2 # ls) st = Inr st'"
  shows "run_lines env (l2 # l1 # ls) st = Inr st'"
proof -
  obtain st1 st2 where 1: "run_line env l1 st = Inr st1" and 2: "run_line env l2 st1 = Inr st2"
    and r: "run_lines env ls st2 = Inr st'"
    using assms(2) by (auto split: sum.splits)
  obtain F u where u: "map_of families (fst l1) = Some F" "u \<in> F" "\<And>s. run_line env l1 s = Inr (u s)"
    using run_line_acts [OF 1] by blast
  obtain G v where v: "map_of families (fst l2) = Some G" "v \<in> G" "\<And>s. run_line env l2 s = Inr (v s)"
    using run_line_acts [OF 2] by blast
  have "commute F G"
    by (rule sorted_wrt_map_of [where R = commute, OF families_commute commute_sym u(1) v(1) assms(1)])
  then have "u (v st) = v (u st)" using u(2) v(2) unfolding commute_def by blast
  then show ?thesis using 1 2 r u(3) v(3) by simp
qed

lemma run_lines_front:
  assumes "fst l \<notin> fst ` set as" and "run_lines env (as @ l # bs) st = Inr st'"
  shows "run_lines env (l # as @ bs) st = Inr st'"
  using assms
proof (induction as arbitrary: st)
  case (Cons a as)
  obtain st1 where a: "run_line env a st = Inr st1" and r: "run_lines env (as @ l # bs) st1 = Inr st'"
    using Cons.prems(2) by (auto split: sum.splits)
  have "run_lines env (a # l # as @ bs) st = Inr st'"
    using Cons.IH [OF _ r] Cons.prems(1) a by (simp split: sum.splits)
  then show ?case using run_lines_swap [of a l env "as @ bs" st st'] Cons.prems(1) by auto
qed simp

end
