(* ===== verification/Setup.thy ===== *)
theory Setup
  imports Options
begin

text \<open>
  \<open>parseNextDNS\<close> of \<open>setup.go\<close>: from the text of a server block to an instance. The Corefile is
  read through a \<open>caddy.Controller\<close>, which is not part of the repository: it is a record of the
  functions the parser calls, over an arbitrary state, and what is proved for every controller
  holds for the real one. The loops over \<open>Next\<close> and \<open>NextBlock\<close> are partial functions, so that
  not returning is \<open>None\<close>; when they return is a theorem.
\<close>

section \<open>Reading the Corefile\<close>

record 'c controller =
  ct_Next :: "'c \<Rightarrow> bool \<times> 'c"
  ct_NextBlock :: "'c \<Rightarrow> bool \<times> 'c"
  ct_NextArg :: "'c \<Rightarrow> bool \<times> 'c"
  ct_RemainingArgs :: "'c \<Rightarrow> string list \<times> 'c"
  ct_Val :: "'c \<Rightarrow> string"

definition with_state :: "'c \<Rightarrow> setup_error + parsing \<Rightarrow> setup_error + 'c \<times> parsing" where
  "with_state c r = (case r of Inl e \<Rightarrow> Inl e | Inr st \<Rightarrow> Inr (c, st))"

definition parse_option ::
  "environment \<Rightarrow> 'c controller \<Rightarrow> 'c \<Rightarrow> parsing \<Rightarrow> setup_error + 'c \<times> parsing" where
  "parse_option env k c st =
     (case map_of (rules env) (ct_Val k c) of
        None \<Rightarrow> Inl (UnknownProperty (ct_Val k c))
      | Some (OneArg put) \<Rightarrow>
          (let (more, c) = ct_NextArg k c in
           if \<not> more then Inl ArgErr else with_state c (put (ct_Val k c) st))
      | Some (AllArgs put) \<Rightarrow> (let (args, c) = ct_RemainingArgs k c in with_state c (put args st)))"

text \<open>\<open>for c.NextBlock()\<close> and \<open>for c.Next()\<close>: not returning is \<open>None\<close>.\<close>

partial_function (option) parse_block ::
  "environment \<Rightarrow> 'c controller \<Rightarrow> 'c \<Rightarrow> parsing \<Rightarrow> (setup_error + 'c \<times> parsing) option" where
  "parse_block env k c st =
     (let (more, c) = ct_NextBlock k c in
      if \<not> more then Some (Inr (c, st))
      else case parse_option env k c st of
          Inl e \<Rightarrow> Some (Inl e)
        | Inr (c, st) \<Rightarrow> parse_block env k c st)"

definition parse_args :: "'c controller \<Rightarrow> 'c \<Rightarrow> parsing \<Rightarrow> setup_error + 'c \<times> parsing" where
  "parse_args k c st =
     (let (args, c) = ct_RemainingArgs k c in
      if 1 < length args then Inl ArgErr
      else if length args = 1 then with_state c (set_profile (args ! 0) st)
      else Inr (c, st))"

partial_function (option) parse_tokens ::
  "environment \<Rightarrow> 'c controller \<Rightarrow> bool \<Rightarrow> 'c \<Rightarrow> parsing \<Rightarrow> (setup_error + parsing) option" where
  "parse_tokens env k seen c st =
     (let (more, c) = ct_Next k c in
      if \<not> more then Some (Inr st)
      else if seen then Some (Inl OnlyOnce)
      else case parse_args k c st of
          Inl e \<Rightarrow> Some (Inl e)
        | Inr (c, st) \<Rightarrow>
            Option.bind (parse_block env k c st)
              (\<lambda>r. case r of Inl e \<Rightarrow> Some (Inl e) | Inr (c, st) \<Rightarrow> parse_tokens env k True c st))"

section \<open>Putting the instance together\<close>

definition applyBootstrap :: "string list \<Rightarrow> string list \<Rightarrow> string list" where
  "applyBootstrap endpoints bootstrap =
     (if length endpoints = 0 \<and> length bootstrap = 0 then []
      else
        let endpoints = (if length endpoints = 0 then [''https://dns.nextdns.io''] else endpoints) in
        if length bootstrap = 0 then endpoints
        else map (\<lambda>e. if CHR ''#'' \<notin> set e then e @ ''#'' @ Join bootstrap '','' else e) endpoints)"

text \<open>The tuning of the discoverer, an error without one.\<close>

definition tune_discovery :: "parsing \<Rightarrow> setup_error + (discoverer \<times> resolver) option" where
  "tune_discovery st =
     (case o_discovery st of
        Some (d, r) \<Rightarrow>
          Inr (Some (d\<lparr>dc_ttl := tuned (o_discoveryTTL st) (dc_ttl d),
                       dc_retry := tuned (o_discoveryRetry st) (dc_retry d),
                       dc_timeout := tuned (o_discoveryTimeout st) (dc_timeout d),
                       dc_wait := tuned (o_discoveryWait st) (dc_wait d),
                       dc_max := tuned (o_discoveryMax st) (dc_max d)\<rparr>, r))
      | None \<Rightarrow>
          if o_discoveryTTL st \<noteq> None \<or> o_discoveryRetry st \<noteq> None \<or> o_discoveryTimeout st \<noteq> None
             \<or> o_discoveryWait st \<noteq> None \<or> o_discoveryMax st \<noteq> None
          then Inl DiscoveryNeeded else Inr None)"

datatype warning = OneServerName string nat | NoBootstrapFor string

definition client_warnings :: "string \<Rightarrow> dohClient \<Rightarrow> warning list" where
  "client_warnings tlsServerName client =
     (if tlsServerName \<noteq> [] \<and> 1 < length (dh_endpoints client)
      then [OneServerName tlsServerName (length (dh_endpoints client))] else []) @
     map (\<lambda>ep. NoBootstrapFor (ep_base ep))
       (filter (\<lambda>ep. length (ep_bootstrap ep) = 0 \<and> ParseIP (ep_host ep) = None) (dh_endpoints client))"

definition make_cache :: "parsing \<Rightarrow> msgCache option" where
  "make_cache st =
     (if o_cacheOn st
      then Some ((newMsgCache (o_cacheCap st))\<lparr>mc_minTTL := o_cacheMin st, mc_maxTTL := o_cacheMax st\<rparr>)
      else None)"

text \<open>What the parser returns: the instance, its discoverer and resolver, and the warnings.\<close>

record configured =
  cg_nextdns :: nextdns
  cg_discovery :: "(discoverer \<times> resolver) option"
  cg_warnings :: "warning list"

definition finish :: "environment \<Rightarrow> parsing \<Rightarrow> setup_error + configured" where
  "finish env st =
     (if o_profile st = [] then Inl NoProfile
      else if o_cacheTTLOn st \<and> \<not> o_cacheOn st then Inl LifetimesNeedCache
      else if o_reloadOn st \<and> \<not> has_source (o_devices st) then Inl ReloadNeedsSource
      else case tune_discovery st of
          Inl e \<Rightarrow> Inl e
        | Inr discovery \<Rightarrow>
            (case newDOHClient (en_url_parse env)
                    \<lparr>do_endpoints = applyBootstrap (o_endpoints st) (o_bootstrap st), do_timeout = o_timeout st,
                     do_tlsServerName = o_tlsServerName st, do_maxIdleConns = o_maxIdleConns st\<rparr> of
               Inl e \<Rightarrow> Inl (EndpointError e)
             | Inr client \<Rightarrow>
                 if db_mode (o_devices st) = IdMAC \<and> \<not> has_source (o_devices st) then Inl MACNeedsSource
                 else Inr
                   \<lparr>cg_nextdns =
                      \<lparr>n_profile = o_profile st, n_viewProfiles = o_viewProfiles st,
                       n_clientProfiles = sort_profiles (o_clientProfiles st), n_badProfile = False,
                       n_client = client, n_devices = o_devices st, n_cache = make_cache st,
                       n_maxConcurrent = o_maxConcurrent st, n_concurrent = 0\<rparr>,
                    cg_discovery = discovery,
                    cg_warnings = client_warnings (o_tlsServerName st) client\<rparr>))"

definition parseNextDNS :: "environment \<Rightarrow> 'c controller \<Rightarrow> 'c \<Rightarrow> (setup_error + configured) option" where
  "parseNextDNS env k c =
     map_option (\<lambda>r. case r of Inl e \<Rightarrow> Inl e | Inr st \<Rightarrow> finish env st)
       (parse_tokens env k False c parse_start)"

text \<open>The second startup callback: the routes it warns about when the block loads the cache plugin.\<close>

definition startup_warning :: "string \<Rightarrow> bool \<Rightarrow> routing \<Rightarrow> string list option" where
  "startup_warning view cachePlugin n =
     (let routes = reachableRoutes view n in
      if 1 < length routes \<and> cachePlugin then Some routes else None)"

section \<open>From the options to the parser\<close>

lemma rule_keepsD:
  assumes "list_all (\<lambda>p. rule_keeps P (snd p)) (rules env)" and "map_of (rules env) name = Some r"
  shows "rule_keeps P r"
  using assms map_of_SomeD by (fastforce simp: list_all_iff)

lemma with_state_Inr [simp]: "with_state c r = Inr (c', st) \<longleftrightarrow> c' = c \<and> r = Inr st"
  by (auto simp: with_state_def split: sum.splits)

lemma parse_option_keeps:
  assumes "list_all (\<lambda>p. rule_keeps P (snd p)) (rules env)"
    and "parse_option env k c st = Inr (c', st')" and "P st"
  shows "P st'"
proof -
  obtain r where r: "map_of (rules env) (ct_Val k c) = Some r"
    using assms(2) by (auto simp: parse_option_def split: option.splits)
  have "rule_keeps P r" by (rule rule_keepsD [OF assms(1) r])
  then show ?thesis
    using assms(2,3) r
    by (cases r) (auto simp: parse_option_def rule_keeps_def Let_def split: prod.splits if_splits)
qed

lemma parse_block_keeps:
  assumes keeps: "\<And>env. list_all (\<lambda>p. rule_keeps P (snd p)) (rules env)"
    and "parse_block env k c st = Some (Inr (c', st'))" and "P st"
  shows "P st'"
proof -
  have "P st \<longrightarrow> (\<forall>c' st'. y = Inr (c', st') \<longrightarrow> P st')" if "parse_block env k c st = Some y" for y
    using that
  proof (induction rule: parse_block.raw_induct [rotated, consumes 1, case_names step])
    case (step rec env k c st y)
    obtain more c1 where b: "ct_NextBlock k c = (more, c1)" by (metis surj_pair)
    show ?case
    proof (cases "more \<and> is_ok (parse_option env k c1 st)")
      case True
      then obtain c2 st2 where o: "parse_option env k c1 st = Inr (c2, st2)" by (auto simp: is_ok_iff)
      have "rec env k c2 st2 = Some y" using step(2) True b o by simp
      from step(1) [OF this] parse_option_keeps [OF keeps o] show ?thesis by blast
    next
      case False
      with step(2) b show ?thesis by (cases "parse_option env k c1 st") (auto split: if_splits)
    qed
  qed
  with assms(2,3) show ?thesis by blast
qed

lemma parse_args_keeps:
  assumes "\<And>env. list_all (\<lambda>p. rule_keeps P (snd p)) (rules env)" and "parse_args k c st = Inr (c', st')" and "P st"
  shows "P st'"
proof -
  have "rule_keeps P (OneArg set_profile)"
    using rule_keepsD [OF assms(1), of undefined "''profile''"] by (simp add: rules_def)
  with assms(2,3) show ?thesis
    by (auto simp: parse_args_def rule_keeps_def Let_def split: prod.splits if_splits)
qed

lemma parse_tokens_keeps:
  assumes keeps: "\<And>env. list_all (\<lambda>p. rule_keeps P (snd p)) (rules env)"
    and "parse_tokens env k seen c st = Some (Inr st')" and "P st"
  shows "P st'"
proof -
  have "P st \<longrightarrow> (\<forall>st'. y = Inr st' \<longrightarrow> P st')" if "parse_tokens env k seen c st = Some y" for y
    using that
  proof (induction rule: parse_tokens.raw_induct [rotated, consumes 1, case_names step])
    case (step rec env k seen c st y)
    obtain more c1 where b: "ct_Next k c = (more, c1)" by (metis surj_pair)
    show ?case
    proof (cases "\<not> more \<or> seen")
      case True
      with step(2) b show ?thesis by (auto split: if_splits)
    next
      case False
      show ?thesis
      proof (cases "parse_args k c1 st")
        case (Inr p)
        obtain c2 st2 where p: "p = (c2, st2)" by (metis surj_pair)
        obtain r where r: "parse_block env k c2 st2 = Some r"
          and y: "(case r of Inl e \<Rightarrow> Some (Inl e) | Inr (c, st) \<Rightarrow> rec env k True c st) = Some y"
          using step(2) False b Inr p by (auto simp: bind_eq_Some_conv)
        show ?thesis
        proof (cases r)
          case r': (Inr q)
          obtain c3 st3 where q: "q = (c3, st3)" by (metis surj_pair)
          have "rec env k True c3 st3 = Some y" using y r' q by simp
          note step(1) [OF this]
          with parse_args_keeps [OF keeps Inr [unfolded p]] parse_block_keeps [OF keeps r [unfolded r' q]]
          show ?thesis by blast
        qed (use y in auto)
      qed (use step(2) False b in auto)
    qed
  qed
  with assms(2,3) show ?thesis by blast
qed

section \<open>What the parser accepts\<close>

definition discovery_config_ok :: "discoverer \<Rightarrow> bool" where
  "discovery_config_ok d \<longleftrightarrow> idle d \<and> \<not> dc_closing d \<and> 0 < dc_ttl d \<and> 0 < dc_retry d \<and> 0 < dc_timeout d
     \<and> 0 \<le> dc_wait d"

definition client_config_ok :: "dohClient \<Rightarrow> bool" where
  "client_config_ok c \<longleftrightarrow> dh_endpoints c \<noteq> [] \<and> list_all endpoint_ok (dh_endpoints c) \<and> 0 < dh_timeout c
     \<and> transport_ok (dh_hc c)"

definition fresh_cache :: "msgCache \<Rightarrow> bool" where
  "fresh_cache mc \<longleftrightarrow> (\<exists>cap lo hi. mc = configured_cache cap lo hi \<and> cache_ok mc)"

definition config_ok :: "configured \<Rightarrow> bool" where
  "config_ok cfg \<longleftrightarrow>
     (let n = cg_nextdns cfg in
      routing_ok (routing.truncate n)
      \<and> sorted_wrt (\<lambda>a b. pfx_bits (cp_prefix b) \<le> pfx_bits (cp_prefix a)) (n_clientProfiles n)
      \<and> client_config_ok (n_client n) \<and> db_config_ok (n_devices n)
      \<and> (db_mode (n_devices n) = IdMAC \<longrightarrow> has_source (n_devices n))
      \<and> pred_option fresh_cache (n_cache n) \<and> 0 \<le> n_maxConcurrent n \<and> n_concurrent n = 0
      \<and> pred_option (discovery_config_ok \<circ> fst) (cg_discovery cfg))"

definition opts_ok :: "parsing \<Rightarrow> bool" where
  "opts_ok st \<longleftrightarrow> routes_ok st \<and> lifetimes_ok st \<and> tuning_ok st \<and> db_config_ok (o_devices st)"

lemma opts_ok_start: "opts_ok parse_start"
  by (simp add: opts_ok_def routes_ok_def lifetimes_ok_def tuning_ok_def db_config_ok_def parse_start_def
    newDeviceDB_def defaultReload_def defaultCacheMinTTL_def defaultCacheMaxTTL_def int64_def)

lemma rules_keep_opts: "list_all (\<lambda>p. rule_keeps opts_ok (snd p)) (rules env)"
proof -
  have "rule_keeps opts_ok r"
    if "rule_keeps routes_ok r" "rule_keeps lifetimes_ok r" "rule_keeps tuning_ok r"
      "rule_keeps (\<lambda>st. db_config_ok (o_devices st)) r" for r
    using that by (cases r) (auto simp: rule_keeps_def opts_ok_def)
  then show ?thesis
    using rules_keep_routes [of env] rules_keep_lifetimes [of env] rules_keep_tuning [of env] rules_keep_db [of env]
    by (simp add: list_all_iff)
qed

lemma parsed_opts_ok: "parse_tokens env k False c parse_start = Some (Inr st) \<Longrightarrow> opts_ok st"
  by (rule parse_tokens_keeps [OF rules_keep_opts _ opts_ok_start])

lemma sort_profiles_sorted:
  "sorted_wrt (\<lambda>a b. pfx_bits (cp_prefix b) \<le> pfx_bits (cp_prefix a)) (sort_profiles cps)"
proof -
  have "sorted (map (\<lambda>cp. - pfx_bits (cp_prefix cp)) (sort_profiles cps))" by (simp add: sort_profiles_def)
  then show ?thesis by (simp add: sorted_wrt_map sorted_map)
qed

lemma tune_discovery_ok:
  "tuning_ok st \<Longrightarrow> tune_discovery st = Inr d \<Longrightarrow> pred_option (discovery_config_ok \<circ> fst) d"
  by (auto simp: tune_discovery_def tuning_ok_def tuned_def positive_def discovery_config_ok_def idle_def
    newDiscoverer_def defaultDiscoveryTTL_def defaultDiscoveryRetry_def defaultDiscoveryTimeout_def
    defaultDiscoveryWait_def defaultDiscoveryMax_def fresh_discovery_def
    split: option.splits if_splits)

lemma newDOHClient_config:
  assumes "newDOHClient up opts = Inr c"
  shows "client_config_ok c"
proof -
  let ?specs = "if length (do_endpoints opts) = 0 then defaultEndpoints else do_endpoints opts"
  obtain eps where m: "make_endpoints up ?specs = Inr eps"
    and c: "c = \<lparr>dh_endpoints = eps, dh_hc = make_http_client (do_tlsServerName opts) (do_maxIdleConns opts),
      dh_timeout = (if do_timeout opts \<le> 0 then defaultTimeout else do_timeout opts),
      dh_lastMod = [], dh_bootFailing = []\<rparr>"
    using assms by (auto simp: newDOHClient_def Let_def simp del: make_endpoints.simps split: sum.splits)
  have "?specs \<noteq> []" by (simp add: defaultEndpoints_def)
  with make_endpoints_ok [OF m] have "eps \<noteq> []" by (metis length_0_conv)
  with make_endpoints_ok [OF m] show ?thesis by (simp add: c client_config_ok_def defaultTimeout_def make_http_client_ok)
qed

lemma make_cache_ok: "lifetimes_ok st \<Longrightarrow> pred_option fresh_cache (make_cache st)"
  using cache_ok_configured
  by (fastforce simp: make_cache_def lifetimes_ok_def fresh_cache_def configured_cache_def)

lemma finish_ok:
  assumes "opts_ok st" and "finish env st = Inr cfg"
  shows "config_ok cfg"
proof -
  obtain d client where d: "tune_discovery st = Inr d" and c: "newDOHClient (en_url_parse env)
      \<lparr>do_endpoints = applyBootstrap (o_endpoints st) (o_bootstrap st), do_timeout = o_timeout st,
                     do_tlsServerName = o_tlsServerName st, do_maxIdleConns = o_maxIdleConns st\<rparr> = Inr client"
    using assms(2) by (auto simp: finish_def split: if_splits sum.splits)
  then show ?thesis
    using assms tune_discovery_ok [OF _ d] newDOHClient_config [OF c] make_cache_ok [of st] sort_profiles_sorted
    by (auto simp: finish_def config_ok_def opts_ok_def routes_ok_def lifetimes_ok_def routing_ok_def routing.truncate_def
      sort_profiles_def list_all_iff split: if_splits)
qed

lemma parseNextDNS_Inr:
  assumes "parseNextDNS env k c = Some (Inr cfg)"
  obtains st where "parse_tokens env k False c parse_start = Some (Inr st)" and "finish env st = Inr cfg"
proof -
  obtain r where r: "parse_tokens env k False c parse_start = Some r"
    and f: "(case r of Inl e \<Rightarrow> Inl e | Inr st \<Rightarrow> finish env st) = Inr cfg"
    using assms by (auto simp: parseNextDNS_def)
  then show ?thesis using that by (cases r) auto
qed

lemma accepted_config_ok: "parseNextDNS env k c = Some (Inr cfg) \<Longrightarrow> config_ok cfg"
  by (erule parseNextDNS_Inr) (rule finish_ok [OF parsed_opts_ok])

section \<open>Reading ends\<close>

text \<open>
  What is asked of the controller: \<open>NextBlock\<close> uses up a token as long as there is one, no call
  gives tokens back, and without tokens there are no arguments. It is not asked that
  \<open>NextBlock\<close> says no when the tokens are used up: whether it does depends on how the block is
  closed.
\<close>

definition dispenses :: "'c controller \<Rightarrow> ('c \<Rightarrow> nat) \<Rightarrow> bool" where
  "dispenses k left \<longleftrightarrow>
     (\<forall>c. (fst (ct_NextBlock k c) \<longrightarrow> left (snd (ct_NextBlock k c)) < left c \<or> left c = 0)
        \<and> left (snd (ct_NextBlock k c)) \<le> left c
        \<and> left (snd (ct_NextArg k c)) \<le> left c \<and> left (snd (ct_RemainingArgs k c)) \<le> left c
        \<and> (left c = 0 \<longrightarrow> \<not> fst (ct_NextArg k c) \<and> fst (ct_RemainingArgs k c) = []))"

text \<open>The states the parser can bring the controller to.\<close>

inductive reaches :: "'c controller \<Rightarrow> 'c \<Rightarrow> 'c \<Rightarrow> bool" for k c where
  here: "reaches k c c"
| another: "reaches k c c' \<Longrightarrow> reaches k c (snd (ct_Next k c'))"
| block: "reaches k c c' \<Longrightarrow> reaches k c (snd (ct_NextBlock k c'))"
| arg: "reaches k c c' \<Longrightarrow> reaches k c (snd (ct_NextArg k c'))"
| args: "reaches k c c' \<Longrightarrow> reaches k c (snd (ct_RemainingArgs k c'))"

text \<open>
  At the end of its tokens the controller still offers a property, one that may stand without
  arguments.
\<close>

definition stands :: "'c controller \<Rightarrow> ('c \<Rightarrow> nat) \<Rightarrow> 'c \<Rightarrow> bool" where
  "stands k left c \<longleftrightarrow> left c = 0 \<and> fst (ct_NextBlock k c)
     \<and> ct_Val k (snd (ct_NextBlock k c)) \<in> {''cache'', ''device_ip'', ''arp''}"

lemma parse_option_state:
  assumes "parse_option env k c st = Inr (c', st')"
  shows "c' = snd (ct_NextArg k c) \<or> c' = snd (ct_RemainingArgs k c)"
  using assms
  by (auto simp: parse_option_def Let_def with_state_def split: option.splits rule.splits prod.splits if_splits sum.splits)

lemma parse_option_left:
  "dispenses k left \<Longrightarrow> parse_option env k c st = Inr (c', st') \<Longrightarrow> left c' \<le> left c"
  using parse_option_state [of env k c st c' st'] by (auto simp: dispenses_def)

lemma rules_without_arguments:
  "list_all (\<lambda>(v, r). case r of OneArg put \<Rightarrow> True
     | AllArgs put \<Rightarrow> v \<in> {''cache'', ''device_ip'', ''arp''} \<or> (\<forall>st. \<not> is_ok (put [] st))) (rules env)"
  by (simp add: rules_def setters)

lemma argless_rules:
  assumes "map_of (rules env) v = Some (AllArgs put)" and "put [] st = Inr st'"
  shows "v \<in> {''cache'', ''device_ip'', ''arp''}"
proof -
  have "(v, AllArgs put) \<in> set (rules env)" using assms(1) by (rule map_of_SomeD)
  with rules_without_arguments [of env]
  have "v \<in> {''cache'', ''device_ip'', ''arp''} \<or> (\<forall>st. \<not> is_ok (put [] st))"
    unfolding list_all_iff by fastforce
  moreover have "is_ok (put [] st)" by (simp add: assms(2))
  ultimately show ?thesis by blast
qed

lemma argless_accepted:
  assumes "v \<in> {''cache'', ''device_ip'', ''arp''}"
  shows "\<exists>put. map_of (rules env) v = Some (AllArgs put) \<and> (\<forall>st. is_ok (put [] st))"
proof -
  have "map_of (rules env) ''cache'' = Some (AllArgs set_cache)"
    "map_of (rules env) ''device_ip'' = Some (AllArgs set_device_ip)"
    "map_of (rules env) ''arp'' = Some (AllArgs set_arp)" by (simp_all add: rules_def)
  moreover have "is_ok (set_cache [] st)" "is_ok (set_device_ip [] st)" "is_ok (set_arp [] st)" for st
    by (simp_all add: set_cache_def set_device_ip_def set_arp_def Let_def)
  ultimately show ?thesis using assms by auto
qed

lemma parse_option_at_end:
  assumes "dispenses k left" and "left c = 0" and "parse_option env k c st = Inr r"
  shows "ct_Val k c \<in> {''cache'', ''device_ip'', ''arp''}"
proof -
  have e: "\<not> fst (ct_NextArg k c)" "fst (ct_RemainingArgs k c) = []" using assms(1,2) by (auto simp: dispenses_def)
  with assms(3) argless_rules [of env "ct_Val k c"] show ?thesis
    by (auto simp: parse_option_def Let_def with_state_def split: option.splits rule.splits prod.splits sum.splits)
qed

lemma reaches_trans: "reaches k c' c'' \<Longrightarrow> reaches k c c' \<Longrightarrow> reaches k c c''"
  by (induction rule: reaches.induct) (auto intro: reaches.intros)

lemma parse_block_returns:
  assumes "dispenses k left"
  shows "(\<exists>r. parse_block env k c st = Some r) \<or> (\<exists>c'. reaches k c c' \<and> stands k left c')"
proof (induction "left c" arbitrary: c st rule: less_induct)
  case less
  obtain more c1 where b: "ct_NextBlock k c = (more, c1)" by (metis surj_pair)
  show ?case
  proof (cases "more \<and> is_ok (parse_option env k c1 st)")
    case True
    then obtain c2 st2 where o: "parse_option env k c1 st = Inr (c2, st2)" by (auto simp: is_ok_iff)
    show ?thesis
    proof (cases "left c = 0")
      case end_of_tokens: True
      then have "left c1 = 0" using assms b by (auto simp: dispenses_def dest!: spec [of _ c])
      from parse_option_at_end [OF assms this o] show ?thesis
        using end_of_tokens True b by (auto simp: stands_def intro!: exI [of _ c] reaches.here)
    next
      case False
      then have "left c1 < left c" using assms b True by (auto simp: dispenses_def dest!: spec [of _ c])
      then have "left c2 < left c" using parse_option_left [OF assms o] by simp
      moreover have "reaches k c c2"
        using parse_option_state [OF o] reaches.block [OF reaches.here, of k c] b by (auto intro: reaches.intros)
      ultimately consider r where "parse_block env k c2 st2 = Some r" | c' where "reaches k c c'" "stands k left c'"
        using less [of c2 st2] reaches_trans [of k c2 _ c] by blast
      then show ?thesis
      proof cases
        case 1
        then show ?thesis using True b o by (simp add: parse_block.simps [of env k c])
      qed blast
    qed
  next
    case False
    then show ?thesis
      using b by (cases "parse_option env k c1 st") (auto simp: parse_block.simps [of env k c])
  qed
qed

text \<open>Where the controller stands still on such a property, the loop has no way out.\<close>

definition stands_still :: "'c controller \<Rightarrow> 'c \<Rightarrow> bool" where
  "stands_still k c \<longleftrightarrow> ct_NextBlock k c = (True, c) \<and> ct_RemainingArgs k c = ([], c)
     \<and> ct_Val k c \<in> {''cache'', ''device_ip'', ''arp''}"

lemma parse_block_hangs:
  assumes "stands_still k c"
  shows "parse_block env k c st = None"
proof (rule ccontr)
  assume "parse_block env k c st \<noteq> None"
  then obtain r where r: "parse_block env k c st = Some r" by blast
  have "\<not> stands_still k c"
  proof (rule parse_block.raw_induct [where P = "\<lambda>env k c st r. \<not> stands_still k c", OF _ r])
    fix f env k c st r
    assume IH: "\<And>env k c st r. f env k c st = Some r \<Longrightarrow> \<not> stands_still k c"
      and eq: "(let (more, c) = ct_NextBlock k c in
        if \<not> more then Some (Inr (c, st))
        else case parse_option env k c st of Inl e \<Rightarrow> Some (Inl e) | Inr (c, st) \<Rightarrow> f env k c st) = Some r"
    show "\<not> stands_still k c"
    proof
      assume s: "stands_still k c"
      then obtain put where "map_of (rules env) (ct_Val k c) = Some (AllArgs put)" "is_ok (put [] st)"
        using argless_accepted [of "ct_Val k c" env] by (auto simp: stands_still_def)
      then obtain st' where "parse_option env k c st = Inr (c, st')"
        using s by (auto simp: parse_option_def stands_still_def with_state_def is_ok_iff)
      with eq s have "f env k c st' = Some r" by (simp add: stands_still_def)
      from IH [OF this] s show False by simp
    qed
  qed
  with assms show False by simp
qed

section \<open>Reading lines\<close>

text \<open>
  A controller that delivers a block line by line, from a state, and where it leaves the
  controller: this is what the loop over \<open>NextBlock\<close> sees of a block none of whose
  one-argument properties is given more than one argument.
\<close>

fun delivers :: "environment \<Rightarrow> 'c controller \<Rightarrow> 'c \<Rightarrow> line list \<Rightarrow> 'c \<Rightarrow> bool" where
  "delivers env k c [] c' \<longleftrightarrow> ct_NextBlock k c = (False, c')"
| "delivers env k c (l # ls) c' \<longleftrightarrow>
     (let (more, c) = ct_NextBlock k c in
      more \<and> ct_Val k c = fst l \<and>
      (case map_of (rules env) (fst l) of
         None \<Rightarrow> True
       | Some (OneArg _) \<Rightarrow>
           (let (more, c) = ct_NextArg k c in
            (\<not> more \<and> snd l = []) \<or> (more \<and> snd l = [ct_Val k c] \<and> delivers env k c ls c'))
       | Some (AllArgs _) \<Rightarrow>
           (let (args, c) = ct_RemainingArgs k c in args = snd l \<and> delivers env k c ls c')))"

lemma parse_block_lines:
  assumes "delivers env k c ls c'"
  shows "parse_block env k c st =
    Some (case run_lines env ls st of Inl e \<Rightarrow> Inl e | Inr st' \<Rightarrow> Inr (c', st'))"
  using assms
proof (induction ls arbitrary: c st)
  case Nil
  then show ?case by (simp add: parse_block.simps [of env k c])
next
  case (Cons l ls)
  obtain c1 where b: "ct_NextBlock k c = (True, c1)" and v: "ct_Val k c1 = fst l"
    using Cons.prems by (auto simp: Let_def split: prod.splits)
  show ?case
  proof (cases "map_of (rules env) (fst l)")
    case None
    then show ?thesis using b v by (simp add: parse_block.simps [of env k c] parse_option_def run_line_def)
  next
    case (Some r)
    show ?thesis
    proof (cases r)
      case (OneArg put)
      obtain more c2 where a: "ct_NextArg k c1 = (more, c2)" by (metis surj_pair)
      show ?thesis
      proof (cases more)
        case True
        then have l: "snd l = [ct_Val k c2]" and d: "delivers env k c2 ls c'"
          using Cons.prems b v Some OneArg a by auto
        then show ?thesis
          using b v Some OneArg a True Cons.IH [OF d]
          by (cases "put (ct_Val k c2) st")
            (simp_all add: parse_block.simps [of env k c] parse_option_def run_line_def with_state_def)
      next
        case False
        then show ?thesis
          using Cons.prems b v Some OneArg a
          by (simp add: parse_block.simps [of env k c] parse_option_def run_line_def)
      qed
    next
      case (AllArgs put)
      obtain args c2 where a: "ct_RemainingArgs k c1 = (args, c2)" by (metis surj_pair)
      then have l: "args = snd l" and d: "delivers env k c2 ls c'"
        using Cons.prems b v Some AllArgs by auto
      then show ?thesis
        using b v Some AllArgs a Cons.IH [OF d]
        by (cases "put args st")
          (simp_all add: parse_block.simps [of env k c] parse_option_def run_line_def with_state_def)
    qed
  qed
qed

text \<open>A whole directive: its arguments, its block, and nothing after it.\<close>

definition delivers_directive :: "environment \<Rightarrow> 'c controller \<Rightarrow> 'c \<Rightarrow> string list \<Rightarrow> line list \<Rightarrow> bool" where
  "delivers_directive env k c args ls \<longleftrightarrow>
     (let (more, c1) = ct_Next k c; (args', c2) = ct_RemainingArgs k c1
      in more \<and> args' = args \<and> (\<exists>c3. delivers env k c2 ls c3 \<and> \<not> fst (ct_Next k c3)))"

text \<open>What it configures: the argument is a profile, as if it were the block's first line.\<close>

definition configure :: "environment \<Rightarrow> string list \<Rightarrow> line list \<Rightarrow> setup_error + configured" where
  "configure env args ls =
     (if 1 < length args then Inl ArgErr
      else case run_lines env (if args = [] then ls else (''profile'', args) # ls) parse_start of
          Inl e \<Rightarrow> Inl e
        | Inr st \<Rightarrow> finish env st)"

lemma parse_args_profile:
  "ct_RemainingArgs k c = (args, c') \<Longrightarrow> parse_args k c st =
     (if 1 < length args then Inl ArgErr
      else if args = [] then Inr (c', st)
      else with_state c' (run_line env (''profile'', args) st))"
  by (cases args) (auto simp: parse_args_def run_line_def rules_def Let_def length_Suc_conv)

lemma parseNextDNS_configure:
  assumes "delivers_directive env k c args ls"
  shows "parseNextDNS env k c = Some (configure env args ls)"
proof -
  obtain c1 c2 c3 c4 where 1: "ct_Next k c = (True, c1)" and 2: "ct_RemainingArgs k c1 = (args, c2)"
    and 3: "delivers env k c2 ls c3" and 4: "ct_Next k c3 = (False, c4)"
    using assms by (auto simp: delivers_directive_def Let_def split: prod.splits) (metis prod.collapse)
  note head = parse_args_profile [OF 2, of parse_start env]
  have tail: "Option.bind (parse_block env k c2 st)
      (\<lambda>r. case r of Inl e \<Rightarrow> Some (Inl e) | Inr (c, st) \<Rightarrow> parse_tokens env k True c st) =
      Some (run_lines env ls st)" for st
    using parse_block_lines [OF 3, of st] 4
    by (cases "run_lines env ls st") (simp_all add: parse_tokens.simps [of env k True c3])
  show ?thesis
  proof (cases "1 < length args")
    case True
    then show ?thesis
      by (simp add: parseNextDNS_def configure_def parse_tokens.simps [of env k False c] 1 head)
  next
    case False
    show ?thesis
    proof (cases "args = []")
      case True
      then show ?thesis
        by (simp add: parseNextDNS_def configure_def parse_tokens.simps [of env k False c] 1 head tail)
    next
      case args: False
      with False show ?thesis
        by (cases "run_line env (''profile'', args) parse_start")
          (simp_all add: parseNextDNS_def configure_def parse_tokens.simps [of env k False c] 1 head tail with_state_def)
    qed
  qed
qed

section \<open>What lines leave alone\<close>

definition untouched :: "(parsing \<Rightarrow> 'b) \<Rightarrow> string set \<Rightarrow> bool" where
  "untouched g names \<longleftrightarrow> (\<forall>name F. map_of families name = Some F \<longrightarrow> name \<notin> names \<longrightarrow> (\<forall>u \<in> F. \<forall>st. g (u st) = g st))"

lemma untouchedI:
  "list_all (\<lambda>(name, F). name \<notin> names \<longrightarrow> (\<forall>u \<in> F. \<forall>st. g (u st) = g st)) families \<Longrightarrow> untouched g names"
  by (auto simp: untouched_def list_all_iff dest!: map_of_SomeD)

lemma untouched_fields:
  "untouched o_cacheOn {''cache''}" "untouched o_cacheTTLOn {''cache_ttl''}" "untouched o_reloadOn {''reload''}"
  "untouched o_profile {''profile''}" "untouched o_discovery {''discovery''}"
  "untouched o_discoveryTTL {''discovery_ttl''}" "untouched o_discoveryRetry {''discovery_retry''}"
  "untouched o_discoveryWait {''discovery_wait''}" "untouched o_discoveryTimeout {''discovery_timeout''}"
  "untouched o_discoveryMax {''discovery_max''}"
  "untouched (\<lambda>st. has_source (o_devices st)) {''arp'', ''device_names''}"
  by (rule untouchedI; simp add: families_def in_db_def has_source_def)+

lemma run_line_untouched:
  assumes "untouched g names" and "fst l \<notin> names" and "run_line env l st = Inr st'"
  shows "g st' = g st"
proof -
  obtain F u where u: "map_of families (fst l) = Some F" "u \<in> F" "\<And>s. run_line env l s = Inr (u s)"
    using run_line_acts [OF assms(3)] by blast
  have "g (u st) = g st" using assms(1,2) u(1,2) unfolding untouched_def by blast
  then show ?thesis using assms(3) u(3) by simp
qed

lemma run_lines_untouched:
  "untouched g names \<Longrightarrow> names \<inter> fst ` set ls = {} \<Longrightarrow> run_lines env ls st = Inr st' \<Longrightarrow> g st' = g st"
proof (induction ls arbitrary: st)
  case (Cons l ls)
  obtain st1 where 1: "run_line env l st = Inr st1" and r: "run_lines env ls st1 = Inr st'"
    using Cons.prems(3) by (auto split: sum.splits)
  show ?case using Cons.IH [OF Cons.prems(1) _ r] run_line_untouched [OF Cons.prems(1) _ 1] Cons.prems(2) by auto
qed simp

text \<open>What the last line of a property did is still so at the end of the block.\<close>

lemma run_lines_last:
  assumes "name \<in> fst ` set ls" and "run_lines env ls st = Inr st'" and "untouched g {name}"
    and "\<And>args s s'. run_line env (name, args) s = Inr s' \<Longrightarrow> P (g s')"
  shows "P (g st')"
  using assms(1,2)
proof (induction ls arbitrary: st)
  case (Cons l ls)
  obtain st1 where 1: "run_line env l st = Inr st1" and r: "run_lines env ls st1 = Inr st'"
    using Cons.prems(2) by (auto split: sum.splits)
  show ?case
  proof (cases "name \<in> fst ` set ls")
    case True
    then show ?thesis by (rule Cons.IH [OF _ r])
  next
    case False
    with Cons.prems(1) have "P (g st1)" using 1 assms(4) [of "snd l" st st1] by (cases l) auto
    then show ?thesis using run_lines_untouched [OF assms(3) _ r] False by simp
  qed
qed simp

lemma configure_Inr:
  assumes "configure env args ls = Inr cfg"
  obtains st0 st where "run_lines env (if args = [] then [] else [(''profile'', args)]) parse_start = Inr st0"
    and "run_lines env ls st0 = Inr st" and "finish env st = Inr cfg"
proof (cases "args = []")
  case True
  with assms that [of parse_start] show ?thesis by (auto simp: configure_def split: if_splits sum.splits)
next
  case False
  with assms that show ?thesis by (auto simp: configure_def split: if_splits sum.splits)
qed

lemma tuning_lines:
  "run_line env (''cache_ttl'', args) s = Inr s' \<Longrightarrow> o_cacheTTLOn s'"
  "run_line env (''reload'', args) s = Inr s' \<Longrightarrow> o_reloadOn s'"
  "run_line env (''discovery_ttl'', args) s = Inr s' \<Longrightarrow> o_discoveryTTL s' \<noteq> None"
  "run_line env (''discovery_retry'', args) s = Inr s' \<Longrightarrow> o_discoveryRetry s' \<noteq> None"
  "run_line env (''discovery_wait'', args) s = Inr s' \<Longrightarrow> o_discoveryWait s' \<noteq> None"
  "run_line env (''discovery_timeout'', args) s = Inr s' \<Longrightarrow> o_discoveryTimeout s' \<noteq> None"
  "run_line env (''discovery_max'', args) s = Inr s' \<Longrightarrow> o_discoveryMax s' \<noteq> None"
  by (auto simp: run_line_def rules_def setters split: setter_splits)

lemma head_line:
  assumes "run_lines env (if args = [] then [] else [(''profile'', args)]) parse_start = Inr st0"
  shows "\<not> o_cacheOn st0" and "\<not> has_source (o_devices st0)" and "o_discovery st0 = None"
    and "args = [] \<Longrightarrow> o_profile st0 = []"
proof -
  have start: "\<not> o_cacheOn parse_start" "\<not> has_source (o_devices parse_start)" "o_discovery parse_start = None"
    "o_profile parse_start = []"
    by (simp_all add: parse_start_def newDeviceDB_def has_source_def)
  have keep: "g st0 = g parse_start" if "untouched g names" "''profile'' \<notin> names" for g :: "parsing \<Rightarrow> 'b" and names
    using run_lines_untouched [OF that(1) _ assms] that(2) by simp
  show "\<not> o_cacheOn st0" "\<not> has_source (o_devices st0)" 
    using start untouched_fields keep by blast+
  show "o_discovery st0 = None"
    using run_lines_untouched [OF untouched_fields(5) _ assms] start by simp
  show "args = [] \<Longrightarrow> o_profile st0 = []" using assms start by simp
qed

text \<open>A feature that is on at the end of the block has a line of its own.\<close>

lemma feature_has_line:
  assumes "run_lines env (if args = [] then [] else [(''profile'', args)]) parse_start = Inr st0"
    and "run_lines env ls st0 = Inr st"
  shows "o_cacheOn st \<Longrightarrow> ''cache'' \<in> fst ` set ls"
    and "has_source (o_devices st) \<Longrightarrow> ''arp'' \<in> fst ` set ls \<or> ''device_names'' \<in> fst ` set ls"
    and "o_discovery st \<noteq> None \<Longrightarrow> ''discovery'' \<in> fst ` set ls"
    and "args = [] \<Longrightarrow> o_profile st \<noteq> [] \<Longrightarrow> ''profile'' \<in> fst ` set ls"
proof -
  note head = head_line [OF assms(1)]
  show "o_cacheOn st \<Longrightarrow> ''cache'' \<in> fst ` set ls"
    using run_lines_untouched [OF untouched_fields(1) _ assms(2)] head(1) by auto
  show "has_source (o_devices st) \<Longrightarrow> ''arp'' \<in> fst ` set ls \<or> ''device_names'' \<in> fst ` set ls"
    using run_lines_untouched [OF untouched_fields(11) _ assms(2)] head(2) by auto
  have none: "o_discovery st = None" if "''discovery'' \<notin> fst ` set ls"
    using run_lines_untouched [OF untouched_fields(5) _ assms(2)] head(3) that by simp
  show "o_discovery st \<noteq> None \<Longrightarrow> ''discovery'' \<in> fst ` set ls"
    by (erule contrapos_np) (rule none)
  show "args = [] \<Longrightarrow> o_profile st \<noteq> [] \<Longrightarrow> ''profile'' \<in> fst ` set ls"
    using run_lines_untouched [OF untouched_fields(4) _ assms(2)] head(4) by auto
qed

text \<open>A tuning option with a line of its own is still set at the end of the block.\<close>

definition discovery_tuned :: "parsing \<Rightarrow> bool" where
  "discovery_tuned st \<longleftrightarrow> o_discoveryTTL st \<noteq> None \<or> o_discoveryRetry st \<noteq> None
     \<or> o_discoveryTimeout st \<noteq> None \<or> o_discoveryWait st \<noteq> None \<or> o_discoveryMax st \<noteq> None"

lemma tuning_has_effect:
  assumes "run_lines env ls st0 = Inr st"
  shows "''cache_ttl'' \<in> fst ` set ls \<Longrightarrow> o_cacheTTLOn st"
    and "''reload'' \<in> fst ` set ls \<Longrightarrow> o_reloadOn st"
    and "t \<in> fst ` set ls \<Longrightarrow>
      t \<in> {''discovery_ttl'', ''discovery_retry'', ''discovery_wait'', ''discovery_timeout'', ''discovery_max''} \<Longrightarrow>
      discovery_tuned st"
proof -
  note last = run_lines_last [OF _ assms]
  show "''cache_ttl'' \<in> fst ` set ls \<Longrightarrow> o_cacheTTLOn st"
    by (rule last [OF _ untouched_fields(2)]) (auto dest: tuning_lines)
  show "''reload'' \<in> fst ` set ls \<Longrightarrow> o_reloadOn st"
    by (rule last [OF _ untouched_fields(3)]) (auto dest: tuning_lines)
  note set = last [where P = "\<lambda>x. x \<noteq> None"]
  have tuned: "''discovery_ttl'' \<in> fst ` set ls \<Longrightarrow> o_discoveryTTL st \<noteq> None"
    "''discovery_retry'' \<in> fst ` set ls \<Longrightarrow> o_discoveryRetry st \<noteq> None"
    "''discovery_wait'' \<in> fst ` set ls \<Longrightarrow> o_discoveryWait st \<noteq> None"
    "''discovery_timeout'' \<in> fst ` set ls \<Longrightarrow> o_discoveryTimeout st \<noteq> None"
    "''discovery_max'' \<in> fst ` set ls \<Longrightarrow> o_discoveryMax st \<noteq> None"
    by (erule set, rule untouched_fields, erule tuning_lines)+
  assume "t \<in> fst ` set ls"
    and "t \<in> {''discovery_ttl'', ''discovery_retry'', ''discovery_wait'', ''discovery_timeout'', ''discovery_max''}"
  then show "discovery_tuned st"
    unfolding discovery_tuned_def by (elim insertE emptyE) (metis tuned)+
qed

lemma finish_needs:
  assumes "finish env st = Inr cfg"
  shows "o_profile st \<noteq> []" and "o_cacheTTLOn st \<Longrightarrow> o_cacheOn st"
    and "o_reloadOn st \<Longrightarrow> has_source (o_devices st)" and "discovery_tuned st \<Longrightarrow> o_discovery st \<noteq> None"
proof -
  obtain d where d: "tune_discovery st = Inr d" and "o_profile st \<noteq> []" "o_cacheTTLOn st \<longrightarrow> o_cacheOn st"
    "o_reloadOn st \<longrightarrow> has_source (o_devices st)"
    using assms by (auto simp: finish_def split: if_splits sum.splits)
  then show "o_profile st \<noteq> []" "o_cacheTTLOn st \<Longrightarrow> o_cacheOn st" "o_reloadOn st \<Longrightarrow> has_source (o_devices st)"
    by simp_all
  show "discovery_tuned st \<Longrightarrow> o_discovery st \<noteq> None"
    using d by (cases "o_discovery st") (simp_all add: tune_discovery_def discovery_tuned_def split: if_splits)
qed

section \<open>Shared bootstrap addresses\<close>

lemma parse_bootstrap_plain:
  "\<forall>b \<in> set bs. ParseIP b \<noteq> None \<and> TrimSpace b = b \<Longrightarrow> parse_bootstrap s bs = Inr bs"
proof (induction bs)
  case (Cons b bs)
  have "b \<noteq> []" using Cons.prems by (auto simp: ParseIP_def ParseAddr_def)
  with Cons show ?case by (simp add: Let_def)
qed simp

lemma parseEndpoint_shared:
  assumes "CHR ''#'' \<notin> set e" and "bs \<noteq> []"
    and "\<forall>b \<in> set bs. ParseIP b \<noteq> None \<and> TrimSpace b = b \<and> CHR '','' \<notin> set b"
    and "parseEndpoint up (e @ ''#'' @ Join bs '','') = Inr ep"
  shows "ep_bootstrap ep = bs"
proof -
  let ?s = "e @ ''#'' @ Join bs '',''"
  have tw: "takeWhile (\<lambda>x. x \<noteq> CHR ''#'') ?s = e"
    using assms(1) by (subst takeWhile_append2) auto
  then have i: "IndexByte ?s CHR ''#'' = int (length e)" unfolding IndexByte_def by simp
  have d: "drop (nat (IndexByte ?s CHR ''#'') + 1) ?s = Join bs '',''" unfolding i by simp
  have "parse_bootstrap ?s (Split CHR '','' (Join bs '','')) = Inr bs"
    using parse_bootstrap_plain [of bs ?s] Split_Join [OF assms(2), of "CHR '',''"] assms(3) by simp
  then show ?thesis
    using assms(4) unfolding parseEndpoint_def Let_def d unfolding i by (auto split: sum.splits if_splits)
qed

lemma make_endpoints_nth:
  assumes "make_endpoints up specs = Inr eps" and "i < length specs"
  shows "\<exists>ep. parseEndpoint up (specs ! i) = Inr ep \<and> (ep_bootstrap ep \<noteq> [] \<longrightarrow> eps ! i = ep)"
  using assms
proof (induction specs arbitrary: eps i)
  case (Cons s specs)
  obtain ep where e: "parseEndpoint up s = Inr ep" using Cons.prems by (auto split: sum.splits)
  obtain eps' where r: "make_endpoints up specs = Inr eps'"
    using Cons.prems e by (auto simp: Let_def split: sum.splits)
  have "eps = (if length (ep_bootstrap ep) = 0
      then ep\<lparr>ep_bootstrap := case map_of wellKnownBootstrap (ep_host ep) of None \<Rightarrow> [] | Some b \<Rightarrow> b\<rparr> else ep) # eps'"
    using Cons.prems(1) e r by (auto simp: Let_def)
  then show ?case using e Cons.IH [OF r] Cons.prems(2) by (cases i) auto
qed simp

section \<open>A concrete Corefile\<close>

text \<open>A controller that reads a directive as a list of lines, each a list of words.\<close>

record corefile =
  cf_started :: bool
  cf_val :: string
  cf_rest :: "string list"
  cf_lines :: "string list list"

definition lines_controller :: "corefile controller" where
  "lines_controller =
     \<lparr>ct_Next = (\<lambda>c. if cf_started c then (False, c) else (True, c\<lparr>cf_started := True\<rparr>)),
      ct_NextBlock = (\<lambda>c. case cf_lines c of [] \<Rightarrow> (False, c)
        | l # ls \<Rightarrow> (True, c\<lparr>cf_val := hd l, cf_rest := tl l, cf_lines := ls\<rparr>)),
      ct_NextArg = (\<lambda>c. case cf_rest c of [] \<Rightarrow> (False, c)
        | w # ws \<Rightarrow> (True, c\<lparr>cf_val := w, cf_rest := ws\<rparr>)),
      ct_RemainingArgs = (\<lambda>c. (cf_rest c, c\<lparr>cf_rest := []\<rparr>)),
      ct_Val = cf_val\<rparr>"

definition corefile_left :: "corefile \<Rightarrow> nat" where
  "corefile_left c = length (cf_rest c) + (\<Sum>l\<leftarrow>cf_lines c. Suc (length l))"

lemma lines_controller_dispenses: "dispenses lines_controller corefile_left"
  by (auto simp: dispenses_def lines_controller_def corefile_left_def split: list.splits)

lemma lines_controller_ends: "\<not> stands lines_controller corefile_left c"
  by (auto simp: stands_def lines_controller_def corefile_left_def split: list.splits)

text \<open>
  A controller over the words of a file and their lines, the current word first, for which a
  closing brace ends a block and nothing else does.
\<close>

definition words_controller :: "(nat \<times> string) list controller" where
  "words_controller =
     (let step = (\<lambda>c. if length c < 2 then c else tl c);
          same = (\<lambda>c. takeWhile (\<lambda>w. fst w = fst (hd c)) (tl c))
      in \<lparr>ct_Next = (\<lambda>c. (2 \<le> length c, step c)),
          ct_NextBlock = (\<lambda>c. (snd (hd (step c)) \<noteq> ''}'', step c)),
          ct_NextArg = (\<lambda>c. if same c = [] then (False, c) else (True, step c)),
          ct_RemainingArgs = (\<lambda>c. (map snd (same c), drop (length (same c)) c)),
          ct_Val = (\<lambda>c. snd (hd c))\<rparr>)"

definition words_left :: "(nat \<times> string) list \<Rightarrow> nat" where
  "words_left c = length c - 1"

lemma words_controller_dispenses: "dispenses words_controller words_left"
proof -
  have "takeWhile P (tl c) = []" if "length c - 1 = 0" for P and c :: "(nat \<times> string) list"
    using that by (cases c) auto
  then show ?thesis by (auto simp: dispenses_def words_controller_def words_left_def Let_def)
qed

definition sample_env :: environment where
  "sample_env = \<lparr>en_fraction = (\<lambda>_ _ _. 0), en_HostPort = (\<lambda>a p. Inr (a @ '':'' @ p)), en_url_parse = sample_url\<rparr>"

definition sample_lines :: "line list" where
  "sample_lines = [(''cache_ttl'', [''5s'', ''1h30m'']), (''cache'', [''100'']),
     (''client_profile'', [''10.0.0.0/8'', ''wide1'']), (''client_profile'', [''10.0.0.0/24'', ''-'']),
     (''timeout'', [''2s'']), (''discovery'', [''internal'']), (''discovery_ttl'', [''10m''])]"

definition sample_corefile :: corefile where
  "sample_corefile = \<lparr>cf_started = False, cf_val = ''nextdns'', cf_rest = [''abc123''],
     cf_lines = map (\<lambda>l. fst l # snd l) sample_lines\<rparr>"

lemma sample_delivers: "delivers_directive sample_env lines_controller sample_corefile [''abc123''] sample_lines"
  by (simp add: delivers_directive_def sample_corefile_def sample_lines_def lines_controller_def rules_def)

lemma sample_accepted: "is_ok (configure sample_env [''abc123''] sample_lines)"
  by code_simp

lemma sample_parse:
  obtains cfg where "configure sample_env [''abc123''] sample_lines = Inr cfg"
    and "parseNextDNS sample_env lines_controller sample_corefile = Some (Inr cfg)"
  using sample_accepted parseNextDNS_configure [OF sample_delivers] by (auto simp: is_ok_iff)

section \<open>Properties\<close>

text \<open>
  Property C5. Whatever the Corefile says and however it is delivered, an instance that the
  parser returns is well configured: every profile it can route to is valid, the client
  subnets are sorted by length, there is an endpoint and every bootstrap address is a literal
  IP, the lifetimes of the cache are in order and the cache is empty, the device model can be
  a header, a device ID that needs MAC addresses has a source of them, no limit is negative,
  and every duration of the discoverer is positive, except that it may wait for no time.
\<close>

theorem accepted_configurations_are_valid:
  assumes "parseNextDNS env k c = Some (Inr cfg)"
  shows "config_ok cfg"
  by (rule accepted_config_ok [OF assms])

theorem accepted_configurations_are_valid_witness:
  "\<exists>cfg. parseNextDNS sample_env lines_controller sample_corefile = Some (Inr cfg) \<and> config_ok cfg"
proof -
  obtain cfg where c: "parseNextDNS sample_env lines_controller sample_corefile = Some (Inr cfg)"
    by (rule sample_parse)
  from accepted_configurations_are_valid [OF c] c show ?thesis by blast
qed

text \<open>
  Property C14. The parser returns, with an instance or an error, unless the controller, at the end
  of its tokens, keeps offering one of the three properties that may stand without arguments:
  every other property is an error there. Standing still on one of those three, the
  loop never returns, as the parser has no guard of its own.
\<close>

theorem parser_returns:
  assumes "dispenses k left"
  shows "((\<exists>r. parseNextDNS env k c = Some r) \<or> (\<exists>c'. reaches k c c' \<and> stands k left c'))
    \<and> (\<forall>c' st. stands_still k c' \<longrightarrow> parse_block env k c' st = None)"
proof -
  have seen: "\<exists>r. parse_tokens env k True c st = Some r" for c st
    by (cases "ct_Next k c") (simp add: parse_tokens.simps [of env k True c])
  obtain more c1 where n: "ct_Next k c = (more, c1)" by (metis surj_pair)
  have "(\<exists>r. parse_tokens env k False c parse_start = Some r) \<or> (\<exists>c'. reaches k c c' \<and> stands k left c')"
  proof (cases "more \<and> is_ok (parse_args k c1 parse_start)")
    case True
    then obtain c2 st2 where a: "parse_args k c1 parse_start = Inr (c2, st2)" by (auto simp: is_ok_iff)
    then have c2: "c2 = snd (ct_RemainingArgs k c1)"
      by (auto simp: parse_args_def with_state_def Let_def split: prod.splits if_splits sum.splits)
    have "reaches k c c1" using reaches.another [OF reaches.here, of k c] n by simp
    then have "reaches k c c2" unfolding c2 by (rule reaches.args)
    then consider r where "parse_block env k c2 st2 = Some r" | c' where "reaches k c c'" "stands k left c'"
    proof -
      from parse_block_returns [OF assms, of env c2 st2]
      show thesis using that reaches_trans [OF _ \<open>reaches k c c2\<close>] by meson
    qed
    then show ?thesis
    proof cases
      case (1 r)
      show ?thesis
      proof (cases r)
        case (Inr q)
        obtain c3 st3 where q: "q = (c3, st3)" by (metis surj_pair)
        then show ?thesis
          using seen [of c3 st3] True n a 1 Inr by (simp add: parse_tokens.simps [of env k False c])
      qed (use True n a 1 in \<open>simp add: parse_tokens.simps [of env k False c]\<close>)
    qed blast
  next
    case False
    with n show ?thesis
      by (cases "parse_args k c1 parse_start") (auto simp: parse_tokens.simps [of env k False c])
  qed
  then have "(\<exists>r. parseNextDNS env k c = Some r) \<or> (\<exists>c'. reaches k c c' \<and> stands k left c')"
    unfolding parseNextDNS_def by fastforce
  moreover have "\<forall>c' st. stands_still k c' \<longrightarrow> parse_block env k c' st = None"
    by (intro allI impI) (rule parse_block_hangs)
  ultimately show ?thesis ..
qed

theorem parser_returns_witness:
  "(\<exists>r. parseNextDNS sample_env lines_controller sample_corefile = Some r)
   \<and> parse_block sample_env words_controller [(2, ''cache'')] parse_start = None"
proof -
  have "stands_still words_controller [(2, ''cache'')]" by (simp add: stands_still_def words_controller_def)
  then show ?thesis
    using parser_returns [OF lines_controller_dispenses] lines_controller_ends
      parser_returns [OF words_controller_dispenses] by blast
qed

text \<open>
  Property C26. The parser does what the lines of the block do one after the other: through a
  controller that delivers a directive with its arguments and lines, the token loops compute
  exactly \<open>configure\<close>, errors included.
\<close>

theorem parser_runs_the_lines:
  assumes "delivers_directive env k c args ls"
  shows "parseNextDNS env k c = Some (configure env args ls)"
  by (rule parseNextDNS_configure [OF assms])

theorem parser_runs_the_lines_witness:
  "parseNextDNS sample_env lines_controller sample_corefile = Some (configure sample_env [''abc123''] sample_lines)"
  by (rule parser_runs_the_lines [OF sample_delivers])

text \<open>
  Property C13. The options may appear in any order: reordering the lines of an accepted block
  in any way that keeps the order among the lines of the same property gives the very same
  instance, so that tuning may come before what it tunes.
\<close>

theorem option_order_is_irrelevant:
  assumes "\<forall>name. filter (\<lambda>l. fst l = name) ls' = filter (\<lambda>l. fst l = name) ls"
    and "configure env args ls = Inr cfg"
  shows "configure env args ls' = Inr cfg"
proof -
  have "run_lines env ls' st = Inr st'" if "run_lines env ls st = Inr st'" for st st'
    using that assms(1)
  proof (induction ls' arbitrary: ls st)
    case Nil
    then have "ls = []" by (cases ls) (auto, metis list.distinct(1))
    with Nil show ?case by simp
  next
    case (Cons l ls')
    have f: "filter (\<lambda>x. fst x = fst l) ls = l # filter (\<lambda>x. fst x = fst l) ls'"
      by (simp add: Cons.prems(2) [rule_format, symmetric])
    then obtain as bs where ls: "ls = as @ l # bs" and "\<forall>x \<in> set as. fst x \<noteq> fst l"
      by (auto simp: filter_eq_Cons_iff)
    then have as: "fst l \<notin> fst ` set as" by force
    have "run_lines env (l # as @ bs) st = Inr st'"
      using run_lines_front [OF as] Cons.prems(1) ls by blast
    then obtain st1 where 1: "run_line env l st = Inr st1" and r: "run_lines env (as @ bs) st1 = Inr st'"
      by (auto split: sum.splits)
    have "\<forall>name. filter (\<lambda>x. fst x = name) ls' = filter (\<lambda>x. fst x = name) (as @ bs)"
    proof
      fix name
      show "filter (\<lambda>x. fst x = name) ls' = filter (\<lambda>x. fst x = name) (as @ bs)"
      proof (cases "fst l = name")
        case True
        then have "filter (\<lambda>x. fst x = name) as = []" using as unfolding filter_empty_conv by (metis imageI)
        with True f ls show ?thesis by simp
      next
        case False
        with Cons.prems(2) [rule_format, of name] ls show ?thesis by simp
      qed
    qed
    from Cons.IH [OF r this] 1 show ?case by simp
  qed
  moreover obtain st0 st where "run_lines env (if args = [] then [] else [(''profile'', args)]) parse_start = Inr st0"
    and "run_lines env ls st0 = Inr st" and fin: "finish env st = Inr cfg"
    using configure_Inr [OF assms(2)] by blast
  ultimately have "run_lines env (if args = [] then ls' else (''profile'', args) # ls') parse_start = Inr st"
    by (cases "args = []") (auto split: sum.splits)
  with assms(2) fin show ?thesis by (simp add: configure_def split: if_splits)
qed

theorem option_order_is_irrelevant_witness:
  "\<exists>cfg. configure sample_env [''abc123''] sample_lines = Inr cfg \<and>
     configure sample_env [''abc123''] (drop 4 sample_lines @ take 4 sample_lines) = Inr cfg"
proof -
  obtain cfg where c: "configure sample_env [''abc123''] sample_lines = Inr cfg" by (rule sample_parse)
  have "\<forall>name. filter (\<lambda>l. fst l = name) (drop 4 sample_lines @ take 4 sample_lines) =
      filter (\<lambda>l. fst l = name) sample_lines"
    by (auto simp: sample_lines_def)
  from option_order_is_irrelevant [OF this c] c show ?thesis by blast
qed

text \<open>
  An option that only tunes a feature is an error without it, wherever the two
  stand: an accepted block has a profile, a cache for its \<open>cache_ttl\<close>, a device source for its
  \<open>reload\<close>, and \<open>discovery\<close> for any of the \<open>discovery_*\<close> options.
\<close>

theorem tuning_needs_its_feature:
  assumes "configure env args ls = Inr cfg"
  shows "(args = [] \<longrightarrow> ''profile'' \<in> fst ` set ls) \<and>
    (''cache_ttl'' \<in> fst ` set ls \<longrightarrow> ''cache'' \<in> fst ` set ls) \<and>
    (''reload'' \<in> fst ` set ls \<longrightarrow> ''arp'' \<in> fst ` set ls \<or> ''device_names'' \<in> fst ` set ls) \<and>
    (\<forall>t \<in> {''discovery_ttl'', ''discovery_retry'', ''discovery_wait'', ''discovery_timeout'', ''discovery_max''}.
       t \<in> fst ` set ls \<longrightarrow> ''discovery'' \<in> fst ` set ls)"
proof -
  obtain st0 st where h: "run_lines env (if args = [] then [] else [(''profile'', args)]) parse_start = Inr st0"
    and r: "run_lines env ls st0 = Inr st" and f: "finish env st = Inr cfg"
    using configure_Inr [OF assms] by blast
  note feature = feature_has_line [OF h r] and tuning = tuning_has_effect [OF r] and needs = finish_needs [OF f]
  have P: "''profile'' \<in> fst ` set ls" if "args = []"
    using feature(4) that needs(1) by blast
  have C: "''cache'' \<in> fst ` set ls" if "''cache_ttl'' \<in> fst ` set ls"
    using feature(1) needs(2) tuning(1) [OF that] by blast
  have R: "''arp'' \<in> fst ` set ls \<or> ''device_names'' \<in> fst ` set ls" if "''reload'' \<in> fst ` set ls"
    using feature(2) needs(3) tuning(2) [OF that] by blast
  have D: "''discovery'' \<in> fst ` set ls" if "t \<in> fst ` set ls"
    and "t \<in> {''discovery_ttl'', ''discovery_retry'', ''discovery_wait'', ''discovery_timeout'', ''discovery_max''}" for t
    using feature(3) needs(4) tuning(3) [OF that] by blast
  show ?thesis by (intro conjI ballI impI) (fact P, fact C, fact R, rule D)
qed

theorem tuning_needs_its_feature_witness:
  "\<exists>cfg. configure sample_env [''abc123''] sample_lines = Inr cfg \<and> ''cache'' \<in> fst ` set sample_lines \<and>
     ''discovery'' \<in> fst ` set sample_lines"
proof -
  obtain cfg where c: "configure sample_env [''abc123''] sample_lines = Inr cfg" by (rule sample_parse)
  have "''cache_ttl'' \<in> fst ` set sample_lines" "''discovery_ttl'' \<in> fst ` set sample_lines"
    by (simp_all add: sample_lines_def)
  with tuning_needs_its_feature [OF c] c show ?thesis by blast
qed

text \<open>
  A bare \<open>bootstrap\<close> reaches every endpoint that did not bring its own, the
  default endpoint included, and no other: an endpoint with a \<open>#\<close> is parsed as it was
  written.
\<close>

theorem bootstrap_is_shared:
  assumes "bs \<noteq> []" and "\<forall>b \<in> set bs. ParseIP b \<noteq> None \<and> TrimSpace b = b \<and> CHR '','' \<notin> set b"
    and "newDOHClient up \<lparr>do_endpoints = applyBootstrap eps bs, do_timeout = t, do_tlsServerName = sn,
      do_maxIdleConns = k\<rparr> = Inr c"
  shows "length (dh_endpoints c) = max 1 (length eps) \<and>
    (eps = [] \<longrightarrow> ep_bootstrap (dh_endpoints c ! 0) = bs) \<and>
    (\<forall>i < length eps.
       if CHR ''#'' \<in> set (eps ! i) then applyBootstrap eps bs ! i = eps ! i
       else ep_bootstrap (dh_endpoints c ! i) = bs)"
proof -
  let ?eps = "if eps = [] then [''https://dns.nextdns.io''] else eps"
  let ?specs = "applyBootstrap eps bs"
  have specs: "?specs = map (\<lambda>e. if CHR ''#'' \<notin> set e then e @ ''#'' @ Join bs '','' else e) ?eps"
    using assms(1) by (simp add: applyBootstrap_def)
  then have "?specs \<noteq> []" by simp
  then have m: "make_endpoints up ?specs = Inr (dh_endpoints c)"
    using assms(3) by (auto simp: newDOHClient_def Let_def split: sum.splits)
  have len: "length (dh_endpoints c) = length ?eps" using make_endpoints_ok [OF m] specs by simp
  have shared: "ep_bootstrap (dh_endpoints c ! i) = bs" if i: "i < length ?eps" and "CHR ''#'' \<notin> set (?eps ! i)" for i
  proof -
    have "?specs ! i = ?eps ! i @ ''#'' @ Join bs '',''" using that by (simp add: specs)
    moreover obtain ep where "parseEndpoint up (?specs ! i) = Inr ep"
      and "ep_bootstrap ep \<noteq> [] \<longrightarrow> dh_endpoints c ! i = ep"
      using make_endpoints_nth [OF m, of i] i specs by auto
    ultimately show ?thesis using parseEndpoint_shared [OF that(2) assms(1,2), of up] assms(1) by auto
  qed
  show ?thesis
  proof (cases "eps = []")
    case True
    then show ?thesis using len shared [of 0] by simp
  next
    case False
    then have "1 \<le> length eps" by (simp add: Suc_leI)
    then show ?thesis using False len shared by (simp add: specs)
  qed
qed

theorem bootstrap_is_shared_witness:
  "\<exists>c. newDOHClient sample_url \<lparr>do_endpoints = applyBootstrap [''https://a.example'', ''https://b.example#9.9.9.9'']
       [''1.1.1.1'', ''2606:4700::'' ], do_timeout = 0, do_tlsServerName = [],
      do_maxIdleConns = 0\<rparr> = Inr c \<and>
     ep_bootstrap (dh_endpoints c ! 0) = [''1.1.1.1'', ''2606:4700::''] \<and> length (dh_endpoints c) = 2"
proof -
  let ?bs = "[''1.1.1.1'', ''2606:4700::'']" and ?eps = "[''https://a.example'', ''https://b.example#9.9.9.9'']"
  have bs: "\<forall>b \<in> set ?bs. ParseIP b \<noteq> None \<and> TrimSpace b = b \<and> CHR '','' \<notin> set b" by code_simp
  have "is_ok (newDOHClient sample_url \<lparr>do_endpoints = applyBootstrap ?eps ?bs, do_timeout = 0, do_tlsServerName = [],
      do_maxIdleConns = 0\<rparr>)" by code_simp
  then obtain c where c: "newDOHClient sample_url \<lparr>do_endpoints = applyBootstrap ?eps ?bs, do_timeout = 0, do_tlsServerName = [],
      do_maxIdleConns = 0\<rparr> = Inr c"
    by (auto simp: is_ok_iff)
  from bootstrap_is_shared [OF _ bs c] have "length (dh_endpoints c) = 2" and "ep_bootstrap (dh_endpoints c ! 0) = ?bs"
    by simp_all
  with c show ?thesis by blast
qed

text \<open>
  When the startup of a block that loads the cache plugin is silent, the cache
  plugin cannot leak answers between routes there: all queries of the block without a valid
  label from another plugin are routed alike.
\<close>

theorem silent_startup_routes_alike:
  assumes "routing_ok n" and "startup_warning view True n = None"
    and "label = None \<or> label = Some p \<and> validRoute p \<noteq> None"
    and "label' = None \<or> label' = Some p' \<and> validRoute p' \<noteq> None"
  shows "fst (profileFor label view n st) = fst (profileFor label' view n st')"
proof -
  have "length (reachableRoutes view n) \<le> 1"
    using assms(2) by (simp add: startup_warning_def Let_def split: if_splits)
  then have "x = y" if "x \<in> set (reachableRoutes view n)" "y \<in> set (reachableRoutes view n)" for x y
    using that by (cases "reachableRoutes view n") auto
  then have "configured_route view n st = configured_route view n st'"
    using configured_route_reachable [OF assms(1)] by blast
  then show ?thesis using assms(3,4) by (auto simp: profileFor_def)
qed

theorem silent_startup_routes_alike_witness:
  "startup_warning ''guests'' True sample_routing = None \<and>
   fst (profileFor None ''guests'' sample_routing sample_query) = fst (profileFor (Some ''no'') ''guests'' sample_routing sample_query)"
proof -
  have s: "startup_warning ''guests'' True sample_routing = None" and v: "validRoute ''no'' \<noteq> None" by code_simp+
  show ?thesis
    using silent_startup_routes_alike [OF sample_routing_ok s, of None _ "Some ''no''" "''no''" sample_query sample_query] s v
    by simp
qed

end
