(* ===== verification/Plugin.thy ===== *)
theory Plugin
  imports System Setup
begin

text \<open>
  The plugin as a whole: the running system of \<open>System\<close> with the discoverer of \<open>Discovery\<close> and
  the device table of \<open>Device\<close> in it, each moving only as its own code moves it, started from
  what the parser returns. The invariants of the components hold side by side, so that
  everything the plugin keeps stays within a bound that the configuration fixes.
\<close>

section \<open>The components' own steps\<close>

definition discovery_moves :: "world option \<Rightarrow> world option \<Rightarrow> bool" where
  "discovery_moves d d' \<longleftrightarrow> rel_option (\<lambda>w w'. \<exists>n. Discovery.runs w n w') d d'"

definition device_moves :: "deviceDB \<Rightarrow> deviceDB \<Rightarrow> bool" where
  "device_moves db db' \<longleftrightarrow> db' = db \<or> (\<exists>visit victim fs. db' = fst (refresh visit victim fs db))"

definition plugin_step :: "world option services \<Rightarrow> world option system \<Rightarrow> world option system \<Rightarrow> bool" where
  "plugin_step sv s s' \<longleftrightarrow> sys_step sv s s' \<and> discovery_moves (sy_d s) (sy_d s')
     \<and> device_moves (n_devices (sy_n s)) (n_devices (sy_n s'))"

abbreviation plugin_runs :: "world option services \<Rightarrow> world option system \<Rightarrow> world option system \<Rightarrow> bool" where
  "plugin_runs sv \<equiv> (plugin_step sv)\<^sup>*\<^sup>*"

text \<open>The system as \<open>setup\<close> leaves it, with the discoverer if discovery is configured.\<close>

definition loaded :: "configured \<Rightarrow> world option system" where
  "loaded cfg = booted (cg_nextdns cfg) (map_option (\<lambda>(d, r). world_of d) (cg_discovery cfg))"

text \<open>
  A query asks the discoverer as the handler does: \<open>meanwhile\<close> is what other queries and
  lookups do to it while this one is held.
\<close>

definition asks_discoverer :: "world option services \<Rightarrow> bool" where
  "asks_discoverer sv \<longleftrightarrow>
     (\<exists>now meanwhile wk. sv_discover sv = discover_name now meanwhile wk \<and> (\<forall>w. \<exists>n. Discovery.runs w n (meanwhile w)))"

section \<open>Queries move the discoverer as its own code does\<close>

lemma runs_one: "moves w k w' \<Longrightarrow> Discovery.runs w k w'"
  using runs.more [OF runs.stop] by fastforce

lemma runs_trans:
  assumes "Discovery.runs w' m w''" and "Discovery.runs w n w'"
  shows "Discovery.runs w (n + m) w''"
  using assms
proof (induction rule: runs.induct)
  case (more u k u' j u'')
  from runs.more [OF more.IH [OF more.prems] more.hyps(2)] show ?case by (simp add: add.assoc)
qed simp

lemma discovery_moves_refl [simp]: "discovery_moves d d"
  by (cases d) (auto simp: discovery_moves_def intro: runs.stop)

lemma discover_moves:
  assumes "asks_discoverer sv"
  shows "discovery_moves d (snd (sv_discover sv mh a d))"
proof (cases d)
  case (Some w)
  from assms obtain now meanwhile wk where sv: "sv_discover sv = discover_name now meanwhile wk"
    and m: "\<And>w. \<exists>n. Discovery.runs w n (meanwhile w)"
    unfolding asks_discoverer_def by blast
  let ?w1 = "query_step now mh a w"
  have q: "Discovery.runs w 0 ?w1" by (rule runs_one) (rule moves.query)
  show ?thesis
  proof (cases "fst (name_locked now mh (w_next w) a (w_disc w))")
    case (Answer s)
    with q Some show ?thesis by (auto simp: sv discover_name_def discovery_moves_def Let_def)
  next
    case (Hold c)
    obtain n where r: "Discovery.runs ?w1 n (meanwhile ?w1)" using m by blast
    let ?w2 = "meanwhile ?w1"
    have "\<exists>k. Discovery.runs ?w2 k (?w2\<lparr>w_holds := remove1 (c, a) (w_holds ?w2)\<rparr>)"
    proof (cases "(c, a) \<in> set (w_holds ?w2)")
      case True
      then show ?thesis using runs_one [OF moves.leave] by blast
    next
      case False
      then have "?w2\<lparr>w_holds := remove1 (c, a) (w_holds ?w2)\<rparr> = ?w2" by (simp add: remove1_idem)
      then show ?thesis by (metis runs.stop)
    qed
    then show ?thesis
      using runs_trans [OF _ runs_trans [OF r q]] Hold Some
      by (auto simp: sv discover_name_def discovery_moves_def Let_def)
  qed
qed (use assms in \<open>auto simp: asks_discoverer_def discover_name_def\<close>)

lemma look_up_moves: "asks_discoverer sv \<Longrightarrow> discovery_moves d (snd (look_up sv mh p q n d))"
  using look_up_state [of sv mh p q n d] discover_moves by fastforce

lemma arrive_moves:
  assumes "arrive sv q (n, d) = (r, n', d')" and "asks_discoverer sv"
  shows "discovery_moves d d'"
  using assms(1) by (cases rule: arrive_cases) (simp_all add: look_up_moves [OF assms(2)])

lemma identify_moves:
  assumes "identify sv p q n d = (ci, pub, d')" and "asks_discoverer sv"
  shows "discovery_moves d d'"
  using assms(1) look_up_moves [OF assms(2), of d True p q n] by (auto simp: identify_def split: prod.splits)

lemma serve_upstream_devices:
  "serve_upstream sv p q ci n = ((res, evs), n') \<Longrightarrow> n_devices n' = n_devices n"
  by (auto simp: serve_upstream_def put_reply_def reply_def Let_def split: prod.splits option.splits if_splits)

text \<open>So the steps of a query are steps of the plugin.\<close>

lemma query_steps_are_plugin_steps:
  assumes "asks_discoverer sv'" and "same_library sv sv'"
  shows "arrive sv' q (sy_n s, sy_d s) = (Inr (p, evs), n, d) \<Longrightarrow>
      plugin_step sv s (s\<lparr>sy_n := n, sy_d := d, sy_asking := (q, p) # sy_asking s, sy_log := sy_log s @ evs\<rparr>)"
    and "arrive sv' q (sy_n s, sy_d s) = (Inl (res, evs), n, d) \<Longrightarrow>
      plugin_step sv s (s\<lparr>sy_n := n, sy_d := d, sy_log := sy_log s @ evs, sy_results := res # sy_results s\<rparr>)"
  using missed [OF assms(2), of q s p evs n d] answered [OF assms(2), of q s res evs n d] arrive_moves [OF _ assms(1)]
    arrive_frame
  by (fastforce simp: plugin_step_def device_moves_def)+

section \<open>Everything within bounds\<close>

lemma offers_capacity:
  "capacity (mc_c (mcache.offers h f xs mc)) = capacity (mc_c mc)"
  by (induction xs arbitrary: mc) (auto simp: cache_put_def capacity_Add Let_def)

lemma discovery_moves_ok: "discovery_moves d d' \<Longrightarrow> pred_option world_ok d \<Longrightarrow> pred_option world_ok d'"
  by (cases d; cases d') (auto simp: discovery_moves_def intro: world_ok_runs)

lemma device_moves_ok:
  "device_moves db db' \<Longrightarrow> db_ok db \<Longrightarrow> db_ok db' \<and> db_maxBindings db' = db_maxBindings db"
  using config_refresh [of _ _ _ db] by (auto simp: device_moves_def db_ok_refresh config_of_def)

lemma dc_max_moves: "moves w k w' \<Longrightarrow> dc_max (w_disc w') = dc_max (w_disc w)"
proof (erule movesE)
  fix now mh a assume "w' = query_step now mh a w"
  then show ?thesis by (auto simp: query_step_def name_locked_def Let_def split: option.splits prod.splits outcome.splits)
next
  fix i v now r assume "w' = lookup_step v now r i w"
  then show ?thesis
    by (auto simp: lookup_step_def lookup_advance_def record_result_def clear_inflight_def Discovery.store_def Let_def
        split: prod.splits phase.splits Discovery.result.splits)
qed (simp_all add: drain_step_def)

lemma dc_max_runs: "Discovery.runs w n w' \<Longrightarrow> dc_max (w_disc w') = dc_max (w_disc w)"
  by (induction rule: runs.induct) (auto dest: dc_max_moves)

text \<open>The device table and the discoverer in every state the plugin reaches.\<close>

definition kept_within :: "int \<Rightarrow> int option \<Rightarrow> world option system \<Rightarrow> bool" where
  "kept_within b m s \<longleftrightarrow> db_ok (n_devices (sy_n s)) \<and> db_maxBindings (n_devices (sy_n s)) = b
     \<and> pred_option world_ok (sy_d s) \<and> map_option (\<lambda>w. dc_max (w_disc w)) (sy_d s) = m"

lemma kept_within_step:
  assumes "plugin_step sv s s'" and "kept_within b m s"
  shows "kept_within b m s'"
proof -
  have d: "discovery_moves (sy_d s) (sy_d s')" and db: "device_moves (n_devices (sy_n s)) (n_devices (sy_n s'))"
    using assms(1) by (simp_all add: plugin_step_def)
  have "map_option (\<lambda>w. dc_max (w_disc w)) (sy_d s') = map_option (\<lambda>w. dc_max (w_disc w)) (sy_d s)"
    using d by (cases "sy_d s"; cases "sy_d s'") (auto simp: discovery_moves_def dest: dc_max_runs)
  with device_moves_ok [OF db] discovery_moves_ok [OF d] assms(2) show ?thesis by (simp add: kept_within_def)
qed

lemma plugin_runs_sys: "plugin_runs sv s s' \<Longrightarrow> runs_to sv s s'"
  by (induction rule: rtranclp_induct) (auto simp: plugin_step_def intro: rtranclp.rtrancl_into_rtrancl)

lemma kept_within_runs: "plugin_runs sv s s' \<Longrightarrow> kept_within b m s \<Longrightarrow> kept_within b m s'"
  by (induction rule: rtranclp_induct) (auto intro: kept_within_step)

lemma w_disc_world_of: "w_disc (world_of d) = d"
  by (simp add: world_of_def)

lemma loaded_kept_within:
  assumes "config_ok cfg"
  shows "kept_within maxBindings (map_option (dc_max \<circ> fst) (cg_discovery cfg)) (loaded cfg)"
  using assms
  by (cases "cg_discovery cfg")
    (auto simp: config_ok_def Let_def db_config_ok_def kept_within_def loaded_def booted_def db_ok_def maxBindings_def
      discovery_config_ok_def world_ok_start w_disc_world_of)

section \<open>Properties\<close>

text \<open>
  Property C8. Everything the plugin keeps is bounded by its configuration, whatever it is asked
  and whatever the network, the sources and the resolvers answer: the queries upstream, the
  answers cached, the remembered hardware addresses, the names discovered, and the reverse
  lookups running, which the wait group counts exactly.
\<close>

theorem plugin_is_bounded:
  assumes "parseNextDNS env k c = Some (Inr cfg)" and "plugin_runs sv (loaded cfg) s"
  shows "(0 < n_maxConcurrent (cg_nextdns cfg) \<longrightarrow> int (length (sy_upstream s)) \<le> n_maxConcurrent (cg_nextdns cfg)) \<and>
    (\<forall>mc. n_cache (sy_n s) = Some mc \<longrightarrow>
       (\<exists>mc0. n_cache (cg_nextdns cfg) = Some mc0 \<and> total (mc_c mc) \<le> capacity (mc_c mc0))) \<and>
    int (length (db_bindings (n_devices (sy_n s)))) \<le> maxBindings \<and>
    (\<forall>w. sy_d s = Some w \<longrightarrow> int (length (dc_inflight (w_disc w))) \<le> 64 \<and> dc_wg (w_disc w) = int (length (w_lookups w)) \<and>
       (\<exists>d r. cg_discovery cfg = Some (d, r) \<and> int (length (dc_entries (w_disc w))) \<le> dc_max d))"
proof -
  have cfg: "config_ok cfg" by (rule accepted_config_ok [OF assms(1)])
  have run: "runs_to sv (booted (cg_nextdns cfg) (map_option (\<lambda>(d, r). world_of d) (cg_discovery cfg))) s"
    using plugin_runs_sys [OF assms(2)] by (simp add: loaded_def)
  have "n_concurrent (cg_nextdns cfg) = 0" using cfg by (simp add: config_ok_def Let_def)
  from slots_inv_runs [OF run this] have slots: "0 < n_maxConcurrent (cg_nextdns cfg) \<longrightarrow>
      int (length (sy_upstream s)) \<le> n_maxConcurrent (cg_nextdns cfg)"
    by (simp add: slots_inv_def)
  have cache: "\<exists>mc0. n_cache (cg_nextdns cfg) = Some mc0 \<and> total (mc_c mc) \<le> capacity (mc_c mc0)"
    if mc: "n_cache (sy_n s) = Some mc" for mc
  proof -
    obtain mc0 where c0: "n_cache (cg_nextdns cfg) = Some mc0"
      using no_cache_runs [OF run] mc by (cases "n_cache (cg_nextdns cfg)") simp_all
    then have "cache_ok mc0" using cfg by (auto simp: config_ok_def Let_def fresh_cache_def)
    moreover have "mc = offers_of sv (sy_log s) mc0"
      using cache_inv_runs [OF run c0] mc by (simp add: cache_inv_def)
    ultimately have "store_ok (mc_c mc)" and "capacity (mc_c mc) = capacity (mc_c mc0)"
      using mcache.ok_offers [of mc0] by (simp_all add: cache_ok_def offers_capacity)
    with total_le_capacity c0 show ?thesis by fastforce
  qed
  have kept: "kept_within maxBindings (map_option (dc_max \<circ> fst) (cg_discovery cfg)) s"
    by (rule kept_within_runs [OF assms(2) loaded_kept_within [OF cfg]])
  show ?thesis
    using slots cache kept
    by (cases "cg_discovery cfg")
      (auto simp: kept_within_def db_ok_def world_ok_def table_bounded_def lookups_ok_def maxDiscoveryInflight_def)
qed

lemma sample_asks: "asks_discoverer sample_services"
proof -
  have "sv_discover sample_services = discover_name 0 (\<lambda>w. w) Elapsed" by (simp add: sample_services_def)
  then show ?thesis unfolding asks_discoverer_def by (intro exI conjI allI) (assumption, rule runs.stop)
qed

theorem plugin_is_bounded_witness:
  "\<exists>cfg s. parseNextDNS sample_env lines_controller sample_corefile = Some (Inr cfg) \<and>
     plugin_runs sample_services (loaded cfg) s \<and> length (sy_asking s) + length (sy_results s) = 1 \<and>
     int (length (db_bindings (n_devices (sy_n s)))) \<le> 8192"
proof -
  obtain cfg where c: "parseNextDNS sample_env lines_controller sample_corefile = Some (Inr cfg)"
    by (rule sample_parse)
  let ?l = "loaded cfg"
  obtain r n d where a: "arrive sample_services sample_asked (sy_n ?l, sy_d ?l) = (r, n, d)" by (metis surj_pair)
  have l: "sy_asking ?l = []" "sy_results ?l = []" by (simp_all add: loaded_def booted_def)
  have "\<exists>s. plugin_step sample_services ?l s \<and> length (sy_asking s) + length (sy_results s) = 1"
  proof (cases r)
    case (Inl x)
    obtain res evs where "x = (res, evs)" by (metis surj_pair)
    with a Inl query_steps_are_plugin_steps(2) [OF sample_asks same_library_refl, of sample_asked ?l res evs n d] l
    show ?thesis by (intro exI conjI) auto
  next
    case (Inr x)
    obtain p evs where "x = (p, evs)" by (metis surj_pair)
    with a Inr query_steps_are_plugin_steps(1) [OF sample_asks same_library_refl, of sample_asked ?l p evs n d] l
    show ?thesis by (intro exI conjI) auto
  qed
  then obtain s where s: "plugin_runs sample_services ?l s" "length (sy_asking s) + length (sy_results s) = 1" by blast
  have "int (length (db_bindings (n_devices (sy_n s)))) \<le> maxBindings"
    using plugin_is_bounded [OF c s(1)] by blast
  with c s show ?thesis by (auto simp: maxBindings_def)
qed

end
