(* ===== verification/Metrics.thy ===== *)
theory Metrics
  imports Handler
begin

text \<open>
  The gauges of \<open>metrics.go\<close> and the callbacks of \<open>setup.go\<close> and \<open>nextdns.go\<close> that write them. A
  gauge vector is a map from label values to the value of the series; the values are counts,
  exact as \<open>float64\<close>. An instance writes its series under the labels it captured at startup,
  one per listen address, deletes them when a reload begins and writes them again when the
  reload is abandoned, which takes a step for each read under a lock and one for each write. Histograms and counters are declarations of the Prometheus library.
\<close>

section \<open>Labels and gauges\<close>

record metricLabels =
  ml_servers :: "string list"
  ml_zone :: string
  ml_view :: string

type_synonym series = "string \<times> string \<times> string"
type_synonym gauge = "(series, int) gomap"

definition gauge_set :: "metricLabels \<Rightarrow> int \<Rightarrow> gauge \<Rightarrow> gauge" where
  "gauge_set l v g = fold (\<lambda>s. AList.update (s, ml_zone l, ml_view l) v) (ml_servers l) g"

definition gauge_delete :: "metricLabels \<Rightarrow> gauge \<Rightarrow> gauge" where
  "gauge_delete l g = fold (\<lambda>s. AList.delete (s, ml_zone l, ml_view l)) (ml_servers l) g"

text \<open>The fields of the server configuration that \<open>metricLabelsFor\<close> reads.\<close>

record server_config =
  sc_Zone :: string
  sc_ViewName :: string
  sc_ListenHosts :: "string list"
  sc_Transport :: string
  sc_Port :: string

definition metricLabelsFor :: "server_config \<Rightarrow> metricLabels" where
  "metricLabelsFor cfg =
     \<lparr>ml_servers = map (\<lambda>h. sc_Transport cfg @ ''://'' @ JoinHostPort h (sc_Port cfg)) (sc_ListenHosts cfg),
      ml_zone = sc_Zone cfg, ml_view = sc_ViewName cfg\<rparr>"

record gauges =
  g_devicesKnown :: gauge
  g_discoveryEntries :: gauge
  g_cacheSize :: gauge

section \<open>The instance's callbacks\<close>

text \<open>The labels of the parts of an instance; a part that is not configured has none.\<close>

record instance_labels =
  il_nextdns :: metricLabels
  il_devices :: metricLabels
  il_discovery :: "metricLabels option"
  il_cache :: "metricLabels option"

definition setMetricLabels :: "metricLabels \<Rightarrow> instance_labels \<Rightarrow> instance_labels" where
  "setMetricLabels l il =
     \<lparr>il_nextdns = l, il_devices = l, il_discovery = map_option (\<lambda>_. l) (il_discovery il),
      il_cache = map_option (\<lambda>_. l) (il_cache il)\<rparr>"

definition deleteGauges :: "metricLabels \<Rightarrow> gauges \<Rightarrow> gauges" where
  "deleteGauges l gs =
     \<lparr>g_devicesKnown = gauge_delete l (g_devicesKnown gs),
      g_discoveryEntries = gauge_delete l (g_discoveryEntries gs),
      g_cacheSize = gauge_delete l (g_cacheSize gs)\<rparr>"

definition known_devices :: "nextdns \<Rightarrow> int" where
  "known_devices n = int (length (db_learned (n_devices n)))"

text \<open>
  What \<open>republishGauges\<close> has left to do. Each count is read under a lock, which is released
  before the gauge is written, so between a read and its write anything may happen.
\<close>

datatype restoring = ReadDevices | SetDevices int | ReadNames | SetNames int | ReadSize | SetSize int

fun restore_step :: "metricLabels \<Rightarrow> nextdns \<Rightarrow> discoverer option \<Rightarrow> restoring \<Rightarrow> gauges \<Rightarrow> restoring option \<times> gauges" where
  "restore_step l n d ReadDevices gs = (Some (SetDevices (known_devices n)), gs)"
| "restore_step l n d (SetDevices v) gs =
     (Some ReadNames, gs\<lparr>g_devicesKnown := gauge_set l v (g_devicesKnown gs)\<rparr>)"
| "restore_step l n d ReadNames gs =
     (case d of None \<Rightarrow> (Some ReadSize, gs) | Some d \<Rightarrow> (Some (SetNames (int (length (dc_entries d)))), gs))"
| "restore_step l n d (SetNames v) gs =
     (Some ReadSize, gs\<lparr>g_discoveryEntries := gauge_set l v (g_discoveryEntries gs)\<rparr>)"
| "restore_step l n d ReadSize gs =
     (case n_cache n of None \<Rightarrow> (None, gs) | Some mc \<Rightarrow> (Some (SetSize (Len (mc_c mc))), gs))"
| "restore_step l n d (SetSize v) gs = (None, gs\<lparr>g_cacheSize := gauge_set l v (g_cacheSize gs)\<rparr>)"

text \<open>The call undisturbed: the steps one after the other, on an instance that does not change.\<close>

fun restore_steps :: "nat \<Rightarrow> metricLabels \<Rightarrow> nextdns \<Rightarrow> discoverer option \<Rightarrow> restoring option \<times> gauges \<Rightarrow> restoring option \<times> gauges" where
  "restore_steps 0 l n d s = s"
| "restore_steps (Suc m) l n d (None, gs) = (None, gs)"
| "restore_steps (Suc m) l n d (Some r, gs) = restore_steps m l n d (restore_step l n d r gs)"

definition republishGauges :: "metricLabels \<Rightarrow> nextdns \<Rightarrow> discoverer option \<Rightarrow> gauges \<Rightarrow> restoring option \<times> gauges" where
  "republishGauges l n d gs = restore_steps 6 l n d (Some ReadDevices, gs)"

lemma republishGauges_writes:
  "republishGauges l n d gs =
     (None,
      \<lparr>g_devicesKnown = gauge_set l (known_devices n) (g_devicesKnown gs),
       g_discoveryEntries =
         (case d of None \<Rightarrow> g_discoveryEntries gs
          | Some d \<Rightarrow> gauge_set l (int (length (dc_entries d))) (g_discoveryEntries gs)),
       g_cacheSize =
         (case n_cache n of None \<Rightarrow> g_cacheSize gs
          | Some mc \<Rightarrow> gauge_set l (Len (mc_c mc)) (g_cacheSize gs))\<rparr>)"
  by (auto simp: republishGauges_def eval_nat_numeral split: option.splits)

section \<open>Series\<close>

definition series_of :: "metricLabels \<Rightarrow> series set" where
  "series_of l = (\<lambda>s. (s, ml_zone l, ml_view l)) ` set (ml_servers l)"

lemma fold_update_lookup:
  "map_of (fold (\<lambda>s. AList.update (s, z, w) v) ss g) k =
     (if k \<in> (\<lambda>s. (s, z, w)) ` set ss then Some v else map_of g k)"
  by (induction ss arbitrary: g) auto

lemma fold_delete_lookup:
  "map_of (fold (\<lambda>s. AList.delete (s, z, w)) ss g) k =
     (if k \<in> (\<lambda>s. (s, z, w)) ` set ss then None else map_of g k)"
  by (induction ss arbitrary: g) auto

lemma gauge_set_lookup: "map_of (gauge_set l v g) k = (if k \<in> series_of l then Some v else map_of g k)"
  by (simp add: gauge_set_def series_of_def fold_update_lookup)

lemma gauge_delete_lookup: "map_of (gauge_delete l g) k = (if k \<in> series_of l then None else map_of g k)"
  by (simp add: gauge_delete_def series_of_def fold_delete_lookup)

section \<open>Histories\<close>

text \<open>
  What the instances of a process do to one gauge vector, in the order it happens: a refresh,
  a lookup or a cached answer writes a value, the start of a reload deletes, an abandoned
  reload writes again.
\<close>

datatype gauge_event = SetGauge metricLabels int | DeleteGauge metricLabels

fun labels_of :: "gauge_event \<Rightarrow> metricLabels" where
  "labels_of (SetGauge l v) = l"
| "labels_of (DeleteGauge l) = l"

fun gauge_step :: "gauge_event \<Rightarrow> gauge \<Rightarrow> gauge" where
  "gauge_step (SetGauge l v) g = gauge_set l v g"
| "gauge_step (DeleteGauge l) g = gauge_delete l g"

text \<open>The value a series has after a history, oldest event first.\<close>

definition series_after :: "gauge_event list \<Rightarrow> series \<Rightarrow> int option" where
  "series_after evs k =
     (case filter (\<lambda>e. k \<in> series_of (labels_of e)) (rev evs) of
        SetGauge _ v # _ \<Rightarrow> Some v | _ \<Rightarrow> None)"

lemma gauge_history: "map_of (fold gauge_step evs []) k = series_after evs k"
proof (induction evs rule: rev_induct)
  case (snoc e evs)
  then show ?case by (cases e) (auto simp: series_after_def gauge_set_lookup gauge_delete_lookup)
qed (simp add: series_after_def)

section \<open>Properties\<close>

text \<open>
  Instances do not write over each other's gauges: whatever other server blocks
  and reloads do, in any order, the series of an instance shows the value it wrote last, and
  is gone once it was deleted and not written again; in particular a block that goes away
  leaves nothing behind if it writes no more after its deletion.
\<close>

theorem gauges_are_per_instance:
  assumes "k \<in> series_of l" and "\<forall>e \<in> set before \<union> set after. k \<in> series_of (labels_of e) \<longrightarrow> labels_of e = l"
    and "\<forall>e \<in> set after. labels_of e \<noteq> l"
  shows "map_of (fold gauge_step (before @ SetGauge l v # after) []) k = Some v \<and>
    map_of (fold gauge_step (before @ DeleteGauge l # after) []) k = None"
proof -
  have "filter (\<lambda>e. k \<in> series_of (labels_of e)) (rev after) = []"
    using assms(2,3) by (auto simp: filter_empty_conv)
  then show ?thesis
    unfolding gauge_history series_after_def using assms(1) by simp
qed

definition sample_labels :: "string \<Rightarrow> metricLabels" where
  "sample_labels view = metricLabelsFor \<lparr>sc_Zone = ''.'', sc_ViewName = view, sc_ListenHosts = [''10.0.0.1'', ''::1''],
     sc_Transport = ''dns'', sc_Port = ''53''\<rparr>"

theorem gauges_are_per_instance_witness:
  "map_of (fold gauge_step [SetGauge (sample_labels ''a'') 3, SetGauge (sample_labels ''b'') 9] [])
     (''dns://[::1]:53'', ''.'', ''a'') = Some 3"
proof -
  have k: "(''dns://[::1]:53'', ''.'', ''a'') \<in> series_of (sample_labels ''a'')" by code_simp
  have o: "(''dns://[::1]:53'', ''.'', ''a'') \<notin> series_of (sample_labels ''b'')" by code_simp
  have ne: "sample_labels ''b'' \<noteq> sample_labels ''a''" by (simp add: sample_labels_def metricLabelsFor_def)
  show ?thesis
    using gauges_are_per_instance [OF k, of "[]" "[SetGauge (sample_labels ''b'') 9]" 3] o ne by simp
qed

text \<open>
  An abandoned reload leaves no trace: deleting an instance's gauges and
  publishing them again, undisturbed, restores every series of every gauge vector, if they showed the
  instance's current values and nothing for a part that is not configured.
\<close>

theorem abandoned_reload_restores_gauges:
  assumes "\<forall>k \<in> series_of l. map_of (g_devicesKnown gs) k = Some (known_devices n)"
    and "\<forall>k \<in> series_of l. map_of (g_discoveryEntries gs) k = map_option (\<lambda>d. int (length (dc_entries d))) d"
    and "\<forall>k \<in> series_of l. map_of (g_cacheSize gs) k = map_option (\<lambda>mc. Len (mc_c mc)) (n_cache n)"
  shows "\<exists>gs'. republishGauges l n d (deleteGauges l gs) = (None, gs') \<and>
    map_of (g_devicesKnown gs') = map_of (g_devicesKnown gs) \<and>
    map_of (g_discoveryEntries gs') = map_of (g_discoveryEntries gs) \<and>
    map_of (g_cacheSize gs') = map_of (g_cacheSize gs)"
  using assms
  by (auto simp: republishGauges_writes deleteGauges_def gauge_set_lookup gauge_delete_lookup fun_eq_iff
    split: option.splits)

theorem abandoned_reload_restores_gauges_witness:
  "\<exists>gs gs'. republishGauges (sample_labels ''a'') (sample_instance None) None
       (deleteGauges (sample_labels ''a'') gs) = (None, gs') \<and>
     map_of (g_devicesKnown gs') = map_of (g_devicesKnown gs) \<and>
     map_of (g_devicesKnown gs) (''dns://[::1]:53'', ''.'', ''a'') = Some 0"
proof -
  let ?l = "sample_labels ''a''"
  let ?gs = "\<lparr>g_devicesKnown = gauge_set ?l 0 [], g_discoveryEntries = [], g_cacheSize = []\<rparr>"
  have n: "known_devices (sample_instance None) = 0" "n_cache (sample_instance None) = None"
    by (simp_all add: known_devices_def sample_instance_def newDeviceDB_def)
  have "map_of (gauge_set ?l 0 []) (''dns://[::1]:53'', ''.'', ''a'') = Some 0" by code_simp
  moreover have "\<exists>gs'. republishGauges ?l (sample_instance None) None (deleteGauges ?l ?gs) = (None, gs') \<and>
      map_of (g_devicesKnown gs') = map_of (g_devicesKnown ?gs)"
    using abandoned_reload_restores_gauges [of ?l ?gs "sample_instance None" None] n
    by (auto simp: gauge_set_lookup)
  ultimately show ?thesis by (metis gauges.select_convs(1))
qed

text \<open>
  A write by the old instance between the start of a reload, when its series are deleted, and
  its shutdown brings the series back, and nothing deletes it again.
\<close>

lemma late_write_outlives_the_instance:
  "k \<in> series_of l \<Longrightarrow> map_of (gauge_set l v (g_devicesKnown (deleteGauges l gs))) k = Some v"
  by (simp add: gauge_set_lookup)

end
