(* ===== verification/Concurrent.thy ===== *)
theory Concurrent
  imports Metrics
begin

text \<open>
  The cache and the configuration times at the granularity of the code's locks. The other
  theories take a whole \<open>msgCache.get\<close>, \<open>msgCache.put\<close> and \<open>updateLastMod\<close> as one step; here each
  is what its goroutine really does: \<open>get\<close> reads the entry under the lock of its shard and the
  configuration time later, under another; \<open>put\<close> updates the shard, then the counter, then reads
  the counter, then writes the gauge; \<open>updateLastMod\<close> compares under the read lock and compares
  again and writes under the write lock. A history of the atomic operations is kept beside the
  state, and the two are related: what a \<open>get\<close> hands out is what the atomic one would have. A
  \<open>put\<close> of an answer that is not cacheable, and a report without a date, touch nothing and are no step.
\<close>

section \<open>The pieces\<close>

text \<open>What \<open>get\<close> does with the entry it has found.\<close>

definition get_fetched :: "time \<Rightarrow> time \<Rightarrow> string \<Rightarrow> request \<Rightarrow> cacheEntry \<Rightarrow> cache_result" where
  "get_fetched now changed profile st e =
     (if \<not> matches e profile st then Collision
      else if ce_stored e < changed then Miss
      else
        let remaining = remaining_ttl now e in
        if remaining \<le> 0 then Miss
        else Hit (echo_question st (setTTL (ce_msg e) (seconds_up remaining))))"

text \<open>\<open>updateLastMod\<close>: whether it goes on to the write lock, and what it does there.\<close>

definition update_needed :: "string \<Rightarrow> time \<Rightarrow> dohClient \<Rightarrow> bool" where
  "update_needed profile t c \<longleftrightarrow> confChangedAt c profile < t"

definition update_locked :: "string \<Rightarrow> time \<Rightarrow> dohClient \<Rightarrow> dohClient" where
  "update_locked profile t c =
     (if confChangedAt c profile < t then c\<lparr>dh_lastMod := AList.update profile t (dh_lastMod c)\<rparr> else c)"

text \<open>
  Where a \<open>put\<close> is after it has released its shard: it still owes the counter its increment
  (unless it dropped or replaced an entry), is about to read the counter, or to write the
  gauge.
\<close>

datatype put_phase = Owes bool | Counted | Loaded int

text \<open>An operation of the coarse model, in the order in which they take effect.\<close>

datatype action = DidPut nat time string request msg | DidUpdate string string

record races =
  ra_mc :: msgCache
  ra_client :: dohClient
  ra_getting :: "(nat \<times> string \<times> request \<times> cacheEntry) list"
  ra_putting :: "put_phase list"
  ra_updating :: "(string \<times> string \<times> time) list"
  ra_gauge :: gauge
  ra_hist :: "action list"
  ra_results :: "(nat \<times> nat \<times> time \<times> string \<times> request \<times> cache_result) list"

text \<open>
  The getters carry the length of the history when they read their entry; a result has it too,
  with the length when the configuration time was read.
\<close>

inductive race_step :: "'d services \<Rightarrow> metricLabels \<Rightarrow> races \<Rightarrow> races \<Rightarrow> bool" for sv l where
  get_ptr:
    "rq_qtype st = TypePTR \<Longrightarrow>
       race_step sv l s (s\<lparr>ra_results := (length (ra_hist s), length (ra_hist s), now, p, st, Miss) # ra_results s\<rparr>)"
| get_absent:
    "rq_qtype st \<noteq> TypePTR \<Longrightarrow> Get (mc_c (ra_mc s)) (cacheKey (sv_sum64 sv) p st) = None \<Longrightarrow>
       race_step sv l s (s\<lparr>ra_results := (length (ra_hist s), length (ra_hist s), now, p, st, Miss) # ra_results s\<rparr>)"
| get_found:
    "rq_qtype st \<noteq> TypePTR \<Longrightarrow> Get (mc_c (ra_mc s)) (cacheKey (sv_sum64 sv) p st) = Some e \<Longrightarrow>
       race_step sv l s (s\<lparr>ra_getting := (length (ra_hist s), p, st, e) # ra_getting s\<rparr>)"
| get_checked:
    "(k, p, st, e) \<in> set (ra_getting s) \<Longrightarrow>
       race_step sv l s (s\<lparr>ra_getting := remove1 (k, p, st, e) (ra_getting s),
         ra_results := (k, length (ra_hist s), now, p, st,
           get_fetched now (confChangedAt (ra_client s) p) p st e) # ra_results s\<rparr>)"
| put_locked:
    "cacheable st m \<Longrightarrow>
     Add_locked v (cacheKey (sv_sum64 sv) p st) (new_entry (sv_minimalTTL sv) now p st m (ra_mc s)) (mc_c (ra_mc s))
       = (c, replacing) \<Longrightarrow>
       race_step sv l s (s\<lparr>ra_mc := (ra_mc s)\<lparr>mc_c := c\<rparr>, ra_putting := Owes replacing # ra_putting s,
         ra_hist := ra_hist s @ [DidPut v now p st m]\<rparr>)"
| put_counted:
    "Owes replacing \<in> set (ra_putting s) \<Longrightarrow>
       race_step sv l s (s\<lparr>ra_mc := (ra_mc s)\<lparr>mc_c := Add_count replacing (mc_c (ra_mc s))\<rparr>,
         ra_putting := Counted # remove1 (Owes replacing) (ra_putting s)\<rparr>)"
| put_loaded:
    "Counted \<in> set (ra_putting s) \<Longrightarrow>
       race_step sv l s (s\<lparr>ra_putting := Loaded (Len (mc_c (ra_mc s))) # remove1 Counted (ra_putting s)\<rparr>)"
| put_shown:
    "Loaded n \<in> set (ra_putting s) \<Longrightarrow>
       race_step sv l s (s\<lparr>ra_gauge := gauge_set l n (ra_gauge s), ra_putting := remove1 (Loaded n) (ra_putting s)\<rparr>)"
| update_old:
    "hdr \<noteq> [] \<Longrightarrow> sv_parse_time sv hdr = Some t \<Longrightarrow> \<not> update_needed p t (ra_client s) \<Longrightarrow>
       race_step sv l s (s\<lparr>ra_hist := ra_hist s @ [DidUpdate p hdr]\<rparr>)"
| update_newer:
    "hdr \<noteq> [] \<Longrightarrow> sv_parse_time sv hdr = Some t \<Longrightarrow> update_needed p t (ra_client s) \<Longrightarrow>
       race_step sv l s (s\<lparr>ra_updating := (p, hdr, t) # ra_updating s\<rparr>)"
| update_written:
    "(p, hdr, t) \<in> set (ra_updating s) \<Longrightarrow>
       race_step sv l s (s\<lparr>ra_client := update_locked p t (ra_client s),
         ra_updating := remove1 (p, hdr, t) (ra_updating s), ra_hist := ra_hist s @ [DidUpdate p hdr]\<rparr>)"

inductive_cases race_stepE: "race_step sv l s s'"

definition fresh_races :: "msgCache \<Rightarrow> dohClient \<Rightarrow> races" where
  "fresh_races mc c =
     \<lparr>ra_mc = mc, ra_client = c, ra_getting = [], ra_putting = [], ra_updating = [], ra_gauge = [],
      ra_hist = [], ra_results = []\<rparr>"

abbreviation races_to :: "'d services \<Rightarrow> metricLabels \<Rightarrow> races \<Rightarrow> races \<Rightarrow> bool" where
  "races_to sv l \<equiv> (race_step sv l)\<^sup>*\<^sup>*"

section \<open>The history, atomically\<close>

fun act_atomically :: "'d services \<Rightarrow> action \<Rightarrow> msgCache \<times> dohClient \<Rightarrow> msgCache \<times> dohClient" where
  "act_atomically sv (DidPut v now p st m) (mc, c) = (cache_put (sv_sum64 sv) (sv_minimalTTL sv) v now p st m mc, c)"
| "act_atomically sv (DidUpdate p hdr) (mc, c) = (mc, updateLastMod (sv_parse_time sv) p hdr c)"

definition replay :: "'d services \<Rightarrow> action list \<Rightarrow> msgCache \<times> dohClient \<Rightarrow> msgCache \<times> dohClient" where
  "replay sv acts mcc = fold (act_atomically sv) acts mcc"

abbreviation "cache_at sv acts mcc \<equiv> fst (replay sv acts mcc)"
abbreviation "client_at sv acts mcc \<equiv> snd (replay sv acts mcc)"

lemma replay_snoc [simp]: "replay sv (acts @ [a]) mcc = act_atomically sv a (replay sv acts mcc)"
  by (simp add: replay_def)

lemma replay_Nil [simp]: "replay sv [] mcc = mcc"
  by (simp add: replay_def)

lemma cache_get_split:
  "cache_get h now changed p st mc =
     (if rq_qtype st = TypePTR then Miss
      else case Get (mc_c mc) (cacheKey h p st) of None \<Rightarrow> Miss | Some e \<Rightarrow> get_fetched now changed p st e)"
  by (simp add: cache_get_def get_fetched_def split: option.splits)

lemma cache_get_Hit_earlier:
  "cache_get h now changed p st mc = Hit m \<Longrightarrow> changed' \<le> changed \<Longrightarrow> cache_get h now changed' p st mc = Hit m"
  by (auto simp: cache_get_Hit_iff)

text \<open>Two caches that differ at most in the counter answer alike and stay so.\<close>

definition same_entries :: "msgCache \<Rightarrow> msgCache \<Rightarrow> bool" where
  "same_entries mc mc' \<longleftrightarrow> st_shards (mc_c mc) = st_shards (mc_c mc') \<and> mc_minTTL mc = mc_minTTL mc'
     \<and> mc_maxTTL mc = mc_maxTTL mc'"

lemma same_entries_Get: "same_entries mc mc' \<Longrightarrow> Get (mc_c mc) k = Get (mc_c mc') k"
  by (simp add: same_entries_def Get_def shard_def)

lemma same_entries_put:
  assumes "same_entries mc mc'" and "cacheable st m"
    and "Add_locked v (cacheKey h p st) (new_entry f now p st m mc) (mc_c mc) = (c, r)"
  shows "same_entries (mc\<lparr>mc_c := c\<rparr>) (cache_put h f v now p st m mc')"
proof -
  have e: "new_entry f now p st m mc = new_entry f now p st m mc'" using assms(1) by (simp add: same_entries_def new_entry_def)
  have "c = fst (Add_locked v (cacheKey h p st) (new_entry f now p st m mc) (mc_c mc))" using assms(3) by simp
  then show ?thesis using assms(1,2) by (simp add: same_entries_def cache_put_def Add_shards shard_def e)
qed

lemma update_atomic:
  assumes "hdr \<noteq> []" and "sv_parse_time sv hdr = Some t"
  shows "updateLastMod (sv_parse_time sv) p hdr c = update_locked p t c"
  using assms by (simp add: updateLastMod_def update_locked_def)

lemma changed_act: "confChangedAt (snd mcc) p \<le> confChangedAt (snd (act_atomically sv a mcc)) p"
  by (cases a; cases mcc) (simp_all add: confChangedAt_update split: option.splits)

lemma changed_replay: "confChangedAt (snd mcc) p \<le> confChangedAt (client_at sv acts mcc) p"
  by (induction acts rule: rev_induct) (auto intro: order_trans [OF _ changed_act])

lemma changed_mono:
  assumes "k \<le> k'"
  shows "confChangedAt (client_at sv (take k acts) mcc) p \<le> confChangedAt (client_at sv (take k' acts) mcc) p"
proof -
  have "take k' acts = take k acts @ take (k' - k) (drop k acts)"
    using assms by (metis le_add_diff_inverse take_add)
  then have "client_at sv (take k' acts) mcc = client_at sv (take (k' - k) (drop k acts)) (replay sv (take k acts) mcc)"
    by (simp add: replay_def)
  with changed_replay [of "replay sv (take k acts) mcc" p sv "take (k' - k) (drop k acts)"] show ?thesis by simp
qed

section \<open>The invariant\<close>

text \<open>
  The entries and the configuration times are those of the history; every getter holds the entry
  its key had when it read it; every result is what the pieces it read give.
\<close>

definition explains :: "'d services \<Rightarrow> msgCache \<times> dohClient \<Rightarrow> action list
    \<Rightarrow> nat \<times> nat \<times> time \<times> string \<times> request \<times> cache_result \<Rightarrow> bool" where
  "explains sv mcc hist r \<longleftrightarrow>
     (case r of (k, k', now, p, st, res) \<Rightarrow> k \<le> k' \<and> k' \<le> length hist
        \<and> res = cache_get (sv_sum64 sv) now (confChangedAt (client_at sv (take k' hist) mcc) p) p st
                  (cache_at sv (take k hist) mcc))"

definition fetched_at :: "'d services \<Rightarrow> msgCache \<times> dohClient \<Rightarrow> action list
    \<Rightarrow> nat \<times> string \<times> request \<times> cacheEntry \<Rightarrow> bool" where
  "fetched_at sv mcc hist g \<longleftrightarrow>
     (case g of (k, p, st, e) \<Rightarrow> k \<le> length hist \<and> rq_qtype st \<noteq> TypePTR
        \<and> Get (mc_c (cache_at sv (take k hist) mcc)) (cacheKey (sv_sum64 sv) p st) = Some e)"

definition races_inv :: "'d services \<Rightarrow> msgCache \<times> dohClient \<Rightarrow> races \<Rightarrow> bool" where
  "races_inv sv mcc s \<longleftrightarrow>
     ra_client s = client_at sv (ra_hist s) mcc \<and> same_entries (ra_mc s) (cache_at sv (ra_hist s) mcc)
     \<and> list_all (fetched_at sv mcc (ra_hist s)) (ra_getting s)
     \<and> list_all (explains sv mcc (ra_hist s)) (ra_results s)
     \<and> list_all (\<lambda>(p, hdr, t). hdr \<noteq> [] \<and> sv_parse_time sv hdr = Some t) (ra_updating s)"

lemma explains_snoc [simp]: "explains sv mcc hist r \<Longrightarrow> explains sv mcc (hist @ [a]) r"
  by (auto simp: explains_def)

lemma fetched_at_snoc [simp]: "fetched_at sv mcc hist g \<Longrightarrow> fetched_at sv mcc (hist @ [a]) g"
  by (auto simp: fetched_at_def)

lemma list_all_snoc:
  "list_all (explains sv mcc hist) rs \<Longrightarrow> list_all (explains sv mcc (hist @ [a])) rs"
  "list_all (fetched_at sv mcc hist) gs \<Longrightarrow> list_all (fetched_at sv mcc (hist @ [a])) gs"
  by (auto simp: list_all_iff)

lemma list_all_remove1: "list_all P xs \<Longrightarrow> list_all P (remove1 x xs)"
  by (auto simp: list_all_iff dest: notin_set_remove1 [THEN contrapos_pn] set_remove1_subset [THEN subsetD])

lemma races_inv_step:
  assumes "race_step sv l s s'" and "races_inv sv mcc s"
  shows "races_inv sv mcc s'"
  using assms(1)
proof cases
  case (get_ptr st now p)
  with assms(2) show ?thesis by (simp add: races_inv_def explains_def cache_get_split)
next
  case (get_absent st p now)
  with assms(2) same_entries_Get show ?thesis by (fastforce simp: races_inv_def explains_def cache_get_split)
next
  case (get_found st p e)
  with assms(2) same_entries_Get show ?thesis by (fastforce simp: races_inv_def fetched_at_def)
next
  case (get_checked k p st e now)
  from get_checked(2) assms(2) have "fetched_at sv mcc (ra_hist s) (k, p, st, e)"
    by (auto simp: races_inv_def list_all_iff)
  with assms(2) show ?thesis
    by (simp add: get_checked(1) races_inv_def list_all_remove1 explains_def fetched_at_def cache_get_split)
next
  case (put_locked st m v p now c replacing)
  obtain mc' c' where r: "replay sv (ra_hist s) mcc = (mc', c')" by fastforce
  from assms(2) r same_entries_put [OF _ put_locked(2,3), of mc'] show ?thesis
    by (simp add: put_locked(1) races_inv_def list_all_snoc)
next
  case (put_counted replacing)
  with assms(2) show ?thesis by (simp add: races_inv_def same_entries_def)
next
  case (update_old hdr t p)
  obtain mc' c' where r: "replay sv (ra_hist s) mcc = (mc', c')" by fastforce
  from assms(2) r update_atomic [of hdr sv t p c'] show ?thesis using update_old(2-4)
    by (simp add: update_old(1) races_inv_def list_all_snoc update_locked_def update_needed_def)
next
  case (update_written p hdr t)
  obtain mc' c' where r: "replay sv (ra_hist s) mcc = (mc', c')" by fastforce
  from update_written(2) assms(2) have "hdr \<noteq> [] \<and> sv_parse_time sv hdr = Some t"
    by (auto simp: races_inv_def list_all_iff)
  with assms(2) r update_atomic [of hdr sv t p c'] show ?thesis
    by (simp add: update_written(1) races_inv_def list_all_snoc list_all_remove1)
qed (use assms(2) in \<open>simp_all add: races_inv_def\<close>)

lemma races_inv_result: "races_inv sv mcc s \<Longrightarrow> r \<in> set (ra_results s) \<Longrightarrow> explains sv mcc (ra_hist s) r"
  by (simp add: races_inv_def list_all_iff)

lemma races_inv_fresh: "races_inv sv (mc, c) (fresh_races mc c)"
  by (simp add: races_inv_def fresh_races_def same_entries_def)

lemma races_inv_run: "races_to sv l (fresh_races mc c) s \<Longrightarrow> races_inv sv (mc, c) s"
  by (induction rule: rtranclp_induct) (auto intro: races_inv_fresh races_inv_step)

section \<open>What was put and reported\<close>

fun put_of :: "action \<Rightarrow> (nat \<times> time \<times> string \<times> request \<times> msg) option" where
  "put_of (DidPut v now p st m) = Some (v, now, p, st, m)"
| "put_of (DidUpdate p hdr) = None"

lemma cache_at_offers:
  "cache_at sv acts (mc, c) = mcache.offers (sv_sum64 sv) (sv_minimalTTL sv) (List.map_filter put_of acts) mc"
proof -
  have "cache_at sv acts mcc = mcache.offers (sv_sum64 sv) (sv_minimalTTL sv) (List.map_filter put_of acts) (fst mcc)" for mcc
  proof (induction acts arbitrary: mcc)
    case Nil
    then show ?case by (simp add: List.map_filter_simps)
  next
    case (Cons a acts)
    then show ?case by (cases a; cases mcc) (simp_all add: replay_def List.map_filter_simps)
  qed
  then show ?thesis by simp
qed

lemma put_of_iff: "put_of a = Some (v, now, p, st, m) \<longleftrightarrow> a = DidPut v now p st m"
  by (cases a) auto

lemma reported_is_noted:
  "DidUpdate p hdr \<in> set acts \<Longrightarrow> hdr \<noteq> [] \<Longrightarrow> sv_parse_time sv hdr = Some u \<Longrightarrow>
     u \<le> confChangedAt (client_at sv acts mcc) p"
proof (induction acts rule: rev_induct)
  case Nil
  then show ?case by simp
next
  case (snoc a acts)
  show ?case
  proof (cases "a = DidUpdate p hdr")
    case True
    with snoc.prems show ?thesis by (cases "replay sv acts mcc") (simp add: confChangedAt_update)
  next
    case False
    with snoc.prems have "u \<le> confChangedAt (client_at sv acts mcc) p" by (intro snoc.IH) auto
    then show ?thesis using changed_act [of "replay sv acts mcc" p sv a] by simp
  qed
qed

section \<open>The counter and the gauge\<close>

definition owed :: "put_phase list \<Rightarrow> nat" where
  "owed ps = length (filter (\<lambda>x. x = Owes False) ps)"

lemma owed_simps [simp]:
  "owed (Owes False # ps) = Suc (owed ps)" "owed (Owes True # ps) = owed ps" "owed (Counted # ps) = owed ps"
  "owed (Loaded n # ps) = owed ps" "owed [] = 0"
  by (simp_all add: owed_def)

lemma owed_remove1:
  "x \<in> set ps \<Longrightarrow> owed ps = (if x = Owes False then Suc (owed (remove1 x ps)) else owed (remove1 x ps))"
  by (induction ps) (auto simp: owed_def)

definition shown :: "int \<Rightarrow> int \<Rightarrow> bool" where
  "shown cap n \<longleftrightarrow> 0 \<le> n \<and> n \<le> capacity (newStore cap :: cacheEntry store)"

definition counter_inv :: "int \<Rightarrow> races \<Rightarrow> bool" where
  "counter_inv cap s \<longleftrightarrow> reachable cap (mc_c (ra_mc s), owed (ra_putting s))
     \<and> (\<forall>n. Loaded n \<in> set (ra_putting s) \<longrightarrow> shown cap n)
     \<and> (\<forall>k n. map_of (ra_gauge s) k = Some n \<longrightarrow> shown cap n)"

lemma reachable_Len:
  assumes "reachable cap (st :: cacheEntry store, n)"
  shows "shown cap (Len st)"
  using concurrent_Len [OF assms] unfolding shown_def by linarith

lemma counter_inv_step:
  assumes "race_step sv l s s'" and "counter_inv cap s"
  shows "counter_inv cap s'"
  using assms(1)
proof cases
  case (put_locked st m v p now c replacing)
  have "reachable cap (c, if replacing then owed (ra_putting s) else Suc (owed (ra_putting s)))"
    using assms(2) add_step.locked [OF put_locked(3)] unfolding counter_inv_def by (blast intro: reachable.step)
  with assms(2) show ?thesis by (cases replacing) (auto simp: put_locked(1) counter_inv_def)
next
  case (put_counted replacing)
  have r: "reachable cap (mc_c (ra_mc s), owed (ra_putting s))" using assms(2) by (simp add: counter_inv_def)
  have "reachable cap (Add_count replacing (mc_c (ra_mc s)), owed (remove1 (Owes replacing) (ra_putting s)))"
  proof (cases replacing)
    case True
    with r owed_remove1 [OF put_counted(2)] show ?thesis by (simp add: Add_count_def)
  next
    case False
    with r owed_remove1 [OF put_counted(2)] reachable.step [OF _ add_step.count] show ?thesis by fastforce
  qed
  with assms(2) show ?thesis
    by (auto simp: put_counted(1) counter_inv_def dest: set_remove1_subset [THEN subsetD])
next
  case put_loaded
  with assms(2) reachable_Len owed_remove1 [OF put_loaded(2)] show ?thesis
    by (auto simp: counter_inv_def dest: set_remove1_subset [THEN subsetD])
next
  case (put_shown n)
  with assms(2) owed_remove1 [OF put_shown(2)] show ?thesis
    by (auto simp: counter_inv_def gauge_set_lookup dest: set_remove1_subset [THEN subsetD] split: if_splits)
qed (use assms(2) in \<open>simp_all add: counter_inv_def\<close>)

lemma configured_store: "mc_c (configured_cache cap lo hi) = newStore (if cap \<le> 0 then defaultCacheCapacity else cap)"
  by (simp add: configured_cache_def newMsgCache_def Let_def)

lemma counter_inv_run:
  assumes "races_to sv l (fresh_races (configured_cache cap lo hi) c) s" and "0 < cap"
  shows "counter_inv cap s"
  using assms(1)
proof (induction rule: rtranclp_induct)
  case base
  then show ?case using reachable.start [of cap] assms(2) by (simp add: counter_inv_def fresh_races_def configured_store)
next
  case (step s s')
  then show ?case by (blast intro: counter_inv_step)
qed

section \<open>Runs\<close>

text \<open>
  A lookup finds an entry, the configuration turns out to have changed at the very time it was
  stored, and then the lookup checks it.
\<close>

definition dated_services :: "world option services" where
  "dated_services = sample_services\<lparr>sv_sum64 := (\<lambda>b. of_nat (length b)), sv_parse_time := (\<lambda>_. Some 0)\<rparr>"

abbreviation "example_entry \<equiv> new_entry (\<lambda>_ _. 60 * second) 0 ''abc123'' example_query example_answer example_cache"

abbreviation "example_label \<equiv> sample_labels ''a''"

definition race_end :: races where
  "race_end =
     (let (c, replacing) = Add_locked 0 (cacheKey (\<lambda>b. of_nat (length b)) ''abc123'' example_query) example_entry (mc_c example_cache);
          s = fresh_races example_cache sample_client
      in s\<lparr>ra_mc := example_cache\<lparr>mc_c := c\<rparr>, ra_putting := [Owes replacing],
           ra_hist := [DidPut 0 0 ''abc123'' example_query example_answer, DidUpdate ''abc123'' ''now''],
           ra_client := update_locked ''abc123'' 0 sample_client,
           ra_results := [(1, 2, second, ''abc123'', example_query,
             get_fetched second (confChangedAt (update_locked ''abc123'' 0 sample_client) ''abc123'') ''abc123'' example_query example_entry)]\<rparr>)"

lemma example_races: "races_to dated_services example_label (fresh_races example_cache sample_client) race_end"
proof -
  let ?h = "\<lambda>b. of_nat (length b) :: u64" and ?p = "''abc123''" and ?s0 = "fresh_races example_cache sample_client"
  let ?key = "cacheKey ?h ?p example_query"
  obtain c r where a: "Add_locked 0 ?key example_entry (mc_c example_cache) = (c, r)" by fastforce
  define s1 where "s1 = ?s0\<lparr>ra_mc := example_cache\<lparr>mc_c := c\<rparr>, ra_putting := [Owes r],
     ra_hist := [DidPut 0 0 ?p example_query example_answer]\<rparr>"
  define s2 where "s2 = s1\<lparr>ra_getting := [(1, ?p, example_query, example_entry)]\<rparr>"
  define s3 where "s3 = s2\<lparr>ra_updating := [(?p, ''now'', 0)]\<rparr>"
  define s4 where "s4 = s3\<lparr>ra_client := update_locked ?p 0 sample_client, ra_updating := [],
     ra_hist := [DidPut 0 0 ?p example_query example_answer, DidUpdate ?p ''now'']\<rparr>"
  note [simp] = s1_def s2_def s3_def s4_def fresh_races_def dated_services_def
  have sv: "sv_minimalTTL sample_services = (\<lambda>_ _. 60 * second)" by (simp add: sample_services_def)
  have "race_step dated_services example_label ?s0 s1"
    using race_step.put_locked [of example_query example_answer 0 dated_services ?p 0 ?s0 c r example_label] a example_cacheable sv
    by simp
  moreover have "race_step dated_services example_label s1 s2"
  proof -
    have "c = fst (Add_locked 0 ?key example_entry (mc_c example_cache))" by (simp only: a fst_conv)
    then have "Get c ?key = Get (Add 0 ?key example_entry (mc_c example_cache)) ?key"
      by (simp add: Get_def shard_def Add_shards)
    also have "\<dots> = Some example_entry"
      using example_cache_ok by (intro Get_Add_same) (simp add: cache_ok_def)
    finally show ?thesis
      using race_step.get_found [of example_query s1 dated_services ?p example_entry example_label]
      by (simp add: example_query_def TypePTR_def)
  qed
  moreover have "race_step dated_services example_label s2 s3"
    using race_step.update_newer [of "''now''" dated_services 0 ?p s2 example_label]
    by (simp add: update_needed_def confChangedAt_def sample_client_def zero_time_def)
  moreover have "race_step dated_services example_label s3 s4"
    using race_step.update_written [of ?p "''now''" 0 s3 dated_services example_label] by simp
  moreover have "race_step dated_services example_label s4 race_end"
    using race_step.get_checked [of 1 ?p example_query example_entry s4 dated_services example_label second]
    unfolding race_end_def a Let_def prod.case by (simp add: numeral_2_eq_2)
  ultimately show ?thesis by (meson rtranclp.rtrancl_refl rtranclp.rtrancl_into_rtrancl)
qed

lemma example_result:
  "\<exists>m. (1, 2, second, ''abc123'', example_query, Hit m) \<in> set (ra_results race_end)"
proof -
  have "confChangedAt (update_locked ''abc123'' 0 sample_client) ''abc123'' = 0"
    by (simp add: update_locked_def confChangedAt_def sample_client_def zero_time_def)
  moreover have "remaining_ttl second example_entry = 59 * second" by (simp add: remaining_ttl_def clamp_ttl_def Let_def) code_simp
  ultimately show ?thesis
    by (auto simp: race_end_def get_fetched_def Let_def split: prod.split)
qed

text \<open>
  Two insertions under different keys: the first has read the counter when the second begins, and
  writes the gauge after it.
\<close>

abbreviation "length_key profile \<equiv> cacheKey (\<lambda>b. of_nat (length b)) profile example_query"

lemma Add_locked_new:
  assumes "Get s k = None" and "int (length (sh_items (shard s k))) < sh_size (shard s k)"
  shows "\<exists>s'. Add_locked v k e s = (s', False)"
proof -
  have "snd (Add_locked v k e s) = False" using assms by (simp add: shard_add_def Let_def Get_def)
  then show ?thesis by (metis prod.collapse)
qed

lemma length_keys:
  "shard_index (length_key ''abc123'') = 24" "shard_index (length_key ''abcd1234'') = 26"
  by code_simp+

lemma two_adds:
  "\<exists>c1 c2. Add_locked 0 (length_key ''abc123'') e1 (mc_c example_cache) = (c1, False)
     \<and> Add_locked 0 (length_key ''abcd1234'') e2 (Add_count False c1) = (c2, False)
     \<and> Len (Add_count False c1) = 1 \<and> Len (Add_count False c2) = 2"
proof -
  let ?k1 = "length_key ''abc123''" and ?k2 = "length_key ''abcd1234''"
  have c0: "mc_c example_cache = \<lparr>st_shards = replicate 256 \<lparr>sh_items = [], sh_size = rounded 1000\<rparr>, st_n = 0\<rparr>"
    by (simp add: example_cache_def configured_store newStore_alt)
  have sh0: "shard (mc_c example_cache) k = \<lparr>sh_items = [], sh_size = rounded 1000\<rparr>" for k
    using shard_index_less [of k] by (simp add: c0 shard_def)
  obtain c1 where c1: "Add_locked 0 ?k1 e1 (mc_c example_cache) = (c1, False)"
    using Add_locked_new [of "mc_c example_cache" ?k1 0 e1] rounded_pos [of 1000] by (auto simp: Get_def sh0)
  then have f1: "c1 = fst (Add_locked 0 ?k1 e1 (mc_c example_cache))" by (simp only: fst_conv)
  have "shard (Add_count False c1) ?k2 = \<lparr>sh_items = [], sh_size = rounded 1000\<rparr>"
    using sh0 [of ?k2] unfolding f1 by (simp add: shard_def length_keys)
  then obtain c2 where c2: "Add_locked 0 ?k2 e2 (Add_count False c1) = (c2, False)"
    using Add_locked_new [of "Add_count False c1" ?k2 0 e2] rounded_pos [of 1000] by (auto simp: Get_def)
  then have f2: "c2 = fst (Add_locked 0 ?k2 e2 (Add_count False c1))" by (simp only: fst_conv)
  have "st_n c1 = 0" unfolding f1 by (simp add: c0)
  then have n1: "st_n (Add_count False c1) = 1" by (simp add: Add_count_def int64_def)
  have "st_n c2 = 1" unfolding f2 by (simp add: n1)
  then have "st_n (Add_count False c2) = 2" by (simp add: Add_count_def int64_def)
  with n1 c1 c2 show ?thesis by (auto simp: Len_def)
qed

section \<open>Properties\<close>

text \<open>
  Property C10. However lookups, insertions and configuration reports race between their locks, every
  \<open>get\<close> returns what it would have at once from the cache as it was when the entry was read and
  the configuration times as they were when those were; and an answer, even, is the one that an
  undivided \<open>get\<close> would have given at the first of the two moments. The state is at any time that
  of the undivided operations done one after the other.
\<close>

theorem gets_are_atomic:
  assumes "races_to sv l (fresh_races mc c) s" and "(k, k', now, p, st, r) \<in> set (ra_results s)"
  shows "k \<le> k' \<and> k' \<le> length (ra_hist s)
    \<and> r = cache_get (sv_sum64 sv) now (confChangedAt (client_at sv (take k' (ra_hist s)) (mc, c)) p) p st
            (cache_at sv (take k (ra_hist s)) (mc, c))
    \<and> (\<forall>m. r = Hit m \<longrightarrow>
          cache_get (sv_sum64 sv) now (confChangedAt (client_at sv (take k (ra_hist s)) (mc, c)) p) p st
            (cache_at sv (take k (ra_hist s)) (mc, c)) = Hit m)
    \<and> ra_client s = client_at sv (ra_hist s) (mc, c) \<and> same_entries (ra_mc s) (cache_at sv (ra_hist s) (mc, c))"
proof -
  have inv: "races_inv sv (mc, c) s" using assms(1) by (rule races_inv_run)
  from races_inv_result [OF this assms(2)] have e: "explains sv (mc, c) (ra_hist s) (k, k', now, p, st, r)" .
  then have k: "k \<le> k'" "k' \<le> length (ra_hist s)"
    and r: "cache_get (sv_sum64 sv) now (confChangedAt (client_at sv (take k' (ra_hist s)) (mc, c)) p) p st
        (cache_at sv (take k (ra_hist s)) (mc, c)) = r"
    unfolding explains_def prod.case by blast+
  have "cache_get (sv_sum64 sv) now (confChangedAt (client_at sv (take k (ra_hist s)) (mc, c)) p) p st
      (cache_at sv (take k (ra_hist s)) (mc, c)) = Hit m" if "r = Hit m" for m
    using cache_get_Hit_earlier [OF r [unfolded that] changed_mono [OF k(1)]] .
  with k r inv show ?thesis unfolding races_inv_def by blast
qed

theorem gets_are_atomic_witness:
  "\<exists>m. cache_get (\<lambda>b. of_nat (length b)) second
     (confChangedAt (client_at dated_services (take 1 (ra_hist race_end)) (example_cache, sample_client)) ''abc123'')
     ''abc123'' example_query (cache_at dated_services (take 1 (ra_hist race_end)) (example_cache, sample_client)) = Hit m"
proof -
  obtain m where m: "(1, 2, second, ''abc123'', example_query, Hit m) \<in> set (ra_results race_end)"
    using example_result by blast
  have "sv_sum64 dated_services = (\<lambda>b. of_nat (length b))" by (simp add: dated_services_def)
  with gets_are_atomic [OF example_races m] show ?thesis by metis
qed

text \<open>
  Property C9. However the pieces race, an answer the cache hands out was put before the entry was
  read, under the same profile and for the same question, and not before any configuration change
  of the profile that was on record when the answer was checked.
\<close>

theorem concurrent_hits_are_fresh:
  assumes "0 \<le> lo" and "lo \<le> hi" and "int64 hi"
    and "races_to sv l (fresh_races (configured_cache cap lo hi) c) s"
    and "(k, k', now, p, st, Hit m') \<in> set (ra_results s)"
  shows "\<exists>v t st0 m ttl. DidPut v t p st0 m \<in> set (take k (ra_hist s)) \<and> identity st0 = identity st
    \<and> m' = echo_question st (setTTL m ttl)
    \<and> (\<forall>hdr u. DidUpdate p hdr \<in> set (take k' (ra_hist s)) \<and> hdr \<noteq> [] \<and> sv_parse_time sv hdr = Some u \<longrightarrow> u \<le> t)"
proof -
  let ?mc = "configured_cache cap lo hi" and ?acts = "take k (ra_hist s)"
  let ?changed = "confChangedAt (client_at sv (take k' (ra_hist s)) (?mc, c)) p"
  have "explains sv (?mc, c) (ra_hist s) (k, k', now, p, st, Hit m')"
    by (rule races_inv_result [OF races_inv_run [OF assms(4)] assms(5)])
  then have hit: "cache_get (sv_sum64 sv) now ?changed p st
      (mcache.offers (sv_sum64 sv) (sv_minimalTTL sv) (List.map_filter put_of ?acts) ?mc) = Hit m'"
    by (simp add: explains_def cache_at_offers)
  then obtain m t where o: "mcache.offered (List.map_filter put_of ?acts) p (identity st) m t"
      and t: "\<not> t < ?changed" and served: "served_as st m m'"
    using mcache.lookup_offers [of ?mc "sv_sum64 sv" now ?changed p st "sv_minimalTTL sv"
        "List.map_filter put_of ?acts" m'] cache_ok_configured [OF assms(1-3)] held_configured
    by auto
  from o obtain v st0 where "DidPut v t p st0 m \<in> set ?acts" and "identity st0 = identity st"
    by (auto simp: mcache.offered_def List.map_filter_def put_of_iff)
  moreover have "u \<le> t" if "DidUpdate p hdr \<in> set (take k' (ra_hist s))" "hdr \<noteq> []" "sv_parse_time sv hdr = Some u" for hdr u
    using reported_is_noted [OF that, of "(?mc, c)"] t by simp
  moreover obtain ttl where "m' = echo_question st (setTTL m ttl)" using served by (auto simp: served_as_def)
  ultimately show ?thesis by blast
qed

theorem concurrent_hits_are_fresh_witness:
  "\<exists>v t st0 m. DidPut v t ''abc123'' st0 m \<in> set (take 1 (ra_hist race_end)) \<and> identity st0 = identity example_query
     \<and> 0 \<le> t \<and> DidUpdate ''abc123'' ''now'' \<in> set (take 2 (ra_hist race_end))"
proof -
  obtain m' where m': "(1, 2, second, ''abc123'', example_query, Hit m') \<in> set (ra_results race_end)"
    using example_result by blast
  have h: "DidUpdate ''abc123'' ''now'' \<in> set (take 2 (ra_hist race_end))"
    by (simp add: race_end_def Let_def split: prod.split)
  have "sv_parse_time dated_services ''now'' = Some 0" by (simp add: dated_services_def)
  with concurrent_hits_are_fresh [OF _ _ _ example_races [unfolded example_cache_def] m'] h
  show ?thesis by (fastforce simp: int64_def)
qed

text \<open>
  Property C37. However insertions race, the cache holds at most its capacity, its counter lags by
  exactly the increments still owed, and the gauge of its size only ever shows a number within
  the capacity.
\<close>

theorem racing_puts_are_counted:
  assumes "races_to sv l (fresh_races (configured_cache cap lo hi) c) s" and "0 < cap"
  shows "Len (mc_c (ra_mc s)) + int (owed (ra_putting s)) = total (mc_c (ra_mc s))
    \<and> total (mc_c (ra_mc s)) \<le> capacity (newStore cap :: cacheEntry store)
    \<and> (\<forall>k n. map_of (ra_gauge s) k = Some n \<longrightarrow> 0 \<le> n \<and> n \<le> capacity (newStore cap :: cacheEntry store))"
  using counter_inv_run [OF assms] concurrent_Len [of cap "mc_c (ra_mc s)" "owed (ra_putting s)"]
  by (auto simp: counter_inv_def shown_def)

theorem racing_puts_are_counted_witness:
  "Len (mc_c (ra_mc race_end)) = 0 \<and> total (mc_c (ra_mc race_end)) = 1"
proof -
  obtain c where c: "Add_locked 0 (length_key ''abc123'') example_entry (mc_c example_cache) = (c, False)"
    using two_adds by blast
  then have o: "owed (ra_putting race_end) = 1" and n: "mc_c (ra_mc race_end) = c" by (simp_all add: race_end_def Let_def)
  have "c = fst (Add_locked 0 (length_key ''abc123'') example_entry (mc_c example_cache))" by (simp only: c fst_conv)
  then have "Len c = 0" by (simp add: Len_def example_cache_def configured_store newStore_alt)
  with o n racing_puts_are_counted [OF example_races [unfolded example_cache_def]] show ?thesis by simp
qed

text \<open>
  Property C38. The gauge of the cache's size can be left behind for good: a \<open>put\<close> that reads the
  counter before another's increment may write the gauge after it, and then, with nothing
  under way any more, the gauge shows one entry while the cache holds two.
\<close>

theorem gauge_can_be_left_behind:
  "\<exists>s. races_to dated_services example_label (fresh_races example_cache sample_client) s
     \<and> ra_getting s = [] \<and> ra_putting s = [] \<and> ra_updating s = [] \<and> Len (mc_c (ra_mc s)) = 2
     \<and> map_of (ra_gauge s) (''dns://[::1]:53'', ''.'', ''a'') = Some 1"
proof -
  let ?sv = dated_services and ?l = example_label and ?q = example_query and ?m = example_answer
  let ?f = "\<lambda>_ _. 60 * second" and ?s0 = "fresh_races example_cache sample_client"
  have sv [simp]: "sv_minimalTTL ?sv = ?f" "sv_sum64 ?sv = (\<lambda>b. of_nat (length b))"
    by (simp_all add: dated_services_def sample_services_def)
  obtain c1 c2 where c: "Add_locked 0 (length_key ''abc123'') (new_entry ?f 0 ''abc123'' ?q ?m example_cache) (mc_c example_cache) = (c1, False)"
      "Add_locked 0 (length_key ''abcd1234'') (new_entry ?f 0 ''abcd1234'' ?q ?m example_cache) (Add_count False c1) = (c2, False)"
    and n: "Len (Add_count False c1) = 1" "Len (Add_count False c2) = 2"
    using two_adds by blast
  have e: "new_entry ?f 0 ''abcd1234'' ?q ?m (example_cache\<lparr>mc_c := Add_count False c1\<rparr>) = new_entry ?f 0 ''abcd1234'' ?q ?m example_cache"
    by (simp add: new_entry_def)
  define s1 where "s1 = ?s0\<lparr>ra_mc := example_cache\<lparr>mc_c := c1\<rparr>, ra_putting := [Owes False], ra_hist := [DidPut 0 0 ''abc123'' ?q ?m]\<rparr>"
  define s2 where "s2 = s1\<lparr>ra_mc := example_cache\<lparr>mc_c := Add_count False c1\<rparr>, ra_putting := [Counted]\<rparr>"
  define s3 where "s3 = s2\<lparr>ra_putting := [Loaded 1]\<rparr>"
  define s4 where "s4 = s3\<lparr>ra_mc := example_cache\<lparr>mc_c := c2\<rparr>, ra_putting := [Owes False, Loaded 1],
     ra_hist := [DidPut 0 0 ''abc123'' ?q ?m, DidPut 0 0 ''abcd1234'' ?q ?m]\<rparr>"
  define s5 where "s5 = s4\<lparr>ra_mc := example_cache\<lparr>mc_c := Add_count False c2\<rparr>, ra_putting := [Counted, Loaded 1]\<rparr>"
  define s6 where "s6 = s5\<lparr>ra_putting := [Loaded 2, Loaded 1]\<rparr>"
  define s7 where "s7 = s6\<lparr>ra_putting := [Loaded 1], ra_gauge := gauge_set ?l 2 []\<rparr>"
  define s8 where "s8 = s7\<lparr>ra_putting := [], ra_gauge := gauge_set ?l 1 (gauge_set ?l 2 [])\<rparr>"
  note defs [simp] = s1_def s2_def s3_def s4_def s5_def s6_def s7_def s8_def fresh_races_def
  have "race_step ?sv ?l ?s0 s1" "race_step ?sv ?l s1 s2" "race_step ?sv ?l s2 s3" "race_step ?sv ?l s3 s4"
      "race_step ?sv ?l s4 s5" "race_step ?sv ?l s5 s6" "race_step ?sv ?l s6 s7" "race_step ?sv ?l s7 s8"
    using race_step.put_locked [of ?q ?m 0 ?sv "''abc123''" 0 ?s0 c1 False ?l] example_cacheable c(1)
      race_step.put_counted [of False s1 ?sv ?l] race_step.put_loaded [of s2 ?sv ?l]
      race_step.put_locked [of ?q ?m 0 ?sv "''abcd1234''" 0 s3 c2 False ?l] c(2) e
      race_step.put_counted [of False s4 ?sv ?l] race_step.put_loaded [of s5 ?sv ?l]
      race_step.put_shown [of 2 s6 ?sv ?l] race_step.put_shown [of 1 s7 ?sv ?l] n
    by simp_all
  then have "races_to ?sv ?l ?s0 s8" by (meson rtranclp.rtrancl_refl rtranclp.rtrancl_into_rtrancl)
  moreover have "map_of (gauge_set ?l 1 (gauge_set ?l 2 [])) (''dns://[::1]:53'', ''.'', ''a'') = Some 1" by code_simp
  ultimately show ?thesis using n by (intro exI [of _ s8]) simp
qed

end
