(* ===== verification/Meters.thy ===== *)
theory Meters
  imports System Metrics
begin

text \<open>
  The metrics \<open>metrics.go\<close> declares and the places that write them. A vector of series panics
  when it is given another number of label values than it was declared with, and registering a
  metric panics when its name is taken or a name is malformed; Go's types say nothing about
  either. The updates are computed from what the other theories return: the events of a
  query, the failed endpoints and dials of the client, the results of lookups and holds, and
  the labels of an instance. The help texts are left out; \<open>rcode.ToString\<close>, the namespace
  and the server's name in the context are parameters.
\<close>

section \<open>Declarations\<close>

datatype metric =
    RequestDuration | ResponseCount | ErrorCount | BootstrapFailCount | MaxConcurrentRejectCount
  | CacheHits | CacheMisses | CacheSize | DiscoveryLookups | DiscoveryWaits | DiscoveryEntries
  | MismatchCount | CacheCollisions | InvalidProfileCount | DevicesKnown

datatype vec = HistogramVec | CounterVec | GaugeVec

record vec_opts =
  md_vec :: vec
  md_subsystem :: string
  md_name :: string
  md_labels :: "string list"

definition pluginName :: string where "pluginName = ''nextdns''"

definition instanceLabels :: "string list" where
  "instanceLabels = [''server'', ''zone'', ''view'']"

definition declare_vec :: "vec \<Rightarrow> string \<Rightarrow> string list \<Rightarrow> vec_opts" where
  "declare_vec v name ls = \<lparr>md_vec = v, md_subsystem = pluginName, md_name = name, md_labels = ls\<rparr>"

text \<open>
  \<open>cacheCollisions\<close> and \<open>invalidProfileCount\<close> are plain counters in the code; here they are
  vectors without labels, which take the same updates.
\<close>

fun declared :: "metric \<Rightarrow> vec_opts" where
  "declared RequestDuration = declare_vec HistogramVec ''request_duration_seconds'' [''server'', ''profile'']"
| "declared ResponseCount = declare_vec CounterVec ''responses_total'' [''server'', ''profile'', ''rcode'']"
| "declared ErrorCount = declare_vec CounterVec ''errors_total'' [''endpoint'']"
| "declared BootstrapFailCount = declare_vec CounterVec ''bootstrap_failures_total'' [''endpoint'', ''address'']"
| "declared MaxConcurrentRejectCount = declare_vec CounterVec ''max_concurrent_rejects_total'' [''server'']"
| "declared CacheHits = declare_vec CounterVec ''cache_hits_total'' [''server'']"
| "declared CacheMisses = declare_vec CounterVec ''cache_misses_total'' [''server'']"
| "declared CacheSize = declare_vec GaugeVec ''cache_entries'' instanceLabels"
| "declared DiscoveryLookups = declare_vec CounterVec ''discovery_lookups_total'' [''result'']"
| "declared DiscoveryWaits = declare_vec CounterVec ''discovery_waits_total'' [''result'']"
| "declared DiscoveryEntries = declare_vec GaugeVec ''discovery_entries'' instanceLabels"
| "declared MismatchCount = declare_vec CounterVec ''mismatches_total'' [''server'']"
| "declared CacheCollisions = declare_vec CounterVec ''cache_collisions_total'' []"
| "declared InvalidProfileCount = declare_vec CounterVec ''invalid_profiles_total'' []"
| "declared DevicesKnown = declare_vec GaugeVec ''devices_known'' instanceLabels"

text \<open>The variables in the order of the file, which is the order they are registered in.\<close>

definition all_metrics :: "metric list" where
  "all_metrics =
     [RequestDuration, ResponseCount, ErrorCount, BootstrapFailCount, MaxConcurrentRejectCount, CacheHits,
      CacheMisses, CacheSize, DiscoveryLookups, DiscoveryWaits, DiscoveryEntries, MismatchCount,
      CacheCollisions, InvalidProfileCount, DevicesKnown]"

lemma all_metrics_complete: "m \<in> set all_metrics"
  by (cases m) (simp_all add: all_metrics_def)

definition fq_name :: "string \<Rightarrow> metric \<Rightarrow> string" where
  "fq_name ns m = ns @ ''_'' @ md_subsystem (declared m) @ ''_'' @ md_name (declared m)"

text \<open>What Prometheus accepts as names and labels; colons are for rules and not used here.\<close>

definition name_char :: "char \<Rightarrow> bool" where
  "name_char c \<longleftrightarrow> is_lower c \<or> is_upper c \<or> c = CHR ''_''"

definition metric_name_ok :: "string \<Rightarrow> bool" where
  "metric_name_ok s \<longleftrightarrow> s \<noteq> [] \<and> name_char (hd s) \<and> list_all (\<lambda>c. name_char c \<or> is_digit c) s"

definition label_ok :: "string \<Rightarrow> bool" where
  "label_ok s \<longleftrightarrow> metric_name_ok s \<and> take 2 s \<noteq> ''__''"

lemma declared_subsystem [simp]: "md_subsystem (declared m) = pluginName"
  by (cases m) (simp_all add: declare_vec_def)

lemma names_ok: "list_all (\<lambda>c. name_char c \<or> is_digit c) (''_'' @ pluginName @ ''_'' @ md_name (declared m))"
  by (induction m; code_simp)

lemma labels_ok: "distinct (md_labels (declared m)) \<and> list_all label_ok (md_labels (declared m))"
  by (induction m; code_simp)

lemma distinct_mapped:
  assumes "distinct (map f xs)" and "\<And>x y. g x = g y \<Longrightarrow> f x = f y"
  shows "distinct (map g xs)"
  using assms(1) unfolding distinct_map inj_on_def by (meson assms(2))

section \<open>Updates\<close>

datatype op = Inc | Observe | SetTo int | DeleteSeries

text \<open>A call of \<open>Inc\<close>, \<open>Observe\<close>, \<open>Set\<close> or \<open>DeleteLabelValues\<close>, with the label values it is given.\<close>

type_synonym update = "op \<times> metric \<times> string list"

text \<open>
  The counters of one run of \<open>ServeDNS\<close>, in the order they are written. \<open>Upstream\<close> marks the
  exchange, whose duration is observed when it ends.
\<close>

fun serve_updates :: "(int \<Rightarrow> string) \<Rightarrow> string \<Rightarrow> string \<Rightarrow> event list \<Rightarrow> update list" where
  "serve_updates rc server profile [] = []"
| "serve_updates rc server profile (e # evs) =
     (case e of
        Upstream p \<Rightarrow> [(Observe, RequestDuration, [server, p])]
      | Count k \<Rightarrow>
          if k = ''invalid_profiles'' then [(Inc, InvalidProfileCount, [])]
          else if k = ''cache_hits'' then [(Inc, CacheHits, [server])]
          else if k = ''cache_misses'' then [(Inc, CacheMisses, [server])]
          else if k = ''max_concurrent_rejects'' then [(Inc, MaxConcurrentRejectCount, [server])]
          else if k = ''mismatches'' then [(Inc, MismatchCount, [server])]
          else if k = ''responses'' then
            (case evs of Write m # _ \<Rightarrow> [(Inc, ResponseCount, [server, profile, rc (m_rcode m)])] | _ \<Rightarrow> [])
          else []
      | _ \<Rightarrow> []) @ serve_updates rc server profile evs"

definition cache_updates :: "cache_result \<Rightarrow> update list" where
  "cache_updates r = (case r of Collision \<Rightarrow> [(Inc, CacheCollisions, [])] | _ \<Rightarrow> [])"

text \<open>The failed attempts of \<open>exchange\<close>, and the failed dials of \<open>dial\<close>.\<close>

definition exchange_updates ::
  "(endpoint \<Rightarrow> exchange_error + 'm) \<Rightarrow> (nat \<Rightarrow> bool) \<Rightarrow> endpoint list \<Rightarrow> update list" where
  "exchange_updates ask cancelled eps =
     map (\<lambda>h. (Inc, ErrorCount, [h])) (snd (try_endpoints ask cancelled 0 eps None))"

definition dial_updates ::
  "(string \<Rightarrow> string + 'conn) \<Rightarrow> string \<Rightarrow> string \<Rightarrow> string list \<Rightarrow> update list" where
  "dial_updates dialer host port boot =
     map (\<lambda>ip. (Inc, BootstrapFailCount, [host, ip]))
       (takeWhile (\<lambda>ip. \<not> is_ok (dialer (JoinHostPort ip port))) boot)"

text \<open>
  A lookup counts its result when the resolver returns, or the panic its cleanup recovers;
  a hold counts what ended it.
\<close>

definition lookup_updates :: "phase \<Rightarrow> Discovery.result \<Rightarrow> update list" where
  "lookup_updates ph r =
     (case ph of
        Asking \<Rightarrow>
          (case r of
             Failed \<Rightarrow> [(Inc, DiscoveryLookups, [''error''])]
           | Resolved n \<Rightarrow> [(Inc, DiscoveryLookups, [if n = [] then ''notfound'' else ''found''])]
           | _ \<Rightarrow> [])
      | PanicCleared \<Rightarrow> [(Inc, DiscoveryLookups, [''panic''])]
      | _ \<Rightarrow> [])"

definition hold_updates :: "wake \<Rightarrow> update list" where
  "hold_updates w =
     [(Inc, DiscoveryWaits, [case w of Landed \<Rightarrow> ''resolved'' | Elapsed \<Rightarrow> ''timeout'' | Cancelled \<Rightarrow> ''cancelled''])]"

text \<open>\<open>metricLabels.set\<close> and \<open>metricLabels.delete\<close> as calls on the vector.\<close>

definition set_updates :: "metricLabels \<Rightarrow> metric \<Rightarrow> int \<Rightarrow> update list" where
  "set_updates l m v = map (\<lambda>s. (SetTo v, m, [s, ml_zone l, ml_view l])) (ml_servers l)"

definition delete_updates :: "metricLabels \<Rightarrow> metric \<Rightarrow> update list" where
  "delete_updates l m = map (\<lambda>s. (DeleteSeries, m, [s, ml_zone l, ml_view l])) (ml_servers l)"

section \<open>Well-typed updates\<close>

text \<open>
  A call does not panic if it passes as many values as the vector has labels, and it compiles
  if the vector has the method.
\<close>

fun well_typed :: "update \<Rightarrow> bool" where
  "well_typed (u, m, vs) \<longleftrightarrow> length vs = length (md_labels (declared m)) \<and>
     md_vec (declared m) = (case u of Inc \<Rightarrow> CounterVec | Observe \<Rightarrow> HistogramVec | _ \<Rightarrow> GaugeVec)"

fun tally :: "metric \<Rightarrow> update list \<Rightarrow> nat" where
  "tally m [] = 0"
| "tally m ((u, m', vs) # us) = (if m' = m then 1 else 0) + tally m us"

lemma tally_append [simp]: "tally m (us @ vs) = tally m us + tally m vs"
  by (induction m us rule: tally.induct) simp_all

lemma declare_vec_simps [simp]:
  "md_vec (declare_vec v s ls) = v" "md_name (declare_vec v s ls) = s" "md_labels (declare_vec v s ls) = ls"
  "md_subsystem (declare_vec v s ls) = pluginName"
  by (simp_all add: declare_vec_def)

lemma serve_updates_typed: "list_all well_typed (serve_updates rc server profile evs)"
  by (induction evs) (auto split: event.splits list.splits)

lemmas update_defs = cache_updates_def exchange_updates_def dial_updates_def lookup_updates_def hold_updates_def
  set_updates_def delete_updates_def

section \<open>The updates of a query\<close>

lemma profile_label:
  "(u, m, vs) \<in> set (serve_updates rc server p evs) \<Longrightarrow> 1 < length vs \<Longrightarrow>
     vs ! 1 = p \<or> Upstream (vs ! 1) \<in> set evs"
proof (induction evs)
  case (Cons e evs)
  show ?case
  proof (cases e)
    case (Count k)
    show ?thesis
    proof (cases "k = ''responses''")
      case True
      have "serve_updates rc server p (e # evs) = serve_updates rc server p evs \<or>
          (\<exists>c. serve_updates rc server p (e # evs) = (Inc, ResponseCount, [server, p, c]) # serve_updates rc server p evs)"
        using Count True by (cases evs; cases "hd evs") auto
      with Cons Count True show ?thesis by auto
    next
      case False
      with Cons Count show ?thesis by (simp split: if_splits) auto
    qed
  qed (use Cons in auto)
qed simp

text \<open>An event that is followed by the reply it counts makes the list depend on what comes next.\<close>

lemma serve_updates_append:
  "Count ''responses'' \<notin> set a \<Longrightarrow> serve_updates rc server p (a @ b) = serve_updates rc server p a @ serve_updates rc server p b"
  by (induction a) (auto split: event.splits)

lemma serve_updates_invalid [simp]:
  "serve_updates rc server p (replicate k (Count ''invalid_profiles'') @ evs)
     = replicate k (Inc, InvalidProfileCount, []) @ serve_updates rc server p evs"
  by (induction k) simp_all

lemma serve_updates_publish [simp]:
  "serve_updates rc server p (publish md q ci @ evs) = serve_updates rc server p evs"
  by (simp add: publish_def)

lemma serve_updates_reply [simp]:
  "serve_updates rc server p (snd (reply st m)) = [(Inc, ResponseCount, [server, p, rc (m_rcode m)])]"
  by (simp add: reply_def)

text \<open>A routed query up to the cache.\<close>

lemma arrive_updates:
  assumes "arrive sv q (n, d) = (r, n', d')" and "\<not> isDiscovery (qu_ctx q)" and "routed q n \<noteq> []" and "routed q n \<noteq> passthrough"
  obtains
    (hit) k evs and m :: msg where "n_cache n \<noteq> None" and "r = Inl ((RcodeSuccess, None), evs)"
      and "serve_updates rc server (routed q n) evs = replicate k (Inc, InvalidProfileCount, [])
        @ [(Inc, CacheHits, [server]), (Inc, ResponseCount, [server, routed q n, rc (m_rcode m)])]"
  | (miss) k evs where "r = Inr (routed q n, evs)" and "n_cache n' = n_cache n"
      and "Count ''responses'' \<notin> set evs"
      and "serve_updates rc server (routed q n) evs = replicate k (Inc, InvalidProfileCount, [])
        @ (if n_cache n = None then [] else [(Inc, CacheMisses, [server])])"
proof -
  obtain p nr bad warned where p: "profileFor (qu_label q) (qu_view q) (routing.truncate n) (qu_state q) = (p, nr, bad, warned)"
    by (metis surj_pair)
  then have r: "routed q n = p" by (simp add: routed_def)
  obtain ci d1 where l: "look_up sv False p q n d = (ci, d1)" by (metis surj_pair)
  show ?thesis
  proof (cases "cached_reply sv p q n")
    case (Some m)
    then have "n_cache n \<noteq> None" by (auto simp: cached_reply_def split: option.splits)
    then show ?thesis
      using assms Some p l by (intro hit [where k = bad and m = m]) (auto simp: arrive_def r reply_def)
  next
    case None
    let ?evs = "replicate bad (Count ''invalid_profiles'') @ (if warned then [Warn (the (qu_label q))] else [])
      @ (if n_cache n = None then [] else [Count ''cache_misses''])"
    have "r = Inr (p, ?evs)" and "n_cache n' = n_cache n"
      using assms p None by (auto simp: arrive_def r)
    then show ?thesis by (intro miss [of ?evs bad]) (simp_all add: r)
  qed
qed

lemma upstream_not_refused: "serve_upstream sv p q ci n = ((res, evs), n') \<Longrightarrow> snd res \<noteq> Some MaxConcurrent"
  by (auto simp: serve_upstream_def reply_def Let_def split: prod.splits option.splits if_splits)

lemma upstream_updates:
  assumes "serve_upstream sv p q ci n = ((res, evs), n')"
  obtains
    (failed) e where "res = (RcodeServerFailure, Some e)" and "e \<noteq> MaxConcurrent"
      and "serve_updates rc server p evs = [(Observe, RequestDuration, [server, p])]"
  | (mismatch) "res = (RcodeSuccess, None)"
      and "serve_updates rc server p evs = [(Observe, RequestDuration, [server, p]), (Inc, MismatchCount, [server])]"
  | (answered) m :: msg where "res = (RcodeSuccess, None)"
      and "serve_updates rc server p evs =
        [(Observe, RequestDuration, [server, p]), (Inc, ResponseCount, [server, p, rc (m_rcode m)])]"
  using assms
proof (cases rule: serve_upstream_cases)
  case (failed e client)
  with that(1) upstream_not_refused [OF assms] show ?thesis by simp
next
  case (answered m client puts)
  from put_reply_frame [OF answered(4)] answered(1,5) that(3) [of m] show ?thesis by auto
qed (use that(2) in simp)

text \<open>The counters a query names.\<close>

definition counters :: "string set" where
  "counters = {''invalid_profiles'', ''cache_hits'', ''cache_misses'', ''max_concurrent_rejects'', ''mismatches'', ''responses''}"

lemma counts_next: "call_next sv r = (res, evs) \<Longrightarrow> Count k \<notin> set evs"
  using call_next_events [of "Count k" sv r] by auto

lemma counts_discovery: "serve_discovery sv r = (res, evs) \<Longrightarrow> Count k \<notin> set evs"
  using serve_discovery_events [of sv r res evs "Count k"] by auto

lemma counts_publish: "Count k \<notin> set (publish md p ci)"
  by (simp add: publish_def)

lemma counts_upstream: "serve_upstream sv p q ci n = ((res, evs), n') \<Longrightarrow> Count k \<in> set evs \<Longrightarrow> k \<in> counters"
  by (erule serve_upstream_cases) (auto simp: counters_def dest!: put_reply_frame)

lemma counts_slot:
  assumes "with_slot (serve_upstream sv p q ci) n = ((res, evs), n')" and "Count k \<in> set evs"
  shows "k \<in> counters"
  using assms(1)
proof (cases rule: with_slot_cases)
  case rejected
  then show ?thesis using assms(2) by (simp add: counters_def)
next
  case (admitted c n1)
  from counts_upstream [OF admitted(2) assms(2)] show ?thesis .
qed

lemma counts_arrive:
  assumes "arrive sv q (n, d) = (r, n', d')"
    and "Count k \<in> set (case r of Inl (res, evs) \<Rightarrow> evs | Inr (p, evs) \<Rightarrow> evs)"
  shows "k \<in> counters"
proof -
  obtain res evs where o: "serve_discovery sv (rq_req (qu_state q)) = (res, evs)" by (metis surj_pair)
  obtain res2 evs2 where x: "call_next sv (rq_req (qu_state q)) = (res2, evs2)" by (metis surj_pair)
  show ?thesis
    using assms counts_discovery [OF o, of k] counts_next [OF x, of k] counts_publish [of k]
    by (auto simp: arrive_def Let_def o x reply_def counters_def split: prod.splits if_splits option.splits)
qed

lemma serve_counts:
  assumes "serve sv q (n, d) = ((res, evs), n', d')" and "Count k \<in> set evs"
  shows "k \<in> counters"
proof -
  obtain r n1 d1 where a: "arrive sv q (n, d) = (r, n1, d1)" by (metis surj_pair)
  show ?thesis
  proof (cases r)
    case (Inl x)
    with counts_arrive [OF a] a assms show ?thesis by (cases res) (auto simp: serve_def)
  next
    case (Inr x)
    obtain p pre where x: "x = (p, pre)" by (metis surj_pair)
    obtain ci pub d2 where i: "identify sv p q n1 d1 = (ci, pub, d2)" by (metis surj_pair)
    obtain res2 up n2 where w: "with_slot (serve_upstream sv p q ci) n1 = ((res2, up), n2)" by (metis surj_pair)
    have "evs = pre @ pub @ up" using assms(1) a i w Inr x by (simp add: serve_def)
    moreover have "Count k \<notin> set pub" using i counts_publish by (auto simp: identify_def split: prod.splits)
    ultimately show ?thesis using assms(2) counts_arrive [OF a] counts_slot [OF w] Inr x by auto
  qed
qed

section \<open>Properties\<close>

text \<open>
  Property C17. Every place that writes a metric passes as many label values as the vector was
  declared with, to a vector of its kind, so no update panics: the counters of a query, of the
  cache, of failed endpoints and dials, of lookups and holds, and the gauges of an instance.
  No counter the handler names is missing, and the results of lookups and holds are the
  documented ones.
\<close>

theorem updates_match_their_vectors:
  "list_all well_typed (serve_updates rc server profile evs @ cache_updates r @ exchange_updates ask cancelled eps
     @ dial_updates dialer host port boot @ lookup_updates ph res @ hold_updates w
     @ concat (map (\<lambda>m. set_updates l m v @ delete_updates l m) [DevicesKnown, DiscoveryEntries, CacheSize])) \<and>
   (\<forall>k n d res' evs' n' d'. serve sv q (n, d) = ((res', evs'), n', d') \<and> Count k \<in> set evs' \<longrightarrow>
      serve_updates rc server profile (Count k # [Write x]) \<noteq> []) \<and>
   (\<forall>u m vs. (u, m, vs) \<in> set (lookup_updates ph res) \<longrightarrow> hd vs \<in> {''found'', ''notfound'', ''error'', ''panic''})"
proof -
  have "list_all well_typed (cache_updates r)" "list_all well_typed (exchange_updates ask cancelled eps)"
    "list_all well_typed (dial_updates dialer host port boot)" "list_all well_typed (lookup_updates ph res)"
    "list_all well_typed (hold_updates w)"
    by (auto simp: update_defs list_all_iff split: cache_result.splits phase.splits Discovery.result.splits)
  moreover have "list_all well_typed (set_updates l m v @ delete_updates l m)"
    if "m \<in> {DevicesKnown, DiscoveryEntries, CacheSize}" for m
    using that by (auto simp: update_defs list_all_iff instanceLabels_def)
  ultimately have "list_all well_typed (serve_updates rc server profile evs @ cache_updates r @ exchange_updates ask cancelled eps
     @ dial_updates dialer host port boot @ lookup_updates ph res @ hold_updates w
     @ concat (map (\<lambda>m. set_updates l m v @ delete_updates l m) [DevicesKnown, DiscoveryEntries, CacheSize]))"
    using serve_updates_typed [of rc server profile evs] by (simp del: well_typed.simps)
  moreover have "serve_updates rc server profile (Count k # [Write x]) \<noteq> []"
    if "serve sv q (n, d) = ((res', evs'), n', d')" "Count k \<in> set evs'" for k n d res' evs' n' d'
    using serve_counts [OF that] by (auto simp: counters_def)
  moreover have "\<forall>u m vs. (u, m, vs) \<in> set (lookup_updates ph res) \<longrightarrow> hd vs \<in> {''found'', ''notfound'', ''error'', ''panic''}"
    by (auto simp: lookup_updates_def split: phase.splits Discovery.result.splits)
  ultimately show ?thesis by blast
qed

theorem updates_match_their_vectors_witness:
  "serve_updates (\<lambda>_. ''NOERROR'') ''dns://:53'' ''abc123'' [Count ''cache_hits'', Write example_answer] \<noteq> [] \<and>
   list_all well_typed (lookup_updates Asking (Resolved ''printer''))"
proof -
  obtain evs n d res evs' n' d' w where
    "serve_all sample_services [sample_asked] (sample_instance (Some example_cache), cold) = (evs, n, d)"
    and s: "serve sample_services sample_asked (n, d) = ((res, evs'), n', d')"
    and hit: "Count ''cache_hits'' \<in> set evs'" "Write w \<in> set evs'" and r: "routed sample_asked n = ''abc123''"
    by (rule sample_warm)
  note u = updates_match_their_vectors [where rc = "\<lambda>_. ''NOERROR''" and server = "''dns://:53''" and profile = "''abc123''"
    and ph = Asking and res = "Resolved ''printer''" and x = example_answer and evs = "[]" and r = Miss and ask = "\<lambda>_. Inr ()"
    and cancelled = "\<lambda>_. False" and eps = "[]" and dialer = "\<lambda>_. Inr ()" and host = "[]" and port = "[]" and boot = "[]"
    and w = Landed and l = "sample_labels ''a''" and v = 0 and sv = sample_services and q = sample_asked]
  have "list_all well_typed (lookup_updates Asking (Resolved ''printer''))"
    using conjunct1 [OF u] by (simp del: well_typed.simps)
  moreover have "serve_updates (\<lambda>_. ''NOERROR'') ''dns://:53'' ''abc123'' [Count ''cache_hits'', Write example_answer] \<noteq> []"
    using u s hit(1) by blast
  ultimately show ?thesis by blast
qed

text \<open>
  Property C18. The counters account for every query that is routed to a profile: it is a hit
  or a miss if there is a cache, it ends as exactly one of a response, a mismatch, a refusal
  and a failure, and its exchange is timed unless it was a hit or refused. Every series it
  writes that has a profile label has the well-formed profile of the query there.
\<close>

theorem queries_are_accounted_for:
  assumes "serve sv q (n, d) = ((res, evs), n', d')" and "\<not> isDiscovery (qu_ctx q)"
    and "routed q n \<noteq> []" and "routed q n \<noteq> passthrough"
    and "us = serve_updates rc server (routed q n) evs" and "routing_ok (routing.truncate n)"
  shows "tally CacheHits us + tally CacheMisses us = (if n_cache n = None then 0 else 1) \<and>
    tally ResponseCount us + tally MismatchCount us + tally MaxConcurrentRejectCount us
      + (if fst res = RcodeServerFailure then 1 else 0) = 1 \<and>
    tally RequestDuration us + tally MaxConcurrentRejectCount us + tally CacheHits us = 1 \<and>
    (\<forall>u m vs. (u, m, vs) \<in> set us \<longrightarrow> 1 < length vs \<longrightarrow> vs ! 1 = routed q n \<and> profile_ok (routed q n))"
proof -
  have label: "\<forall>u m vs. (u, m, vs) \<in> set us \<longrightarrow> 1 < length vs \<longrightarrow> vs ! 1 = routed q n \<and> profile_ok (routed q n)"
    using upstream_is_routed [OF assms(6,1)] routed_ok [OF assms(6,4)] profile_label [of _ _ _ rc server "routed q n" evs]
    unfolding assms(5) by blast
  have inv: "tally m (replicate k (Inc, InvalidProfileCount, [])) = (if m = InvalidProfileCount then k else 0)" for m k
    by (induction k) auto
  obtain r n1 d1 where a: "arrive sv q (n, d) = (r, n1, d1)" by (metis surj_pair)
  show ?thesis
  proof (rule arrive_updates [OF a assms(2-4), where rc = rc and server = server], goal_cases hit miss)
    case (hit k e m)
    then show ?thesis using label assms(1,5) a by (auto simp: serve_def inv RcodeSuccess_def RcodeServerFailure_def)
  next
    case (miss k e)
    obtain ci pub d2 where i: "identify sv (routed q n) q n1 d1 = (ci, pub, d2)" by (metis surj_pair)
    obtain res2 up n2 where w: "with_slot (serve_upstream sv (routed q n) q ci) n1 = ((res2, up), n2)" by (metis surj_pair)
    have pub: "pub = publish (qu_metadata q) (routed q n) ci" using i by (auto simp: identify_def split: prod.splits)
    have out: "res = res2" "evs = e @ pub @ up" using assms(1) a i w miss by (simp_all add: serve_def)
    have us: "us = replicate k (Inc, InvalidProfileCount, []) @ (if n_cache n = None then [] else [(Inc, CacheMisses, [server])])
        @ serve_updates rc server (routed q n) up"
      using assms(5) out miss pub by (simp add: serve_updates_append)
    from w show ?thesis
    proof (cases rule: with_slot_cases)
      case rejected
      then show ?thesis using label us out by (simp add: inv RcodeRefused_def RcodeServerFailure_def)
    next
      case (admitted c n3)
      from admitted(2) show ?thesis
        by (cases rule: upstream_updates [where rc = rc and server = server]) (use label us out in \<open>simp_all add: inv RcodeSuccess_def RcodeServerFailure_def\<close>)
    qed
  qed
qed

theorem queries_are_accounted_for_witness:
  "\<exists>us. tally RequestDuration us + tally MaxConcurrentRejectCount us + tally CacheHits us = 1 \<and>
     tally CacheHits us + tally CacheMisses us = 0 \<and> (\<forall>vs. (Inc, ResponseCount, vs) \<in> set us \<longrightarrow> 1 < length vs \<longrightarrow> vs ! 1 = ''abc123'')"
proof -
  obtain res evs n' d' where s: "serve sample_services sample_asked (sample_instance None, cold) = ((res, evs), n', d')"
    by (metis surj_pair)
  let ?us = "serve_updates (\<lambda>_. ''NOERROR'') ''dns://:53'' ''abc123'' evs"
  have r: "routed sample_asked (sample_instance None) \<noteq> []" "routed sample_asked (sample_instance None) \<noteq> passthrough"
    by (simp_all add: sample_routed passthrough_def)
  have us: "?us = serve_updates (\<lambda>_. ''NOERROR'') ''dns://:53'' (routed sample_asked (sample_instance None)) evs"
    by (simp add: sample_routed)
  have "n_cache (sample_instance None) = None" by (simp add: sample_instance_def)
  with queries_are_accounted_for [OF s sample_not_own r us sample_config] show ?thesis
    by (intro exI [of _ ?us]) (simp add: sample_routed)
qed

text \<open>
  Loading the plugin does not panic: the metrics are registered under distinct,
  well-formed names, with distinct, well-formed labels, whatever well-formed namespace CoreDNS
  gives them.
\<close>

theorem metrics_can_be_registered:
  assumes "metric_name_ok ns"
  shows "distinct (map (fq_name ns) all_metrics) \<and> (\<forall>m. m \<in> set all_metrics) \<and>
    (\<forall>m. metric_name_ok (fq_name ns m) \<and> distinct (md_labels (declared m)) \<and> list_all label_ok (md_labels (declared m)))"
proof -
  have "distinct (map (\<lambda>m. md_name (declared m)) all_metrics)" by (simp add: all_metrics_def)
  then have "distinct (map (fq_name ns) all_metrics)"
    by (rule distinct_mapped) (simp add: fq_name_def declared_subsystem)
  moreover have "metric_name_ok (fq_name ns m)" for m
    using assms names_ok [of m] by (auto simp: metric_name_ok_def fq_name_def declared_subsystem)
  ultimately show ?thesis
    using all_metrics_complete labels_ok by blast
qed

theorem metrics_can_be_registered_witness:
  "fq_name ''coredns'' ResponseCount = ''coredns_nextdns_responses_total'' \<and>
   distinct (map (fq_name ''coredns'') all_metrics)"
proof -
  have "metric_name_ok ''coredns''" by code_simp
  from metrics_can_be_registered [OF this] show ?thesis by (simp add: fq_name_def pluginName_def)
qed

end
