(* ===== verification/Lifecycle.thy ===== *)
theory Lifecycle
  imports Plugin Metrics
begin

text \<open>
  The life of an instance: what \<open>setup\<close> registers with CoreDNS and what the callbacks do
  (\<open>setup.go\<close>, \<open>OnStartup\<close> and \<open>OnShutdown\<close> of \<open>nextdns.go\<close>, \<open>start\<close> and \<open>stop\<close> of \<open>device.go\<close>,
  \<open>drain\<close> of \<open>discovery.go\<close>). When CoreDNS calls which callback, how often, and what happens in
  between is not fixed: a life is any sequence of callbacks, ticks of the refresh and writes to
  the gauges, by this instance and by others. A refresh and its write of the gauge are two
  steps, and so are each read and write of a restoring, as the code releases its locks between
  them. Closing a channel twice would panic; a panic has no state after it.
\<close>

section \<open>An instance and its callbacks\<close>

text \<open>
  The goroutine that refreshes: the first refresh of \<open>start\<close> and those of its loop have swapped
  the table in and hold the number they are to write to the gauge, or it waits for the next
  tick, or it has ended.
\<close>

datatype worker = Starting int | Idle | Swapped int | Ended

text \<open>
  \<open>lf_work\<close> are the goroutines that \<open>start\<close> has started, \<open>lf_restoring\<close> what the running calls of
  \<open>republishGauges\<close> have left to do.
\<close>

record life =
  lf_n :: nextdns
  lf_disc :: "world option"
  lf_labels :: instance_labels
  lf_once :: bool
  lf_done :: bool
  lf_work :: "worker list"
  lf_restoring :: "restoring list"

definition no_labels :: metricLabels where
  "no_labels = \<lparr>ml_servers = [], ml_zone = [], ml_view = []\<rparr>"

definition born :: "configured \<Rightarrow> life" where
  "born cfg =
     \<lparr>lf_n = cg_nextdns cfg, lf_disc = map_option (\<lambda>(d, r). world_of d) (cg_discovery cfg),
      lf_labels = \<lparr>il_nextdns = no_labels, il_devices = no_labels,
        il_discovery = map_option (\<lambda>_. no_labels) (cg_discovery cfg),
        il_cache = map_option (\<lambda>_. no_labels) (n_cache (cg_nextdns cfg))\<rparr>,
      lf_once = False, lf_done = False, lf_work = [], lf_restoring = []\<rparr>"

text \<open>The function \<open>setup\<close>: the parser, then the callbacks in the order they are registered.\<close>

datatype callback = CaptureLabels | StartDevices | DropGauges | RestoreGauges | Shutdown

record hooks =
  hk_startup :: "callback list"
  hk_restart :: "callback list"
  hk_restartFailed :: "callback list"
  hk_shutdown :: "callback list"

definition register_plugin :: "environment \<Rightarrow> 'c controller \<Rightarrow> 'c \<Rightarrow> (setup_error + life \<times> hooks) option" where
  "register_plugin env k c =
     map_option (\<lambda>r. case r of
         Inl e \<Rightarrow> Inl e
       | Inr cfg \<Rightarrow> Inr (born cfg,
           \<lparr>hk_startup = [CaptureLabels, StartDevices], hk_restart = [DropGauges],
            hk_restartFailed = [RestoreGauges], hk_shutdown = [Shutdown]\<rparr>))
       (parseNextDNS env k c)"

lemma registered:
  assumes "register_plugin env k c = Some (Inr (i0, hk))"
  obtains cfg where "parseNextDNS env k c = Some (Inr cfg)" and "i0 = born cfg"
    and "hk_startup hk = [CaptureLabels, StartDevices]"
proof (cases "parseNextDNS env k c")
  case (Some r)
  with assms that show ?thesis by (cases r) (auto simp: register_plugin_def)
qed (use assms in \<open>simp add: register_plugin_def\<close>)

section \<open>Stopping\<close>

text \<open>\<open>close\<close> of a channel panics when it is closed already.\<close>

definition close_chan :: "bool \<Rightarrow> bool option" where
  "close_chan closed = (if closed then None else Some True)"

definition stop :: "life \<Rightarrow> life option" where
  "stop i =
     (let closed = (if lf_once i then Some (lf_done i) else close_chan (lf_done i)) in
      map_option (\<lambda>d. i\<lparr>lf_once := True, lf_done := d, lf_disc := map_option drain_step (lf_disc i)\<rparr>) closed)"

text \<open>What the wait of \<open>drain\<close> ends with, if it ends: the group is done, or the grace is over.\<close>

datatype drained = Joined | Abandoned

definition drain_wait :: "bool \<Rightarrow> world \<Rightarrow> drained option" where
  "drain_wait graceOver w =
     (if dc_wg (w_disc w) = 0 then Some Joined else if graceOver then Some Abandoned else None)"

section \<open>A life\<close>

type_synonym round = "(nat \<Rightarrow> device_table \<Rightarrow> device_table) \<times> (nat \<Rightarrow> nat) \<times> file_system"

text \<open>
  A refresh swaps the table in under the lock and writes the gauge after it has released it, so
  it is two steps: here the swap, with the number to write, and the write.
\<close>

fun refresh_table :: "round \<Rightarrow> life \<Rightarrow> life \<times> int" where
  "refresh_table (visit, victim, fs) i =
     (let (db, lgs, known) = refresh visit victim fs (n_devices (lf_n i)) in
      (i\<lparr>lf_n := (lf_n i)\<lparr>n_devices := db\<rparr>\<rparr>, known))"

definition show_known :: "life \<Rightarrow> int \<Rightarrow> gauges \<Rightarrow> gauges" where
  "show_known i known gs =
     gs\<lparr>g_devicesKnown := gauge_set (il_devices (lf_labels i)) known (g_devicesKnown gs)\<rparr>"

text \<open>\<open>OnStartup\<close> refreshes once and starts the ticker, unless there is nothing to read.\<close>

definition OnStartup :: "round \<Rightarrow> life \<Rightarrow> life" where
  "OnStartup rd i =
     (if has_source (n_devices (lf_n i)) then
        let (i, known) = refresh_table rd i in i\<lparr>lf_work := lf_work i @ [Starting known]\<rparr>
      else i)"

text \<open>The goroutine \<open>j\<close>: a tick, the write of its gauge, and its end once \<open>done\<close> is closed.\<close>

definition ticked :: "round \<Rightarrow> nat \<Rightarrow> life \<Rightarrow> life" where
  "ticked rd j i =
     (if j < length (lf_work i) \<and> lf_work i ! j = Idle then
        let (i, known) = refresh_table rd i in i\<lparr>lf_work := (lf_work i)[j := Swapped known]\<rparr>
      else i)"

definition shown :: "nat \<Rightarrow> life \<times> gauges \<Rightarrow> life \<times> gauges" where
  "shown j s =
     (case s of (i, gs) \<Rightarrow>
        if j < length (lf_work i) then
          (case lf_work i ! j of
             Starting known \<Rightarrow> (i\<lparr>lf_work := (lf_work i)[j := Idle]\<rparr>, show_known i known gs)
           | Swapped known \<Rightarrow> (i\<lparr>lf_work := (lf_work i)[j := Idle]\<rparr>, show_known i known gs)
           | _ \<Rightarrow> (i, gs))
        else (i, gs))"

definition ended :: "nat \<Rightarrow> life \<Rightarrow> life" where
  "ended j i =
     (if j < length (lf_work i) \<and> lf_work i ! j = Idle \<and> lf_done i
      then i\<lparr>lf_work := (lf_work i)[j := Ended]\<rparr> else i)"

text \<open>The next step of the call \<open>j\<close> of \<open>republishGauges\<close> that is running.\<close>

definition restored :: "nat \<Rightarrow> life \<times> gauges \<Rightarrow> life \<times> gauges" where
  "restored j s =
     (case s of (i, gs) \<Rightarrow>
        if j < length (lf_restoring i) then
          (case restore_step (il_nextdns (lf_labels i)) (lf_n i) (map_option w_disc (lf_disc i)) (lf_restoring i ! j) gs of
             (Some r, gs) \<Rightarrow> (i\<lparr>lf_restoring := (lf_restoring i)[j := r]\<rparr>, gs)
           | (None, gs) \<Rightarrow> (i\<lparr>lf_restoring := take j (lf_restoring i) @ drop (Suc j) (lf_restoring i)\<rparr>, gs))
        else (i, gs))"

text \<open>\<open>OnShutdown\<close>; closing idle connections leaves nothing of the model changed.\<close>

definition OnShutdown :: "life \<times> gauges \<Rightarrow> (life \<times> gauges) option" where
  [simp]: "OnShutdown s = (case s of (i, gs) \<Rightarrow> map_option (\<lambda>i. (i, gs)) (stop i))"

fun run_callback :: "server_config \<Rightarrow> round \<Rightarrow> callback \<Rightarrow> life \<times> gauges \<Rightarrow> (life \<times> gauges) option" where
  "run_callback sc rd CaptureLabels (i, gs) =
     Some (i\<lparr>lf_labels := setMetricLabels (metricLabelsFor sc) (lf_labels i)\<rparr>, gs)"
| "run_callback sc rd StartDevices (i, gs) =
     Some (OnStartup rd i, gs)"
| "run_callback sc rd DropGauges (i, gs) = Some (i, deleteGauges (il_nextdns (lf_labels i)) gs)"
| "run_callback sc rd RestoreGauges (i, gs) =
     Some (i\<lparr>lf_restoring := ReadDevices # lf_restoring i\<rparr>, gs)"
| "run_callback sc rd Shutdown (i, gs) = OnShutdown (i, gs)"

text \<open>
  What may happen in a life: a callback, a tick of a refreshing goroutine, its write of the gauge
  and its end once \<open>done\<close> is closed, a step of a running \<open>republishGauges\<close>, whatever queries and
  lookups do to the discoverer with a write of its gauge, a write of the cache's gauge, and
  anything other instances write. The writes of one gauge to the series of the several listen
  addresses are taken together: a statement about one series does not see the difference.
\<close>

datatype deed =
    Callback callback round
  | Tick nat round
  | Show nat
  | Quit nat
  | Restore nat
  | Names "world \<Rightarrow> world" int
  | CacheSize int
  | Others gauge_event

fun act :: "server_config \<Rightarrow> deed \<Rightarrow> life \<times> gauges \<Rightarrow> (life \<times> gauges) option" where
  "act sc (Callback cb rd) s = run_callback sc rd cb s"
| "act sc (Tick j rd) (i, gs) = Some (ticked rd j i, gs)"
| "act sc (Show j) s = Some (shown j s)"
| "act sc (Quit j) (i, gs) = Some (ended j i, gs)"
| "act sc (Restore j) s = Some (restored j s)"
| "act sc (Names f v) (i, gs) =
     Some (i\<lparr>lf_disc := map_option f (lf_disc i)\<rparr>, case il_discovery (lf_labels i) of None \<Rightarrow> gs
       | Some l \<Rightarrow> gs\<lparr>g_discoveryEntries := gauge_set l v (g_discoveryEntries gs)\<rparr>)"
| "act sc (CacheSize v) (i, gs) =
     Some (i, case il_cache (lf_labels i) of None \<Rightarrow> gs
       | Some l \<Rightarrow> gs\<lparr>g_cacheSize := gauge_set l v (g_cacheSize gs)\<rparr>)"
| "act sc (Others e) (i, gs) = Some (i, gs\<lparr>g_devicesKnown := gauge_step e (g_devicesKnown gs)\<rparr>)"

fun live :: "server_config \<Rightarrow> deed list \<Rightarrow> life \<times> gauges \<Rightarrow> (life \<times> gauges) option" where
  "live sc [] s = Some s"
| "live sc (d # ds) s = Option.bind (act sc d s) (live sc ds)"

lemma live_append: "live sc (ds @ es) s = Option.bind (live sc ds s) (live sc es)"
  by (induction ds arbitrary: s) (auto split: Option.bind_splits)

lemma live_split:
  "live sc (ds @ es) s = Some s' \<Longrightarrow> \<exists>s1. live sc ds s = Some s1 \<and> live sc es s1 = Some s'"
  by (auto simp: live_append split: Option.bind_splits)

section \<open>What a life keeps\<close>

definition fair :: "deed \<Rightarrow> bool" where
  "fair d = (case d of Names f v \<Rightarrow> \<forall>w. \<exists>n. Discovery.runs w n (f w) | _ \<Rightarrow> True)"

definition stoppable :: "life \<Rightarrow> bool" where
  "stoppable i \<longleftrightarrow> (lf_once i \<longleftrightarrow> lf_done i) \<and> pred_option world_ok (lf_disc i)
     \<and> (lf_done i \<longrightarrow> pred_option (\<lambda>w. dc_closing (w_disc w)) (lf_disc i))"


lemma refresh_table_frame:
  assumes "refresh_table rd i = (i', known)"
  shows "lf_once i' = lf_once i \<and> lf_done i' = lf_done i \<and> lf_disc i' = lf_disc i \<and> lf_labels i' = lf_labels i
    \<and> lf_work i' = lf_work i \<and> lf_restoring i' = lf_restoring i \<and> known = known_devices (lf_n i')"
  using assms
  by (cases rd) (auto simp: refresh_def known_devices_def Let_def split: prod.splits)

text \<open>The parts of an instance that only callbacks and lookups change.\<close>

definition frame :: "life \<Rightarrow> bool \<times> bool \<times> world option \<times> instance_labels" where
  "frame i = (lf_once i, lf_done i, lf_disc i, lf_labels i)"

lemma frame_steps [simp]:
  "frame (OnStartup rd i) = frame i" "frame (ticked rd j i) = frame i" "frame (ended j i) = frame i"
  "frame (fst (shown j (i, gs))) = frame i" "frame (fst (restored j (i, gs))) = frame i"
proof -
  obtain i' known where r: "refresh_table rd i = (i', known)" by (metis surj_pair)
  with refresh_table_frame [OF r] show "frame (OnStartup rd i) = frame i" "frame (ticked rd j i) = frame i"
    by (simp_all add: frame_def OnStartup_def ticked_def)
qed (auto simp: frame_def ended_def shown_def restored_def split: worker.splits option.splits prod.splits)

lemma stoppable_frame: "frame i = frame i' \<Longrightarrow> stoppable i = stoppable i'"
  by (simp add: frame_def stoppable_def)

lemma steps_keep:
  assumes "frame i' = frame i"
  shows "lf_done i' = lf_done i \<and> lf_labels i' = lf_labels i \<and> stoppable i' = stoppable i"
  using assms stoppable_frame [OF assms] by (simp add: frame_def)

lemma act_stoppable:
  assumes "stoppable i" and "fair d"
  shows "\<exists>i' gs'. act sc d (i, gs) = Some (i', gs') \<and> stoppable i' \<and> (lf_done i \<longrightarrow> lf_done i')
    \<and> (\<forall>rd. d = Callback Shutdown rd \<longrightarrow> lf_done i')"
proof (cases d)
  case (Callback cb rd)
  show ?thesis
  proof (cases cb)
    case Shutdown
    have "world_ok (drain_step w)" "dc_closing (w_disc (drain_step w))" if "world_ok w" for w
      using world_ok_moves [OF moves.drain that] by (simp_all add: drain_step_def)
    with assms(1) Callback Shutdown show ?thesis
      by (cases "lf_disc i") (auto simp: stop_def close_chan_def stoppable_def)
  next
    case StartDevices
    with assms(1) Callback steps_keep [of "OnStartup rd i" i] show ?thesis by simp
  qed (use assms(1) Callback in \<open>auto simp: stoppable_def\<close>)
next
  case (Tick j rd)
  with assms(1) steps_keep [of "ticked rd j i" i] show ?thesis by simp
next
  case (Quit j)
  with assms(1) steps_keep [of "ended j i" i] show ?thesis by simp
next
  case (Show j)
  with assms(1) steps_keep [OF frame_steps(4) [of j i gs]] show ?thesis
    by (intro exI [of _ "fst (shown j (i, gs))"] exI [of _ "snd (shown j (i, gs))"]) simp
next
  case (Restore j)
  with assms(1) steps_keep [OF frame_steps(5) [of j i gs]] show ?thesis
    by (intro exI [of _ "fst (restored j (i, gs))"] exI [of _ "snd (restored j (i, gs))"]) simp
next
  case (Names f v)
  have f: "\<exists>n. Discovery.runs w n (f w)" for w using assms(2) Names by (simp add: fair_def)
  have "world_ok (f w)" "dc_closing (w_disc w) \<Longrightarrow> dc_closing (w_disc (f w))" if "world_ok w" for w
    using f [of w] world_ok_runs [OF _ that] runs_closing [OF _ that] by blast+
  with assms(1) Names show ?thesis by (cases "lf_disc i") (auto simp: stoppable_def)
qed (use assms(1) in \<open>auto simp: stoppable_def\<close>)

lemma live_stoppable:
  "stoppable i \<Longrightarrow> list_all fair ds \<Longrightarrow>
     \<exists>i' gs'. live sc ds (i, gs) = Some (i', gs') \<and> stoppable i' \<and> (lf_done i \<longrightarrow> lf_done i')
       \<and> (\<forall>rd. Callback Shutdown rd \<in> set ds \<longrightarrow> lf_done i')"
proof (induction ds arbitrary: i gs)
  case (Cons d ds)
  then obtain i1 gs1 where a: "act sc d (i, gs) = Some (i1, gs1)" "stoppable i1" "lf_done i \<longrightarrow> lf_done i1"
    "\<forall>rd. d = Callback Shutdown rd \<longrightarrow> lf_done i1"
    using act_stoppable [of i d sc gs] by auto
  from Cons.IH [OF a(2), of gs1] Cons.prems(2) a show ?case by auto
qed simp

lemma born_stoppable:
  assumes "config_ok cfg"
  shows "stoppable (born cfg)"
  using assms
  by (cases "cg_discovery cfg")
    (auto simp: stoppable_def born_def config_ok_def Let_def discovery_config_ok_def world_ok_start)

section \<open>The gauge of known devices\<close>

definition foreign :: "server_config \<Rightarrow> deed \<Rightarrow> bool" where
  "foreign sc d = (case d of Others e \<Rightarrow> series_of (labels_of e) \<inter> series_of (metricLabelsFor sc) = {} | _ \<Rightarrow> True)"

lemma series_no_labels [simp]: "series_of no_labels = {}"
  by (simp add: series_of_def no_labels_def)

lemma foreign_keeps:
  assumes "foreign sc (Others e)" and "k \<in> series_of (metricLabelsFor sc)"
  shows "map_of (gauge_step e g) k = map_of g k"
  using assms by (cases e) (auto simp: foreign_def gauge_set_lookup gauge_delete_lookup)

text \<open>The number a goroutine holds between the swap of the table and its write.\<close>

fun pending :: "worker \<Rightarrow> int option" where
  "pending (Starting v) = Some v"
| "pending (Swapped v) = Some v"
| "pending _ = None"

definition at_rest :: "life \<Rightarrow> bool" where
  "at_rest i \<longleftrightarrow> list_all (\<lambda>w. pending w = None) (lf_work i)"

text \<open>
  What the writes of the gauge have in common: the labels are those captured at startup, none
  before, and every number under way comes from \<open>H\<close>, the counts the table has had.
\<close>

definition labelled :: "server_config \<Rightarrow> life \<Rightarrow> bool" where
  "labelled sc i \<longleftrightarrow> il_devices (lf_labels i) = il_nextdns (lf_labels i)
     \<and> il_nextdns (lf_labels i) \<in> {no_labels, metricLabelsFor sc}"

definition shows_of :: "server_config \<Rightarrow> int set \<Rightarrow> life \<Rightarrow> gauges \<Rightarrow> bool" where
  "shows_of sc H i gs \<longleftrightarrow> (\<forall>k \<in> series_of (metricLabelsFor sc). map_of (g_devicesKnown gs) k = None
     \<or> (il_nextdns (lf_labels i) = metricLabelsFor sc \<and> map_of (g_devicesKnown gs) k \<in> Some ` H))"

definition holds_of :: "int set \<Rightarrow> life \<Rightarrow> bool" where
  "holds_of H i \<longleftrightarrow> (\<forall>w \<in> set (lf_work i). set_option (pending w) \<subseteq> H)
     \<and> (\<forall>v. SetDevices v \<in> set (lf_restoring i) \<longrightarrow> v \<in> H)"

definition gauge_from :: "server_config \<Rightarrow> int set \<Rightarrow> life \<times> gauges \<Rightarrow> bool" where
  "gauge_from sc H s \<longleftrightarrow> (case s of (i, gs) \<Rightarrow>
     labelled sc i \<and> known_devices (lf_n i) \<in> H \<and> holds_of H i \<and> shows_of sc H i gs)"

lemma gauge_from_mono: "gauge_from sc H s \<Longrightarrow> H \<subseteq> H' \<Longrightarrow> gauge_from sc H' s"
  unfolding gauge_from_def shows_of_def holds_of_def by (cases s) fastforce

lemma shown_cases:
  obtains (writes) v where "j < length (lf_work i)" and "pending (lf_work i ! j) = Some v"
      and "shown j (i, gs) = (i\<lparr>lf_work := (lf_work i)[j := Idle]\<rparr>, show_known i v gs)"
    | (waits) "shown j (i, gs) = (i, gs)"
  by (cases "j < length (lf_work i)"; cases "lf_work i ! j") (auto simp: shown_def)

lemma restored_cases:
  obtains (reads) "j < length (lf_restoring i)"
      and "restored j (i, gs) = (i\<lparr>lf_restoring := (lf_restoring i)[j := SetDevices (known_devices (lf_n i))]\<rparr>, gs)"
    | (writes) v where "SetDevices v \<in> set (lf_restoring i)"
      and "restored j (i, gs) = (i\<lparr>lf_restoring := (lf_restoring i)[j := ReadNames]\<rparr>,
        gs\<lparr>g_devicesKnown := gauge_set (il_nextdns (lf_labels i)) v (g_devicesKnown gs)\<rparr>)"
    | (others) rs gs' where "restored j (i, gs) = (i\<lparr>lf_restoring := rs\<rparr>, gs')"
      and "g_devicesKnown gs' = g_devicesKnown gs"
      and "\<And>v. SetDevices v \<in> set rs \<Longrightarrow> SetDevices v \<in> set (lf_restoring i)"
proof (cases "j < length (lf_restoring i)")
  case True
  let ?r = "lf_restoring i ! j"
  have old: "SetDevices v \<in> set (lf_restoring i)" if "SetDevices v \<in> set ((lf_restoring i)[j := r])" "\<forall>v. r \<noteq> SetDevices v" for v r
    using that set_update_subset_insert [of "lf_restoring i" j r] by auto
  have del: "SetDevices v \<in> set (lf_restoring i)"
    if "SetDevices v \<in> set (take j (lf_restoring i) @ drop (Suc j) (lf_restoring i))" for v
    using that by (auto dest: in_set_takeD in_set_dropD)
  have on: thesis if "restored j (i, gs) = (i\<lparr>lf_restoring := (lf_restoring i)[j := r]\<rparr>, gs')"
    "\<forall>v. r \<noteq> SetDevices v" "g_devicesKnown gs' = g_devicesKnown gs" for r gs'
    by (rule others [OF that(1)]) (use that old in auto)
  have gone: thesis if "restored j (i, gs) = (i\<lparr>lf_restoring := take j (lf_restoring i) @ drop (Suc j) (lf_restoring i)\<rparr>, gs')"
    "g_devicesKnown gs' = g_devicesKnown gs" for gs'
    by (rule others [OF that(1)]) (use that del in auto)
  show thesis
  proof (cases ?r)
    case ReadDevices
    with True reads show thesis by (simp add: restored_def)
  next
    case (SetDevices v)
    then have "SetDevices v \<in> set (lf_restoring i)" using True by (metis nth_mem)
    then show thesis by (rule writes) (use True SetDevices in \<open>simp add: restored_def\<close>)
  next
    case ReadNames
    show thesis
    proof (cases "lf_disc i")
      case None
      show thesis by (rule on [of ReadSize gs]) (use True ReadNames None in \<open>simp_all add: restored_def\<close>)
    next
      case (Some w)
      show thesis by (rule on [of "SetNames (int (length (dc_entries (w_disc w))))" gs])
        (use True ReadNames Some in \<open>simp_all add: restored_def\<close>)
    qed
  next
    case (SetNames v)
    show thesis by (rule on [of ReadSize "snd (restored j (i, gs))"]) (use True SetNames in \<open>simp_all add: restored_def\<close>)
  next
    case ReadSize
    show thesis
    proof (cases "n_cache (lf_n i)")
      case None
      show thesis by (rule gone [of gs]) (use True ReadSize None in \<open>simp_all add: restored_def\<close>)
    next
      case (Some mc)
      show thesis by (rule on [of "SetSize (Len (mc_c mc))" gs]) (use True ReadSize Some in \<open>simp_all add: restored_def\<close>)
    qed
  next
    case (SetSize v)
    show thesis by (rule gone [of "snd (restored j (i, gs))"]) (use True SetSize in \<open>simp_all add: restored_def\<close>)
  qed
next
  case False
  then show thesis by (intro others [of "lf_restoring i" gs]) (simp_all add: restored_def)
qed

lemma started:
  assumes "refresh_table rd i = (i', known)"
  shows "known = known_devices (lf_n i')" and "frame i' = frame i" and "lf_work i' = lf_work i"
    and "lf_restoring i' = lf_restoring i" and "lf_labels i' = lf_labels i"
  using refresh_table_frame [OF assms] by (simp_all add: frame_def)

lemma show_known_shows:
  assumes "labelled sc i" and "shows_of sc H i gs" and "v \<in> H" and "lf_labels i' = lf_labels i"
  shows "shows_of sc H i' (gs\<lparr>g_devicesKnown := gauge_set (il_nextdns (lf_labels i)) v (g_devicesKnown gs)\<rparr>)"
    and "shows_of sc H i' (show_known i v gs)"
  using assms by (auto simp: labelled_def shows_of_def show_known_def gauge_set_lookup)

lemma shows_of_less:
  assumes "shows_of sc H i gs" and "lf_labels i' = lf_labels i"
    and "\<And>k. map_of (g_devicesKnown gs') k \<in> {None, map_of (g_devicesKnown gs) k}"
  shows "shows_of sc H i' gs'"
  unfolding shows_of_def
proof
  fix k
  assume "k \<in> series_of (metricLabelsFor sc)"
  then show "map_of (g_devicesKnown gs') k = None \<or> (il_nextdns (lf_labels i') = metricLabelsFor sc
      \<and> map_of (g_devicesKnown gs') k \<in> Some ` H)"
    using assms(1,2) assms(3) [of k] by (auto simp: shows_of_def)
qed

lemma holds_of_more:
  assumes "holds_of H i" and "H \<subseteq> H'" and "set (lf_work i') \<subseteq> insert w (set (lf_work i))"
    and "set_option (pending w) \<subseteq> H'" and "lf_restoring i' = lf_restoring i"
  shows "holds_of H' i'"
  unfolding holds_of_def
proof (intro conjI ballI)
  fix u
  assume "u \<in> set (lf_work i')"
  then consider "u = w" | "u \<in> set (lf_work i)" using assms(3) by blast
  then show "set_option (pending u) \<subseteq> H'"
    by cases (use assms(1,2,4) in \<open>unfold holds_of_def, blast+\<close>)
qed (use assms(1,2,5) in \<open>auto simp: holds_of_def\<close>)

lemma from_swap:
  assumes "gauge_from sc H (i, gs)" and "lf_labels i' = lf_labels i" and "lf_restoring i' = lf_restoring i"
    and "pending w = Some (known_devices (lf_n i'))" and "set (lf_work i') \<subseteq> insert w (set (lf_work i))"
  shows "gauge_from sc (insert (known_devices (lf_n i')) H) (i', gs)"
proof -
  let ?H = "insert (known_devices (lf_n i')) H"
  have a: "labelled sc i" "holds_of H i" "shows_of sc H i gs" using assms(1) by (simp_all add: gauge_from_def)
  have "holds_of ?H i'" by (rule holds_of_more [OF a(2) _ assms(5)]) (use assms(3,4) in auto)
  moreover have "shows_of sc ?H i' gs" using a(3) assms(2) by (auto simp: shows_of_def)
  ultimately show ?thesis using a(1) assms(2) by (simp add: gauge_from_def labelled_def)
qed

lemma from_startup:
  assumes "gauge_from sc H (i, gs)"
  shows "gauge_from sc (insert (known_devices (lf_n (OnStartup rd i))) H) (OnStartup rd i, gs)"
proof -
  obtain i1 known where r: "refresh_table rd i = (i1, known)" by (metis surj_pair)
  show ?thesis
  proof (cases "has_source (n_devices (lf_n i))")
    case True
    show ?thesis
      by (rule from_swap [OF assms, where w = "Starting known"]) (use r True started [OF r] in \<open>auto simp: OnStartup_def\<close>)
  qed (use gauge_from_mono [OF assms, of "insert (known_devices (lf_n i)) H"] in \<open>auto simp: OnStartup_def\<close>)
qed

lemma from_tick:
  assumes "gauge_from sc H (i, gs)"
  shows "gauge_from sc (insert (known_devices (lf_n (ticked rd j i))) H) (ticked rd j i, gs)"
proof -
  obtain i1 known where r: "refresh_table rd i = (i1, known)" by (metis surj_pair)
  show ?thesis
  proof (cases "j < length (lf_work i) \<and> lf_work i ! j = Idle")
    case True
    show ?thesis
      by (rule from_swap [OF assms, where w = "Swapped known"])
        (use r True started [OF r] set_update_subset_insert [of "lf_work i" j] in \<open>auto simp: ticked_def\<close>)
  next
    case False
    then have "ticked rd j i = i" by (auto simp: ticked_def)
    then show ?thesis using gauge_from_mono [OF assms, of "insert (known_devices (lf_n i)) H"] by auto
  qed
qed

lemma from_show:
  assumes "gauge_from sc H (i, gs)"
  shows "gauge_from sc H (shown j (i, gs))"
proof (cases rule: shown_cases [of j i gs])
  case (writes v)
  have a: "labelled sc i" "holds_of H i" "shows_of sc H i gs" using assms by (simp_all add: gauge_from_def)
  have "lf_work i ! j \<in> set (lf_work i)" using writes(1) by simp
  then have "v \<in> H" using a(2) writes(2) unfolding holds_of_def by fastforce
  moreover have "holds_of H (i\<lparr>lf_work := (lf_work i)[j := Idle]\<rparr>)"
    by (rule holds_of_more [OF a(2), where w = Idle]) (simp_all add: set_update_subset_insert)
  ultimately show ?thesis
    using assms writes(3) show_known_shows(2) [OF a(1,3)] by (simp add: gauge_from_def labelled_def)
qed (use assms in simp)

lemma from_restore:
  assumes "gauge_from sc H (i, gs)"
  shows "gauge_from sc H (restored j (i, gs))"
proof -
  have a: "labelled sc i" "known_devices (lf_n i) \<in> H" "holds_of H i" "shows_of sc H i gs"
    using assms by (simp_all add: gauge_from_def)
  have upd: "holds_of H (i\<lparr>lf_restoring := (lf_restoring i)[j := r]\<rparr>)" if "\<And>v. r = SetDevices v \<Longrightarrow> v \<in> H" for r
    using a(3) that set_update_subset_insert [of "lf_restoring i" j r] by (auto simp: holds_of_def)
  have less: "shows_of sc H (i\<lparr>lf_restoring := rs\<rparr>) gs'" if "g_devicesKnown gs' = g_devicesKnown gs" for rs gs'
    by (rule shows_of_less [OF a(4)]) (simp_all add: that)
  show ?thesis
  proof (cases rule: restored_cases [of j i gs])
    case reads
    with a upd [of "SetDevices (known_devices (lf_n i))"] less [of gs] show ?thesis
      by (simp add: gauge_from_def labelled_def)
  next
    case (writes v)
    then have "v \<in> H" using a(3) by (simp add: holds_of_def)
    with a writes upd [of ReadNames] show_known_shows(1) [OF a(1,4)] show ?thesis
      by (simp add: gauge_from_def labelled_def)
  next
    case (others rs gs')
    with a less [of gs' rs] show ?thesis by (auto simp: gauge_from_def labelled_def holds_of_def)
  qed
qed

lemma act_from:
  assumes "gauge_from sc H (i, gs)" and "foreign sc d" and "act sc d (i, gs) = Some (i', gs')"
  shows "gauge_from sc (insert (known_devices (lf_n i')) H) (i', gs')"
proof -
  have a: "labelled sc i" "known_devices (lf_n i) \<in> H" "holds_of H i" "shows_of sc H i gs"
    using assms(1) by (simp_all add: gauge_from_def)
  have keep: ?thesis if "gauge_from sc H (i', gs')" using that by (rule gauge_from_mono) blast
  have less: ?thesis if "lf_labels i' = lf_labels i" "lf_n i' = lf_n i" "lf_work i' = lf_work i"
    "\<And>v. SetDevices v \<in> set (lf_restoring i') \<Longrightarrow> SetDevices v \<in> set (lf_restoring i)"
    "\<And>k. k \<in> series_of (metricLabelsFor sc) \<Longrightarrow> map_of (g_devicesKnown gs') k \<in> {None, map_of (g_devicesKnown gs) k}"
    by (rule keep) (use a that in \<open>fastforce simp: gauge_from_def labelled_def holds_of_def shows_of_def\<close>)
  show ?thesis
  proof (cases d)
    case (Callback cb rd)
    show ?thesis
    proof (cases cb)
      case CaptureLabels
      show ?thesis
        by (rule keep) (use assms(3) Callback CaptureLabels a in
          \<open>auto simp: gauge_from_def labelled_def holds_of_def shows_of_def setMetricLabels_def\<close>)
    next
      case StartDevices
      with from_startup [OF assms(1), of rd] assms(3) Callback show ?thesis by auto
    qed (rule less; use assms(3) Callback in
      \<open>auto simp: deleteGauges_def gauge_delete_lookup stop_def close_chan_def split: if_splits\<close>)+
  next
    case (Tick j rd)
    with from_tick [OF assms(1), of rd j] assms(3) show ?thesis by auto
  next
    case (Show j)
    with from_show [OF assms(1), of j] assms(3) keep show ?thesis by simp
  next
    case (Quit j)
    show ?thesis
      by (rule keep) (use assms(3) Quit a holds_of_more [OF a(3), where w = Ended, of H] set_update_subset_insert [of "lf_work i" j Ended] in
        \<open>auto simp: gauge_from_def labelled_def shows_of_def ended_def split: if_splits\<close>)
  next
    case (Restore j)
    with from_restore [OF assms(1), of j] assms(3) keep show ?thesis by simp
  next
    case (Others e)
    show ?thesis
      by (rule less) (use assms(2,3) Others foreign_keeps [of sc e _ "g_devicesKnown gs"] in auto)
  qed (rule less; use assms(3) in \<open>auto split: option.splits\<close>)+
qed

text \<open>The counts the table has had in a life, and that nothing else is ever shown.\<close>

definition past :: "server_config \<Rightarrow> deed list \<Rightarrow> life \<times> gauges \<Rightarrow> int set" where
  "past sc ds s = {known_devices (lf_n i) | pre post i gs. ds = pre @ post \<and> live sc pre s = Some (i, gs)}"

lemma past_here: "live sc ds s = Some (i, gs) \<Longrightarrow> known_devices (lf_n i) \<in> past sc ds s"
  unfolding past_def by (metis (mono_tags, lifting) append_Nil2 mem_Collect_eq)

lemma past_more: "past sc ds s \<subseteq> past sc (ds @ es) s"
  unfolding past_def by fastforce

lemma live_from:
  assumes "gauge_from sc {known_devices (lf_n i0)} (i0, gs0)" and "live sc ds (i0, gs0) = Some s'"
    and "list_all (foreign sc) ds"
  shows "gauge_from sc (past sc ds (i0, gs0)) s'"
  using assms(2,3)
proof (induction ds arbitrary: s' rule: rev_induct)
  case Nil
  with gauge_from_mono [OF assms(1)] past_here [of sc "[]" "(i0, gs0)" i0 gs0] show ?case by simp
next
  case (snoc d ds)
  obtain i gs where l: "live sc ds (i0, gs0) = Some (i, gs)" and a: "act sc d (i, gs) = Some s'"
    using snoc.prems(1) by (auto simp: live_append split: Option.bind_splits)
  obtain i' gs' where s': "s' = (i', gs')" by (metis surj_pair)
  have "known_devices (lf_n i') \<in> past sc (ds @ [d]) (i0, gs0)"
    using past_here snoc.prems(1) unfolding s' .
  with act_from [OF snoc.IH [OF l], of d i' gs'] snoc.prems(2) a show ?case
    unfolding s' by (auto intro: gauge_from_mono [OF _ ] simp: past_more [THEN subsetD])
qed

text \<open>
  With one refreshing goroutine and no call of \<open>republishGauges\<close>, a number under way is the
  current one, so once nothing is under way the gauge is exact.
\<close>

definition starts :: "deed \<Rightarrow> bool" where
  "starts d = (case d of Callback StartDevices r \<Rightarrow> True | _ \<Rightarrow> False)"

definition restores :: "deed \<Rightarrow> bool" where
  "restores d = (case d of Callback RestoreGauges r \<Rightarrow> True | _ \<Rightarrow> False)"

definition alone :: "server_config \<Rightarrow> nat \<Rightarrow> life \<times> gauges \<Rightarrow> bool" where
  "alone sc m s \<longleftrightarrow> (case s of (i, gs) \<Rightarrow>
     lf_restoring i = [] \<and> length (lf_work i) \<le> m
     \<and> (\<forall>w \<in> set (lf_work i). set_option (pending w) \<subseteq> {known_devices (lf_n i)})
     \<and> (at_rest i \<longrightarrow> shows_of sc {known_devices (lf_n i)} i gs))"

lemma alone_work:
  assumes "alone sc (Suc 0) (i, gs)" and "j < length (lf_work i)"
  shows "j = 0 \<and> lf_work i = [lf_work i ! j]"
  using assms by (cases "lf_work i") (auto simp: alone_def)

lemma alone_same:
  assumes "alone sc m (i, gs)" and "lf_n i' = lf_n i" and "lf_work i' = lf_work i" and "lf_restoring i' = lf_restoring i"
    and "lf_labels i' = lf_labels i" and "m \<le> m'"
    and "\<And>k. k \<in> series_of (metricLabelsFor sc) \<Longrightarrow> map_of (g_devicesKnown gs') k \<in> {None, map_of (g_devicesKnown gs) k}"
  shows "alone sc m' (i', gs')"
  using assms by (fastforce simp: alone_def at_rest_def shows_of_def)

lemma alone_startup:
  assumes "alone sc 0 (i, gs)"
  shows "alone sc (Suc 0) (OnStartup rd i, gs)"
proof (cases "has_source (n_devices (lf_n i))")
  case True
  obtain i1 known where r: "refresh_table rd i = (i1, known)" by (metis surj_pair)
  with True assms started [OF r] show ?thesis by (auto simp: alone_def OnStartup_def at_rest_def)
next
  case False
  then show ?thesis using alone_same [OF assms, of i "Suc 0" gs] by (simp add: OnStartup_def)
qed

lemma alone_tick:
  assumes "alone sc m (i, gs)" and "m \<le> Suc 0"
  shows "alone sc m (ticked rd j i, gs)"
proof (cases "j < length (lf_work i) \<and> lf_work i ! j = Idle")
  case True
  obtain i1 known where r: "refresh_table rd i = (i1, known)" by (metis surj_pair)
  have "alone sc (Suc 0) (i, gs)" using assms by (auto simp: alone_def)
  with True alone_work have "j = 0" "lf_work i = [Idle]" by metis+
  with r assms(1) started [OF r] show ?thesis by (auto simp: alone_def ticked_def at_rest_def)
qed (use assms(1) in \<open>auto simp: ticked_def\<close>)

lemma alone_show:
  assumes "alone sc m (i, gs)" and "m \<le> Suc 0" and "gauge_from sc H (i, gs)"
  shows "alone sc m (shown j (i, gs))"
proof (cases rule: shown_cases [of j i gs])
  case (writes v)
  have "alone sc (Suc 0) (i, gs)" using assms(1,2) by (auto simp: alone_def)
  from alone_work [OF this writes(1)] have w: "j = 0" "lf_work i = [lf_work i ! j]" by blast+
  have l: "lf_work i ! j \<in> set (lf_work i)" using writes(1) by simp
  then have v: "v = known_devices (lf_n i)" using assms(1) writes(2) unfolding alone_def by fastforce
  have "shows_of sc {v} (i\<lparr>lf_work := (lf_work i)[j := Idle]\<rparr>) (show_known i v gs)"
    using assms(3) by (auto simp: gauge_from_def labelled_def shows_of_def show_known_def gauge_set_lookup)
  moreover have "(lf_work i)[j := Idle] = [Idle]" using w by (metis list_update_code(2))
  moreover have "length (lf_work i) = Suc 0" using w(2) by (metis length_Cons list.size(3))
  ultimately show ?thesis using assms(1) writes(3) v by (auto simp: alone_def)
qed (use assms(1) in simp)

lemma alone_quit:
  assumes "alone sc m (i, gs)" and "m \<le> Suc 0"
  shows "alone sc m (ended j i, gs)"
proof (cases "j < length (lf_work i) \<and> lf_work i ! j = Idle \<and> lf_done i")
  case True
  have "alone sc (Suc 0) (i, gs)" using assms by (auto simp: alone_def)
  with True alone_work have "j = 0" "lf_work i = [Idle]" by metis+
  with True assms(1) show ?thesis by (auto simp: alone_def ended_def at_rest_def shows_of_def)
qed (use assms(1) in \<open>auto simp: ended_def\<close>)

lemma act_alone:
  assumes "alone sc m (i, gs)" and "gauge_from sc H (i, gs)" and "foreign sc d" and "\<not> restores d"
    and "act sc d (i, gs) = Some (i', gs')" and "m + (if starts d then 1 else 0) \<le> Suc 0"
  shows "alone sc (m + (if starts d then 1 else 0)) (i', gs')"
proof -
  note same = alone_same [OF assms(1), of i' "m + (if starts d then 1 else 0)" gs']
  show ?thesis
  proof (cases d)
    case (Callback cb rd)
    show ?thesis
    proof (cases cb)
      case CaptureLabels
      with assms(1,5) Callback show ?thesis
        by (fastforce simp: alone_def at_rest_def shows_of_def starts_def setMetricLabels_def)
    next
      case StartDevices
      then have "starts d" using Callback by (simp add: starts_def)
      with assms(1,5,6) Callback StartDevices alone_startup [of sc i gs rd] show ?thesis by simp
    next
      case RestoreGauges
      with assms(4) Callback show ?thesis by (simp add: restores_def)
    qed (rule same; use assms(5) Callback in
      \<open>auto simp: deleteGauges_def gauge_delete_lookup stop_def close_chan_def split: if_splits\<close>)+
  next
    case (Tick j rd)
    with alone_tick [OF assms(1), of rd j] assms(5,6) show ?thesis by (auto simp: starts_def)
  next
    case (Show j)
    with alone_show [OF assms(1) _ assms(2), of j] assms(5,6) show ?thesis by (auto simp: starts_def)
  next
    case (Quit j)
    with alone_quit [OF assms(1), of j] assms(5,6) show ?thesis by (auto simp: starts_def)
  next
    case (Restore j)
    with assms(1,5) show ?thesis by (auto simp: starts_def alone_def restored_def)
  next
    case (Others e)
    show ?thesis
      by (rule same) (use assms(3,5) Others foreign_keeps [of sc e _ "g_devicesKnown gs"] in auto)
  qed (rule same; use assms(5) in \<open>auto split: option.splits\<close>)+
qed

lemma live_alone:
  assumes "gauge_from sc {known_devices (lf_n i0)} (i0, gs0)" and "alone sc 0 (i0, gs0)"
    and "live sc ds (i0, gs0) = Some s'" and "list_all (foreign sc) ds"
    and "list_all (\<lambda>d. \<not> restores d) ds" and "length (filter starts ds) \<le> Suc 0"
  shows "alone sc (length (filter starts ds)) s'"
  using assms(3-)
proof (induction ds arbitrary: s' rule: rev_induct)
  case (snoc d ds)
  obtain i gs where l: "live sc ds (i0, gs0) = Some (i, gs)" and a: "act sc d (i, gs) = Some s'"
    using snoc.prems(1) by (auto simp: live_append split: Option.bind_splits)
  have f: "list_all (foreign sc) ds" using snoc.prems(2) by simp
  have "alone sc (length (filter starts ds)) (i, gs)"
    by (rule snoc.IH [OF l]) (use snoc.prems in \<open>auto split: if_splits\<close>)
  from act_alone [OF this live_from [OF assms(1) l f], of d "fst s'" "snd s'"] snoc.prems a
  show ?case by (auto split: if_splits)
qed (use assms(2) in simp)

section \<open>The labels of an instance\<close>

lemma act_labels:
  assumes "act sc d (i, gs) = Some (i', gs')"
  shows "il_nextdns (lf_labels i') = (if \<exists>rd. d = Callback CaptureLabels rd then metricLabelsFor sc else il_nextdns (lf_labels i))"
proof (cases d)
  case (Callback cb rd)
  show ?thesis
  proof (cases cb)
    case StartDevices
    with assms Callback steps_keep [OF frame_steps(1) [of rd i]] show ?thesis by auto
  next
    case CaptureLabels
    with assms Callback show ?thesis by (cases rd) (auto simp: setMetricLabels_def)
  qed (use assms Callback in \<open>auto simp: stop_def Let_def split: if_splits\<close>)
next
  case (Tick j rd)
  with assms steps_keep [OF frame_steps(2) [of rd j i]] show ?thesis by auto
next
  case (Quit j)
  with assms steps_keep [OF frame_steps(3) [of j i]] show ?thesis by auto
next
  case (Show j)
  with assms steps_keep [OF frame_steps(4) [of j i gs]] show ?thesis by auto
next
  case (Restore j)
  with assms steps_keep [OF frame_steps(5) [of j i gs]] show ?thesis by auto
qed (use assms in \<open>auto split: option.splits\<close>)

lemma live_labels:
  "live sc ds (i, gs) = Some (i', gs') \<Longrightarrow>
     il_nextdns (lf_labels i) = metricLabelsFor sc \<or> (\<exists>rd. Callback CaptureLabels rd \<in> set ds) \<Longrightarrow>
     il_nextdns (lf_labels i') = metricLabelsFor sc"
proof (induction ds arbitrary: i gs)
  case (Cons d ds)
  then obtain i1 gs1 where a: "act sc d (i, gs) = Some (i1, gs1)" and l: "live sc ds (i1, gs1) = Some (i', gs')"
    by (auto split: Option.bind_splits)
  show ?case by (rule Cons.IH [OF l]) (use act_labels [OF a] Cons.prems(2) in auto)
qed simp

text \<open>A restoring call that nothing disturbs up to its first write, and the first refresh.\<close>

lemma restore_undisturbed:
  assumes "live sc [Callback RestoreGauges r, Restore 0, Restore 0] (i, gs) = Some (i', gs')"
    and "key \<in> series_of (il_nextdns (lf_labels i))"
  shows "map_of (g_devicesKnown gs') key = Some (known_devices (lf_n i'))"
  using assms by (auto simp: restored_def gauge_set_lookup)

lemma startup_shows:
  assumes "live sc [Callback CaptureLabels r, Callback StartDevices r, Show 0] (i, gs) = Some (i', gs')"
    and "lf_work i = []" and "has_source (n_devices (lf_n i))" and "key \<in> series_of (metricLabelsFor sc)"
  shows "map_of (g_devicesKnown gs') key = Some (known_devices (lf_n i'))"
proof -
  let ?i = "i\<lparr>lf_labels := setMetricLabels (metricLabelsFor sc) (lf_labels i)\<rparr>"
  obtain i1 known where t: "refresh_table r ?i = (i1, known)" by (metis surj_pair)
  with assms started [OF t] show ?thesis
    by (cases r) (auto simp: OnStartup_def shown_def show_known_def setMetricLabels_def gauge_set_lookup)
qed

lemma born_gauge:
  assumes "\<forall>key \<in> series_of (metricLabelsFor sc). map_of (g_devicesKnown gs) key = None"
  shows "gauge_from sc {known_devices (lf_n (born cfg))} (born cfg, gs)" and "alone sc 0 (born cfg, gs)"
  using assms
  by (simp_all add: born_def gauge_from_def labelled_def holds_of_def shows_of_def alone_def at_rest_def)

section \<open>Properties\<close>

text \<open>
  Property C20. Whatever callbacks CoreDNS runs, in whatever order and however often, no channel
  is closed twice; and once the shutdown has run, the refresh is told to end, the discoverer
  admits no lookup for the rest of the instance's life, and the wait of the shutdown is joined
  exactly when the last lookup has ended.
\<close>

theorem shutdown_is_final:
  assumes "register_plugin env k c = Some (Inr (i0, hk))" and "list_all fair ds"
  shows "\<exists>i gs. live sc ds (i0, gs0) = Some (i, gs) \<and>
    (\<forall>rd. Callback Shutdown rd \<in> set ds \<longrightarrow> lf_done i \<and> (\<forall>w. lf_disc i = Some w \<longrightarrow>
       dc_closing (w_disc w) \<and> (drain_wait False w = Some Joined \<longleftrightarrow> w_lookups w = [])))"
proof -
  obtain cfg where "parseNextDNS env k c = Some (Inr cfg)" and "i0 = born cfg"
    by (rule registered [OF assms(1)])
  then have "stoppable i0" using born_stoppable [OF accepted_config_ok] by simp
  from live_stoppable [OF this assms(2)] obtain i gs where l: "live sc ds (i0, gs0) = Some (i, gs)"
    and s: "stoppable i" and d: "\<forall>rd. Callback Shutdown rd \<in> set ds \<longrightarrow> lf_done i"
    by blast
  have "drain_wait False w = Some Joined \<longleftrightarrow> w_lookups w = []" if "lf_disc i = Some w" for w
    using s that by (simp add: stoppable_def drain_wait_def world_ok_def lookups_ok_def)
  with l s d show ?thesis by (auto simp: stoppable_def)
qed

text \<open>
  Property C19. What the gauge of known devices shows, in each of an instance's series, as long as
  no other instance writes under its labels: nothing, or a number of devices the table has had
  since the instance began; with one refreshing goroutine and no restoring, and no write
  outstanding, nothing or the number the last refresh found; after the startup, if there is a
  source, and after an abandoned reload whose restoring nothing disturbs, exactly that number.
\<close>

theorem known_devices_gauge:
  assumes "register_plugin env k c = Some (Inr (i0, hk))" and "live sc ds (i0, gs0) = Some (i, gs)"
    and "list_all (foreign sc) ds" and "key \<in> series_of (metricLabelsFor sc)"
    and "\<forall>key \<in> series_of (metricLabelsFor sc). map_of (g_devicesKnown gs0) key = None"
  shows "(map_of (g_devicesKnown gs) key = None \<or>
      (\<exists>pre post i1 gs1. ds = pre @ post \<and> live sc pre (i0, gs0) = Some (i1, gs1) \<and>
        map_of (g_devicesKnown gs) key = Some (known_devices (lf_n i1)))) \<and>
    (list_all (\<lambda>d. \<not> restores d) ds \<and> length (filter starts ds) \<le> 1 \<and> at_rest i \<longrightarrow>
       map_of (g_devicesKnown gs) key \<in> {None, Some (known_devices (lf_n i))}) \<and>
    (\<forall>r. ds = map (\<lambda>cb. Callback cb r) (hk_startup hk) @ [Show 0] \<and> has_source (n_devices (lf_n i0)) \<longrightarrow>
       map_of (g_devicesKnown gs) key = Some (known_devices (lf_n i))) \<and>
    (\<forall>pre r r'. ds = pre @ [Callback RestoreGauges r, Restore 0, Restore 0] \<and> Callback CaptureLabels r' \<in> set pre \<longrightarrow>
       map_of (g_devicesKnown gs) key = Some (known_devices (lf_n i)))"
proof (intro conjI allI impI)
  obtain cfg where i0: "i0 = born cfg" and hk: "hk_startup hk = [CaptureLabels, StartDevices]"
    by (rule registered [OF assms(1)])
  have b: "gauge_from sc {known_devices (lf_n i0)} (i0, gs0)" "alone sc 0 (i0, gs0)"
    using assms(5) unfolding i0 by (rule born_gauge)+
  show "map_of (g_devicesKnown gs) key = None \<or>
      (\<exists>pre post i1 gs1. ds = pre @ post \<and> live sc pre (i0, gs0) = Some (i1, gs1) \<and>
        map_of (g_devicesKnown gs) key = Some (known_devices (lf_n i1)))"
    using live_from [OF b(1) assms(2,3)] assms(4) by (auto simp: gauge_from_def shows_of_def past_def)
  show "map_of (g_devicesKnown gs) key \<in> {None, Some (known_devices (lf_n i))}"
    if "list_all (\<lambda>d. \<not> restores d) ds \<and> length (filter starts ds) \<le> 1 \<and> at_rest i"
    using live_alone [OF b assms(2,3)] that assms(4) by (auto simp: alone_def shows_of_def)
  show "map_of (g_devicesKnown gs) key = Some (known_devices (lf_n i))"
    if "ds = map (\<lambda>cb. Callback cb r) (hk_startup hk) @ [Show 0] \<and> has_source (n_devices (lf_n i0))" for r
    by (rule startup_shows [of sc r i0 gs0]) (use assms(2,4) that hk i0 in \<open>simp_all add: born_def\<close>)
  show "map_of (g_devicesKnown gs) key = Some (known_devices (lf_n i))"
    if "ds = pre @ [Callback RestoreGauges r, Restore 0, Restore 0] \<and> Callback CaptureLabels r' \<in> set pre" for pre r r'
  proof -
    have "live sc (pre @ [Callback RestoreGauges r, Restore 0, Restore 0]) (i0, gs0) = Some (i, gs)"
      using assms(2) that by simp
    from live_split [OF this] obtain s1 where s1: "live sc pre (i0, gs0) = Some s1"
      "live sc [Callback RestoreGauges r, Restore 0, Restore 0] s1 = Some (i, gs)" by blast
    obtain i1 gs1 where "s1 = (i1, gs1)" by (metis surj_pair)
    with s1 have l: "live sc pre (i0, gs0) = Some (i1, gs1)"
      and a: "live sc [Callback RestoreGauges r, Restore 0, Restore 0] (i1, gs1) = Some (i, gs)" by (simp_all only:)
    have "il_nextdns (lf_labels i1) = metricLabelsFor sc" by (rule live_labels [OF l]) (use that in blast)
    with restore_undisturbed [OF a] assms(4) show ?thesis by simp
  qed
qed


lemma sample_registered:
  obtains i0 hk where "register_plugin sample_env lines_controller sample_corefile = Some (Inr (i0, hk))"
proof -
  obtain cfg where "parseNextDNS sample_env lines_controller sample_corefile = Some (Inr cfg)" by (rule sample_parse)
  then show ?thesis using that by (simp add: register_plugin_def)
qed

definition sample_server :: server_config where
  "sample_server = \<lparr>sc_Zone = ''.'', sc_ViewName = ''a'', sc_ListenHosts = [''10.0.0.1'', ''::1''],
     sc_Transport = ''dns'', sc_Port = ''53''\<rparr>"

definition no_gauges :: gauges where
  "no_gauges = \<lparr>g_devicesKnown = [], g_discoveryEntries = [], g_cacheSize = []\<rparr>"

definition sample_round :: round where
  "sample_round = (\<lambda>i m. m, \<lambda>_. 0, two_hosts)"

theorem shutdown_is_final_witness:
  "\<exists>i0 hk i gs. register_plugin sample_env lines_controller sample_corefile = Some (Inr (i0, hk)) \<and>
     live sample_server [Callback Shutdown sample_round, Callback Shutdown sample_round] (i0, no_gauges) = Some (i, gs) \<and> lf_done i"
proof -
  obtain i0 hk where r: "register_plugin sample_env lines_controller sample_corefile = Some (Inr (i0, hk))"
    by (rule sample_registered)
  have "list_all fair [Callback Shutdown sample_round, Callback Shutdown sample_round]" by (simp add: fair_def)
  from shutdown_is_final [OF r this] r show ?thesis by fastforce
qed

theorem known_devices_gauge_witness:
  "\<exists>i0 hk i gs. register_plugin sample_env lines_controller sample_corefile = Some (Inr (i0, hk)) \<and>
     live sample_server [Callback CaptureLabels sample_round, Callback DropGauges sample_round,
       Callback RestoreGauges sample_round, Restore 0, Restore 0] (i0, no_gauges) = Some (i, gs) \<and>
     map_of (g_devicesKnown gs) (''dns://[::1]:53'', ''.'', ''a'') = Some (known_devices (lf_n i))"
proof -
  let ?pre = "[Callback CaptureLabels sample_round, Callback DropGauges sample_round]"
  let ?ds = "?pre @ [Callback RestoreGauges sample_round, Restore 0, Restore 0]"
  obtain i0 hk where r: "register_plugin sample_env lines_controller sample_corefile = Some (Inr (i0, hk))"
    by (rule sample_registered)
  have "live sample_server ?ds (i0, no_gauges) \<noteq> None" by simp
  then obtain i gs where l: "live sample_server ?ds (i0, no_gauges) = Some (i, gs)" by (metis not_None_eq surj_pair)
  have f: "list_all (foreign sample_server) ?ds" by (simp add: foreign_def)
  have k: "(''dns://[::1]:53'', ''.'', ''a'') \<in> series_of (metricLabelsFor sample_server)" by code_simp
  have n: "\<forall>key \<in> series_of (metricLabelsFor sample_server). map_of (g_devicesKnown no_gauges) key = None"
    by (simp add: no_gauges_def)
  have "Callback CaptureLabels sample_round \<in> set ?pre" by simp
  with known_devices_gauge [OF r l f k n] have "map_of (g_devicesKnown gs) (''dns://[::1]:53'', ''.'', ''a'')
      = Some (known_devices (lf_n i))" by blast
  with r l show ?thesis by auto
qed







end
