(* ===== verification/Spec2Isabelle.thy ===== *)
theory Spec2Isabelle
  imports Prelude Netip Addresses Table Store Dns MsgCache Sources Device Discovery Transport Doh Routes Handler
    OwnLookups System Options Setup Plugin Metrics Concurrent Meters Lifecycle
begin

text \<open>
  \<^bold>\<open>A verification development for coredns-nextdns.\<close> The plugin resolves the queries of a
  CoreDNS server block through the NextDNS DNS-over-HTTPS endpoint. A query is routed to a
  profile, answered from a profile-aware cache or sent upstream with the identity of the client
  that asked it; the identity comes from configured names, lease files, the ARP table and
  reverse DNS. The theories translate the Go code of the repository definition by definition,
  in the order the code has them, and prove what makes it correct.

  \<^bold>\<open>Theories and code.\<close>

  \<^item> \<open>Prelude\<close>: Go's 64-bit arithmetic, strings with UTF-8 decoding, line scanners and maps.
    \<open>Netip\<close>: the parts of \<open>net/netip\<close>, \<open>net\<close> and \<open>strconv\<close> the plugin calls; \<open>Addresses\<close>: the text
    of an address is parsed back to it. \<open>Dns\<close>: messages and
    requests, and the interface of an answer cache. \<open>Table\<close>: the interfaces of keyed and bounded
    tables with eviction.
  \<^item> \<open>Store\<close> (\<open>store.go\<close>): the sharded store; concurrent additions as two atomic steps each.
  \<^item> \<open>MsgCache\<close> (\<open>cache.go\<close>): keys, lifetimes, lookup and insertion of answers.
  \<^item> \<open>Sources\<close> (\<open>sources.go\<close>): the readers of hosts, dnsmasq, dhcpd and ARP files.
  \<^item> \<open>Device\<close> (\<open>device.go\<close>): names, IDs, headers, the refresh and the remembered bindings.
  \<^item> \<open>Discovery\<close> (\<open>discovery.go\<close>): reverse DNS; the locked sections of queries and lookups as an
    interleaving of steps, with the shutdown.
  \<^item> \<open>Transport\<close> (\<open>doh.go\<close>): how \<open>newDOHClient\<close> configures the HTTP client, and redirects.
  \<^item> \<open>Doh\<close> (\<open>doh.go\<close>): endpoints, dialling through bootstrap addresses, failover, configuration
    times.
  \<^item> \<open>Routes\<close> (\<open>nextdns.go\<close>, \<open>setup.go\<close>): validators, client subnets, \<open>profileFor\<close>,
    \<open>reachableRoutes\<close>.
  \<^item> \<open>Handler\<close> (\<open>nextdns.go\<close>): \<open>ServeDNS\<close> as a function from a query and the states to a result,
    events and states, made of \<open>arrive\<close>, \<open>identify\<close> and \<open>serve_upstream\<close>; sequences of queries.
  \<^item> \<open>OwnLookups\<close> (\<open>discovery.go\<close>): the writer and the body of a reverse lookup, and its way through
    CoreDNS back to the handler.
  \<^item> \<open>System\<close> (\<open>nextdns.go\<close>): any number of queries at once. The pieces of \<open>ServeDNS\<close> are the
    steps, interleaved with refreshes, dials and reverse lookups; serving queries one after the
    other is a special case.
  \<^item> \<open>Options\<close>, \<open>Setup\<close> (\<open>setup.go\<close>): the options as setters in a table, \<open>parseNextDNS\<close> over an
    arbitrary \<open>caddy.Controller\<close>, and the warning at startup.
  \<^item> \<open>Plugin\<close>: the running system with the discoverer and the device table inside it, from
    what the parser returns.
  \<^item> \<open>Metrics\<close> (\<open>metrics.go\<close>): labels and series of the gauges. \<open>Meters\<close> (\<open>metrics.go\<close> and every
    place that writes a metric): the declarations and the updates.
  \<^item> \<open>Concurrent\<close> (\<open>cache.go\<close>, \<open>store.go\<close>, \<open>doh.go\<close>): lookups, insertions and configuration
    reports in the pieces their locks allow, and the gauge of the cache's size.
  \<^item> \<open>Lifecycle\<close> (\<open>setup.go\<close>, \<open>nextdns.go\<close>, \<open>device.go\<close>): what \<open>setup\<close> registers, the callbacks, and
    lives of an instance as sequences of callbacks, ticks, and gauge reads and writes in any order.

  \<^bold>\<open>State and operations.\<close> Structs are records with the fields of the code (\<open>db_static\<close> is
  \<open>deviceDB.static\<close>); Go maps are association lists without duplicate keys, and wherever the
  order of iteration matters a parameter chooses it. Errors are values of a sum type with a
  constructor per message. Signed 64-bit arithmetic that can leave its range is wrapped with
  \<open>wrap64\<close>; hashes, TTLs and rotation counters are words. A locked section is one function of
  the state, and concurrency is a relation that interleaves locked sections.

  \<^bold>\<open>Parameters.\<close> What is not in the repository is an argument: the xxhash function, the DNS wire
  format and \<open>MinimalTTL\<close>, URL and HTTP-date parsing, the dialer and the HTTP round trip, the
  file system, the next plugin and its \<open>ClientWrite\<close>, \<open>Match\<close> and \<open>SetRcode\<close>, \<open>parse.HostPort\<close>,
  the caddy controller, and the product of floating-point numbers in \<open>time.ParseDuration\<close>.
  Theorems hold for every such argument unless a hypothesis says what is needed of it.

  \<^bold>\<open>Interfaces.\<close> \<open>table\<close> and \<open>bounded_table\<close> are interpreted on the shards of the store, the
  remembered bindings and the discovery table; \<open>answer_cache\<close> on the cache, and the theorems of
  \<open>System\<close> that answers never leak rest on that interpretation.

  \<^bold>\<open>What the lemmas show.\<close> Cache and store: capacity, eviction, lifetimes, round trips, no
  leak through hash collisions. Sources and devices: each reader against a reference that says
  which line wins, refreshes independent of map order, printable headers, bindings that outlive
  ARP entries. Discovery: at most 64 lookups, one per address, a bounded table, every held query
  released, and a shutdown that drains. DoH: no resolver is used for a bootstrapped host, and
  failover returns the first answer or the last error. Handler: one answer per query, slots
  given back, own lookups never sent upstream. OwnLookups: a reverse lookup presents the address of
  the device; one that comes around to the handler is not sent on, and not repeated while its
  result is in the table. Concurrent: the undivided lookups, insertions and reports that \<open>System\<close>
  takes as steps are refined by the pieces the code takes them in. System: the invariants of
  slots, profiles and cache under every interleaving. Plugin: everything kept is bounded. Meters: no update panics, and the counters account for every query. Lifecycle: no
  channel is closed twice, the shutdown is final, and the gauge of known devices shows only
  numbers the table has had: the current one if no restoring takes part and after one that
  nothing disturbs, but an old one can stay when a refresh comes in between. Options: an accepted
  configuration satisfies what the other theorems assume, the order of the options does not
  matter, tuning without its feature is rejected, and the parser returns wherever the controller
  lets it. The theorems at the end of this file compose parser, system, cache and client.

  \<^bold>\<open>Bounds and termination.\<close> No definition uses fuel. Loops over data are structural or have a
  measure; the loops over the controller's tokens are partial functions, and \<open>parser_returns\<close>
  shows that they return unless the controller, out of tokens, keeps offering a property that may
  stand without arguments, of which there are three; standing still on one of those, the loop over
  the block does not end. \<open>client_Do\<close> is one too, as nothing bounds the redirects a client follows;
  with the plugin's configuration it returns at once. A lookup of the discoverer ends within five
  of its own steps. The lifetime of an answer is exact when it fits the 32-bit TTL.

  \<^bold>\<open>Not modelled.\<close> The registration with CoreDNS and the order in which it runs the callbacks,
  which the theorems leave open; the TLS handshake and the connection pool behind the settings
  of the HTTP client; the methods of the writer of a reverse lookup that do nothing; help texts of metrics,
  and the texts of log lines and errors beyond their data: these only call libraries. Data
  races within a locked section are excluded by the model, as the locks exclude them in the
  code. A step of \<open>System\<close> takes together what one goroutine does under different locks: the
  configuration time and the cache on arrival, the client and the cache when a reply comes in.
  \<open>Concurrent\<close> splits those steps for the cache and the configuration times, and \<open>gets_are_atomic\<close>
  shows that what is handed out is the same.

  \<^bold>\<open>Left to extend.\<close> The steps of \<open>System\<close> built from the pieces of \<open>Concurrent\<close>; the gauge of the
  discoverer, whose writers can overtake each other too; two instances of one block in one state
  across a reload.
\<close>

section \<open>The instance through its life\<close>

text \<open>
  What the parser returns is a good start for the running system: the limits and profiles hold
  in every state it reaches, and every cache hit is a logged insertion.
\<close>

lemma configured_starts:
  assumes "config_ok cfg"
  shows "routing_ok (routing.truncate (cg_nextdns cfg))" and "dh_endpoints (n_client (cg_nextdns cfg)) \<noteq> []"
    and "n_concurrent (cg_nextdns cfg) = 0" and "0 \<le> n_maxConcurrent (cg_nextdns cfg)"
  using assms by (simp_all add: config_ok_def Let_def client_config_ok_def)

lemma configured_runs:
  assumes "config_ok cfg" and "runs_to sv (booted (cg_nextdns cfg) d) s"
  shows "slots_inv (n_maxConcurrent (cg_nextdns cfg)) s" and "profiles_inv s"
  using slots_inv_runs [OF assms(2)] profiles_inv_runs [OF assms(2)] configured_starts [OF assms(1)] by blast+

lemma configured_hit:
  assumes "config_ok cfg" and "runs_to sv (booted (cg_nextdns cfg) d) s" and "same_library sv sv'"
    and "cached_reply sv' p q (sy_n s) = Some m'"
  shows "\<exists>v t st m. Put v t p st m \<in> set (sy_log s) \<and> Upstream p \<in> set (sy_log s) \<and> sv_match sv st m
    \<and> identity st = identity (qu_state q) \<and> \<not> t < confChangedAt (n_client (sy_n s)) p
    \<and> served_as (qu_state q) m m'"
proof -
  obtain mc where mc: "n_cache (cg_nextdns cfg) = Some mc"
    using no_cache_runs [OF assms(2)] assms(4) by (cases "n_cache (cg_nextdns cfg)") (simp_all add: cached_reply_def)
  then have "fresh_cache mc" using assms(1) by (simp add: config_ok_def Let_def)
  then have "cache_ok mc" and "\<forall>p i m t. \<not> held mc p i m t"
    using held_configured by (auto simp: fresh_cache_def)
  from hit_is_logged [OF cache_inv_runs [OF assms(2) mc] this assms(3,4)] show ?thesis .
qed

section \<open>Properties that span the components\<close>

text \<open>
  Property C1. From the Corefile to the answer: an instance made from any accepted Corefile,
  in whatever way its queries, refreshes, dials and reverse lookups interleave, sends upstream
  only under well-formed profiles, keeps within its limit, never dereferences a missing reply,
  and answers from its cache only with what NextDNS replied earlier to the same question under
  the profile of the query, since that profile's configuration last changed.
\<close>

theorem accepted_corefile_runs_safely:
  assumes "parseNextDNS env k c = Some (Inr cfg)" and "runs_to sv (booted (cg_nextdns cfg) d) s"
  shows "(\<forall>p. Upstream p \<in> set (sy_log s) \<longrightarrow> profile_ok p) \<and>
    (0 < n_maxConcurrent (cg_nextdns cfg) \<longrightarrow> int (length (sy_upstream s)) \<le> n_maxConcurrent (cg_nextdns cfg)) \<and>
    (\<forall>rc. (rc, Some NilDereference) \<notin> set (sy_results s)) \<and>
    (\<forall>sv' q res evs n d'. same_library sv sv' \<and> arrive sv' q (sy_n s, sy_d s) = (Inl (res, evs), n, d')
       \<and> Count ''cache_hits'' \<in> set evs \<longrightarrow>
       (\<exists>v t st m. Put v t (routed q (sy_n s)) st m \<in> set (sy_log s) \<and> Upstream (routed q (sy_n s)) \<in> set (sy_log s)
          \<and> sv_match sv st m \<and> identity st = identity (qu_state q)
          \<and> \<not> t < confChangedAt (n_client (sy_n s)) (routed q (sy_n s))))"
proof -
  have cfg: "config_ok cfg" by (rule accepted_config_ok [OF assms(1)])
  have "\<exists>v t st m. Put v t (routed q (sy_n s)) st m \<in> set (sy_log s) \<and> Upstream (routed q (sy_n s)) \<in> set (sy_log s)
      \<and> sv_match sv st m \<and> identity st = identity (qu_state q)
      \<and> \<not> t < confChangedAt (n_client (sy_n s)) (routed q (sy_n s))"
    if "same_library sv sv'" "arrive sv' q (sy_n s, sy_d s) = (Inl (res, evs), n, d')" "Count ''cache_hits'' \<in> set evs"
    for sv' q res evs n d'
    using arrive_hit [OF that(2,3)] configured_hit [OF cfg assms(2) that(1)] by blast
  then show ?thesis
    using configured_runs [OF cfg assms(2)] by (auto simp: slots_inv_def profiles_inv_def)
qed

lemma sample_configured_run:
  obtains cfg s res evs n d where
    "parseNextDNS sample_env lines_controller sample_corefile = Some (Inr cfg)"
    and "runs_to sample_services (booted (cg_nextdns cfg) cold) s" and "length (sy_results s) = 1"
proof -
  obtain cfg where c: "parseNextDNS sample_env lines_controller sample_corefile = Some (Inr cfg)"
    by (rule sample_parse)
  let ?b = "booted (cg_nextdns cfg) cold"
  obtain res evs n d where s: "serve sample_services sample_asked (sy_n ?b, sy_d ?b) = ((res, evs), n, d)"
    by (metis surj_pair)
  show ?thesis by (rule that [OF c serve_runs [OF s]]) (simp add: booted_def)
qed

theorem accepted_corefile_runs_safely_witness:
  "\<exists>cfg s. parseNextDNS sample_env lines_controller sample_corefile = Some (Inr cfg) \<and>
     runs_to sample_services (booted (cg_nextdns cfg) cold) s \<and> length (sy_results s) = 1 \<and>
     (\<forall>p. Upstream p \<in> set (sy_log s) \<longrightarrow> profile_ok p)"
proof -
  obtain cfg s where c: "parseNextDNS sample_env lines_controller sample_corefile = Some (Inr cfg)"
    and r: "runs_to sample_services (booted (cg_nextdns cfg) cold) s" and l: "length (sy_results s) = 1"
    by (rule sample_configured_run)
  from accepted_corefile_runs_safely [OF c r] c r l show ?thesis by blast
qed

text \<open>
  For queries served one after the other: such an instance also refuses none of them.
\<close>

theorem accepted_corefile_serves_safely:
  assumes "parseNextDNS env k c = Some (Inr cfg)"
    and "serve_all sv qs (cg_nextdns cfg, d) = (evs, n, d')"
    and "serve sv q (n, d') = ((res, evs'), n', d'')"
  shows "(\<forall>p. Upstream p \<in> set (evs @ evs') \<longrightarrow> profile_ok p) \<and>
    snd res \<noteq> Some NilDereference \<and> snd res \<noteq> Some MaxConcurrent \<and>
    (Count ''cache_hits'' \<in> set evs' \<longrightarrow>
       (\<exists>v t st m. Put v t (routed q n) st m \<in> set evs \<and> Upstream (routed q n) \<in> set evs \<and>
          sv_match sv st m \<and> identity st = identity (qu_state q)))"
proof -
  have cfg: "config_ok cfg" by (rule accepted_config_ok [OF assms(1)])
  let ?b = "booted (cg_nextdns cfg) d"
  have "serve_all sv qs (sy_n ?b, sy_d ?b) = (evs, n, d')" using assms(2) by (simp add: booted_def)
  from serve_all_runs [OF this] obtain rs where
    "runs_to sv ?b (?b\<lparr>sy_n := n, sy_d := d', sy_log := sy_log ?b @ evs, sy_results := rs\<rparr>)" ..
  then obtain s where run: "runs_to sv ?b s" and s: "sy_n s = n" "sy_d s = d'" "sy_log s = evs"
      "sy_upstream s = []" "sy_refused s = 0"
    by (simp add: booted_def)
  then have srv: "serve sv q (sy_n s, sy_d s) = ((res, evs'), n', d'')" using assms(3) by simp
  have "profiles_inv (s\<lparr>sy_n := n', sy_d := d'', sy_log := sy_log s @ evs', sy_results := res # sy_results s\<rparr>)"
    by (rule configured_runs(2) [OF cfg rtranclp_trans [OF run serve_runs [OF srv]]])
  then have "\<forall>p. Upstream p \<in> set (evs @ evs') \<longrightarrow> profile_ok p"
    by (auto simp: profiles_inv_def s(3))
  moreover have "snd res \<noteq> Some NilDereference" and "snd res \<noteq> Some MaxConcurrent"
    using serve_not_nil [OF assms(3)] configured_runs [OF cfg run] s
    by (auto simp: slots_inv_def profiles_inv_def split: if_splits)
  moreover have "\<exists>v t st m. Put v t (routed q n) st m \<in> set evs \<and> Upstream (routed q n) \<in> set evs \<and>
      sv_match sv st m \<and> identity st = identity (qu_state q)" if hit: "Count ''cache_hits'' \<in> set evs'"
    using serve_hit [OF assms(3) hit] configured_hit [OF cfg run same_library_refl] s by blast
  ultimately show ?thesis by blast
qed

theorem accepted_corefile_serves_safely_witness:
  "\<exists>cfg evs n d' res evs' n' d''.
     parseNextDNS sample_env lines_controller sample_corefile = Some (Inr cfg) \<and>
     serve_all sample_services [sample_asked] (cg_nextdns cfg, cold) = (evs, n, d') \<and>
     serve sample_services sample_asked (n, d') = ((res, evs'), n', d'') \<and>
     (\<forall>p. Upstream p \<in> set (evs @ evs') \<longrightarrow> profile_ok p) \<and> snd res \<noteq> Some MaxConcurrent"
proof -
  obtain cfg where c: "parseNextDNS sample_env lines_controller sample_corefile = Some (Inr cfg)"
    by (rule sample_parse)
  obtain evs n d' where a: "serve_all sample_services [sample_asked] (cg_nextdns cfg, cold) = (evs, n, d')"
    by (metis surj_pair)
  obtain res evs' n' d'' where s: "serve sample_services sample_asked (n, d') = ((res, evs'), n', d'')"
    by (metis surj_pair)
  from accepted_corefile_serves_safely [OF c a s] c a s show ?thesis by blast
qed

text \<open>
  Property C21. A reply that NextDNS itself dates before the last change of the profile, from a
  server that lags behind or overtaken on its way by a reply that reported the change, is cached
  all the same, because entries are dated by their arrival: it goes on being served for its
  whole lifetime.
\<close>

theorem outdated_reply_is_served:
  assumes "n_cache n = Some mc" and "cache_ok mc" and "sv_pack sv ((rq_req (qu_state q))\<lparr>m_id := 0\<rparr>) = Inr wire"
    and "fst (try_endpoints (\<lambda>ep. do_post (sv_post sv) (sv_unpack sv) ep p wire ci) (sv_cancelled sv) 0
        (dh_endpoints (n_client n)) None) = Inr (m, hdr)"
    and "sv_parse_time sv hdr = Some t" and "t < confChangedAt (n_client n) p"
    and "sv_match sv (qu_state q) m" and "cacheable (qu_state q) m" and "serve_upstream sv p q ci n = ((res, evs), n')"
    and "identity (qu_state q') = identity (qu_state q)" and "confChangedAt (n_client n) p \<le> qu_later q"
    and "qu_later q \<le> qu_now q'" and "qu_now q' - qu_later q < 2 ^ 63"
    and "qu_now q' < qu_later q + clamp_ttl (mc_minTTL mc) (mc_maxTTL mc) (sv_minimalTTL sv m (qu_later q))"
  shows "confChangedAt (n_client n') p = confChangedAt (n_client n) p \<and>
    (\<exists>ttl. cached_reply sv p q' n' = Some (echo_question (qu_state q') (setTTL m ttl)))"
proof -
  have "updateLastMod (sv_parse_time sv) p hdr (n_client n) = n_client n"
    using assms(5,6) by (simp add: updateLastMod_def)
  then have "exchange (sv_pack sv) (sv_post sv) (sv_unpack sv) (sv_parse_time sv) (sv_cancelled sv) p
      (rq_req (qu_state q)) ci (n_client n) = ((Some m, None), n_client n)"
    using assms(3,4) by (simp add: exchange_def)
  then have n': "n' = n\<lparr>n_cache := Some (cache_put (sv_sum64 sv) (sv_minimalTTL sv) (qu_victim q) (qu_later q) p (qu_state q) m mc)\<rparr>"
    using assms(1,7,9) by (auto simp: serve_upstream_def put_reply_def reply_def)
  have "\<exists>ttl. cached_reply sv p q' n' = Some (echo_question (qu_state q') (setTTL m ttl))"
    unfolding n' by (simp add: cached_reply_def hit_msg_def
        get_after_put [where f = "sv_minimalTTL sv", OF assms(2,8,10,11-14)]) blast
  then show ?thesis by (simp add: n')
qed

definition lagging_services :: "world option services" where
  "lagging_services = sample_services\<lparr>sv_post := (\<lambda>u h w. Inr \<lparr>rs_status = 200,
     rs_header = [(''X-Conf-Last-Modified'', ''Mon, 01 Jan 2024 00:00:00 GMT'')], rs_body = ([1], None)\<rparr>),
     sv_parse_time := (\<lambda>_. Some 3)\<rparr>"

definition changed_instance :: nextdns where
  "changed_instance = (sample_instance (Some example_cache))\<lparr>n_client := sample_client\<lparr>dh_lastMod := [(''abc123'', 5)]\<rparr>\<rparr>"

theorem outdated_reply_is_served_witness:
  "\<exists>res evs n' ttl. serve_upstream lagging_services ''abc123'' (sample_asked\<lparr>qu_later := 10\<rparr>) no_client changed_instance
       = ((res, evs), n') \<and>
     cached_reply lagging_services ''abc123'' sample_asked n' = Some (echo_question example_query (setTTL example_answer ttl))"
proof -
  let ?q = "sample_asked\<lparr>qu_later := 10\<rparr>"
  obtain res evs n' where s: "serve_upstream lagging_services ''abc123'' ?q no_client changed_instance = ((res, evs), n')"
    by (metis surj_pair)
  have c: "n_cache changed_instance = Some example_cache" by (simp add: changed_instance_def sample_instance_def)
  have conf: "confChangedAt (n_client changed_instance) ''abc123'' = 5"
    by (simp add: changed_instance_def confChangedAt_def)
  have w: "sv_pack lagging_services ((rq_req (qu_state ?q))\<lparr>m_id := 0\<rparr>) = Inr [0]"
    by (simp add: lagging_services_def sample_services_def)
  have x: "fst (try_endpoints (\<lambda>ep. do_post (sv_post lagging_services) (sv_unpack lagging_services) ep ''abc123'' [0] no_client)
      (sv_cancelled lagging_services) 0 (dh_endpoints (n_client changed_instance)) None)
      = Inr (example_answer, ''Mon, 01 Jan 2024 00:00:00 GMT'')"
    by (simp add: lagging_services_def sample_services_def changed_instance_def sample_client_def do_post_def StatusOK_def
      read_limited_def MaxMsgSize_def header_get_def)
  have p: "sv_parse_time lagging_services ''Mon, 01 Jan 2024 00:00:00 GMT'' = Some 3"
    and m: "sv_match lagging_services (qu_state ?q) example_answer"
    by (simp_all add: lagging_services_def sample_services_def)
  have k: "cacheable (qu_state ?q) example_answer" using example_cacheable by (simp add: sample_asked_def)
  have t: "qu_now sample_asked < qu_later ?q + clamp_ttl (mc_minTTL example_cache) (mc_maxTTL example_cache)
      (sv_minimalTTL lagging_services example_answer (qu_later ?q))"
    by (simp add: clamp_ttl_def Let_def sample_asked_def lagging_services_def sample_services_def)
  have "\<exists>ttl. cached_reply lagging_services ''abc123'' sample_asked n' = Some (echo_question (qu_state sample_asked) (setTTL example_answer ttl))"
    using outdated_reply_is_served [OF c example_cache_ok w x p _ m k s, of sample_asked] t
    by (simp add: conf) (simp add: sample_asked_def)
  with s show ?thesis by (auto simp: sample_asked_def)
qed

end
